(* ===== verification/Lusca_Prelude.thy ===== *)
theory Lusca_Prelude
  imports Main "HOL-Library.Word" "HOL-Library.Multiset" "HOL-Library.Monad_Syntax"
begin

text \<open>
  Shared vocabulary of the development.

  A C function that can stop the process (a failed \<open>assert\<close>, a call of \<open>fatal\<close>) or step
  outside the memory it owns (a \<open>NULL\<close> or dangling pointer, an index past the end of an
  array) returns an \<open>option\<close>: \<open>None\<close> is that failure, and a theorem that the result is
  \<open>Some\<close> is a theorem that the function does not fail. The definitions chain such calls
  with the \<open>do\<close> notation of \<open>HOL-Library.Monad_Syntax\<close>. An error that the C code reports to
  its caller is a value of the result type instead.
\<close>

section \<open>Machine types\<close>

type_synonym byte = "8 word"
type_synonym u16 = "16 word"
type_synonym u32 = "32 word"
type_synonym u64 = "64 word"

text \<open>
  The range of a C \<open>int\<close>: a signed result outside it is undefined behaviour, a failure here.
  A conversion to \<open>size_t\<close> wraps instead.
\<close>

definition int_range :: "int \<Rightarrow> bool" where
  "int_range i \<longleftrightarrow> - (2 ^ 31) \<le> i \<and> i < 2 ^ 31"

definition size_t :: "int \<Rightarrow> int" where
  "size_t i = i mod 2 ^ 64"

lemma size_t_id [simp]: "0 \<le> i \<Longrightarrow> i < 2 ^ 64 \<Longrightarrow> size_t i = i"
  by (simp add: size_t_def)

text \<open>The conversion of a wider integer to \<open>int\<close>, which keeps the low 32 bits; division truncates towards zero.\<close>

definition c_int :: "int \<Rightarrow> int" where
  "c_int v = (v + 2 ^ 31) mod 2 ^ 32 - 2 ^ 31"

definition c_div :: "int \<Rightarrow> int \<Rightarrow> int" where
  "c_div a b = sgn a * sgn b * (\<bar>a\<bar> div \<bar>b\<bar>)"

lemma c_int_id [simp]: "int_range v \<Longrightarrow> c_int v = v"
  by (simp add: c_int_def int_range_def)

lemma c_int_neg: "2 ^ 31 \<le> v \<Longrightarrow> v < 2 ^ 32 \<Longrightarrow> c_int v < 0"
proof -
  assume v: "2 ^ 31 \<le> v" "v < 2 ^ 32"
  have "(v + 2 ^ 31) mod 2 ^ 32 = (v - 2 ^ 31) mod (2 ^ 32)"
    using mod_add_self2 [of "v - 2 ^ 31" "2 ^ 32"] by (simp add: algebra_simps)
  also have "\<dots> = v - 2 ^ 31"
    using v by (intro mod_pos_pos_trivial) simp_all
  finally show "c_int v < 0"
    using v by (simp add: c_int_def)
qed

lemma int_range_nat [simp]: "int_range (int n) \<longleftrightarrow> n < 2 ^ 31"
  by (auto simp: int_range_def)

text \<open>A number shifted left and combined with a smaller one is a sum.\<close>

lemma push_bit_or_low:
  fixes x y :: int
  assumes "0 \<le> y" "y < 2 ^ k"
  shows "or (push_bit k x) y = x * 2 ^ k + y"
proof -
  have "take_bit k y = y"
    using assms by (simp add: take_bit_int_eq_self_iff)
  then have "\<not> bit y n" if "k \<le> n" for n
    using that by (metis bit_take_bit_iff not_le)
  then have "push_bit k x + y = or (push_bit k x) y"
    by (intro disjunctive_add) (auto simp: bit_simps)
  then show ?thesis
    by (simp add: push_bit_eq_mult)
qed

text \<open>An address of an object on the C heap. \<open>NULL\<close> is \<open>None\<close> in an \<open>addr option\<close>.\<close>

type_synonym addr = nat

section \<open>Assertions and checked array access\<close>

definition c_assert :: "bool \<Rightarrow> unit option" where
  "c_assert b = (if b then Some () else None)"

lemma c_assert_simps [simp]: "c_assert True = Some ()" "c_assert False = None"
  by (simp_all add: c_assert_def)

lemma c_assert_eq_Some_iff [simp]: "c_assert b = Some u \<longleftrightarrow> b"
  by (simp add: c_assert_def)

definition arr_get :: "'a list \<Rightarrow> nat \<Rightarrow> 'a option" where
  "arr_get xs i = (if i < length xs then Some (xs ! i) else None)"

definition arr_set :: "'a list \<Rightarrow> nat \<Rightarrow> 'a \<Rightarrow> 'a list option" where
  "arr_set xs i v = (if i < length xs then Some (xs[i := v]) else None)"

lemma arr_get_in [simp]: "i < length xs \<Longrightarrow> arr_get xs i = Some (xs ! i)"
  by (simp add: arr_get_def)

lemma arr_get_out [simp]: "length xs \<le> i \<Longrightarrow> arr_get xs i = None"
  by (simp add: arr_get_def)

lemma arr_get_eq_Some_iff: "arr_get xs i = Some v \<longleftrightarrow> i < length xs \<and> xs ! i = v"
  by (auto simp: arr_get_def)

lemma arr_set_in [simp]: "i < length xs \<Longrightarrow> arr_set xs i v = Some (xs[i := v])"
  by (simp add: arr_set_def)

lemma arr_set_eq_Some_iff: "arr_set xs i v = Some ys \<longleftrightarrow> i < length xs \<and> ys = xs[i := v]"
  by (auto simp: arr_set_def)

text \<open>The same with an \<open>int\<close> index, as C computes it: a negative index is out of bounds.\<close>

definition arr_getz :: "'a list \<Rightarrow> int \<Rightarrow> 'a option" where
  "arr_getz xs i = (if 0 \<le> i then arr_get xs (nat i) else None)"

definition arr_setz :: "'a list \<Rightarrow> int \<Rightarrow> 'a \<Rightarrow> 'a list option" where
  "arr_setz xs i v = (if 0 \<le> i then arr_set xs (nat i) v else None)"

lemma arr_getz_nat [simp]: "arr_getz xs (int i) = arr_get xs i"
  by (simp add: arr_getz_def)

lemma arr_setz_nat [simp]: "arr_setz xs (int i) v = arr_set xs i v"
  by (simp add: arr_setz_def)

section \<open>C strings\<close>

text \<open>
  A string in memory is the bytes up to the first zero byte; without one, reading the string
  leaves the memory that holds it.
\<close>

definition c_str :: "byte list \<Rightarrow> byte list option" where
  "c_str bs = (if 0 \<in> set bs then Some (takeWhile (\<lambda>b. b \<noteq> 0) bs) else None)"

lemma c_str_append_0 [simp]: "0 \<notin> set s \<Longrightarrow> c_str (s @ 0 # rest) = Some s"
  by (induction s) (auto simp: c_str_def)

text \<open>The bytes of a string literal.\<close>

definition bytes_of :: "string \<Rightarrow> byte list" where
  "bytes_of s = map of_char s"

section \<open>Copying memory\<close>

text \<open>\<open>memcpy\<close> of \<open>n\<close> bytes from a buffer at an index.\<close>

definition mem_read :: "byte list \<Rightarrow> int \<Rightarrow> int \<Rightarrow> byte list option" where
  "mem_read buf j n =
     (if 0 \<le> j \<and> 0 \<le> n \<and> j + n \<le> int (length buf) then Some (take (nat n) (drop (nat j) buf)) else None)"

text \<open>\<open>memcpy\<close> of the bytes \<open>bs\<close> into a buffer at an index.\<close>

definition mem_write :: "byte list \<Rightarrow> nat \<Rightarrow> byte list \<Rightarrow> byte list option" where
  "mem_write buf j bs =
     (if j + length bs \<le> length buf then Some (take j buf @ bs @ drop (j + length bs) buf) else None)"

lemma mem_read_append:
  "length v = nat n \<Longrightarrow> 0 \<le> n \<Longrightarrow> mem_read (pre @ v @ rest) (int (length pre)) n = Some v"
  by (simp add: mem_read_def)

lemma mem_read_prefix:
  "int (length v) = n \<Longrightarrow> mem_read (v @ rest) 0 n = Some v" "mem_read v 0 (int (length v)) = Some v"
  by (auto simp: mem_read_def)

lemma mem_read_in: "0 \<le> j \<Longrightarrow> 0 \<le> n \<Longrightarrow> j + n \<le> int (length buf) \<Longrightarrow>
    \<exists>v. mem_read buf j n = Some v \<and> length v = nat n"
  by (auto simp: mem_read_def min_def)

lemma mem_read_nat:
  "i + k \<le> length buf \<Longrightarrow> mem_read buf (int i) (int k) = Some (take k (drop i buf))"
  by (simp add: mem_read_def)

lemma mem_write_in [simp]:
  "j + length bs \<le> length buf \<Longrightarrow> mem_write buf j bs = Some (take j buf @ bs @ drop (j + length bs) buf)"
  by (simp add: mem_write_def)

lemma length_mem_write: "mem_write buf j bs = Some buf' \<Longrightarrow> length buf' = length buf"
  by (auto simp: mem_write_def split: if_splits)

section \<open>Lists\<close>

lemma drop_Cons_nth: "drop j s = x # xs \<Longrightarrow> j < length s \<and> s ! j = x \<and> drop (j + 1) s = xs"
  by (metis Cons_nth_drop_Suc Suc_eq_plus1 drop_all leI list.distinct(1) list.inject)

definition swap_at :: "'a list \<Rightarrow> nat \<Rightarrow> nat \<Rightarrow> 'a list" where
  "swap_at xs i j = xs[i := xs ! j, j := xs ! i]"

lemma length_swap_at [simp]: "length (swap_at xs i j) = length xs"
  by (simp add: swap_at_def)

lemma nth_swap_at:
  "i < length xs \<Longrightarrow> j < length xs \<Longrightarrow> m < length xs \<Longrightarrow>
     swap_at xs i j ! m = (if m = i then xs ! j else if m = j then xs ! i else xs ! m)"
  by (auto simp: swap_at_def nth_list_update)

lemma swap_at_commute:
  "i < length xs \<Longrightarrow> j < length xs \<Longrightarrow> swap_at xs i j = swap_at xs j i"
  by (rule nth_equalityI) (auto simp: nth_swap_at)

lemma swap_at_self [simp]: "i < length xs \<Longrightarrow> swap_at xs i i = xs"
  by (simp add: swap_at_def)

lemma mset_swap_at [simp]:
  "i < length xs \<Longrightarrow> j < length xs \<Longrightarrow> mset (swap_at xs i j) = mset xs"
  by (simp add: swap_at_def mset_swap)

lemma set_swap_at [simp]:
  "i < length xs \<Longrightarrow> j < length xs \<Longrightarrow> set (swap_at xs i j) = set xs"
  using mset_swap_at by (metis set_mset_mset)

lemma mset_butlast: "xs \<noteq> [] \<Longrightarrow> mset (butlast xs) = mset xs - {#last xs#}"
  by (metis add_mset_remove_trivial append_butlast_last_id mset.simps(1,2) mset_append
      union_mset_add_mset_right add.right_neutral)

end
