(* ===== verification/Heap_Order.thy ===== *)
theory Heap_Order
  imports Lusca_Prelude
begin

text \<open>
  Binary heaps laid out in a list, without pointers: the abstract level that the pointer
  model of \<open>lib/heap.c\<close> in \<open>Binary_Heap\<close> is refined to. \<open>sift_up\<close> and \<open>sift_down\<close> are the
  list versions of \<open>_heap_ify_up\<close> and \<open>_heap_ify_down\<close>; the lemmas show that they restore
  the heap order when it is broken at one index only.
\<close>

section \<open>Index arithmetic\<close>

definition heap_parent :: "nat \<Rightarrow> nat" where
  "heap_parent x = (x - 1) div 2"

definition heap_left :: "nat \<Rightarrow> nat" where
  "heap_left x = 2 * x + 1"

definition heap_right :: "nat \<Rightarrow> nat" where
  "heap_right x = 2 * x + 2"

lemma heap_parent_less [simp]: "0 < i \<Longrightarrow> heap_parent i < i"
  by (auto simp: heap_parent_def)

lemma heap_parent_0 [simp]: "heap_parent 0 = 0"
  by (simp add: heap_parent_def)

lemma heap_parent_le [simp]: "heap_parent i \<le> i"
  by (auto simp: heap_parent_def)

lemma heap_parent_left [simp]: "heap_parent (heap_left i) = i"
  by (simp add: heap_parent_def heap_left_def)

lemma heap_parent_right [simp]: "heap_parent (heap_right i) = i"
  by (simp add: heap_parent_def heap_right_def)

lemma heap_child_iff: "0 < j \<Longrightarrow> heap_parent j = i \<longleftrightarrow> j = heap_left i \<or> j = heap_right i"
  by (auto simp: heap_parent_def heap_left_def heap_right_def)

lemma heap_kid_greater [simp]: "i < heap_left i" "i < heap_right i"
  by (simp_all add: heap_left_def heap_right_def)

lemma heap_left_less_right: "heap_left i < heap_right i"
  by (simp add: heap_left_def heap_right_def)

section \<open>The heap order\<close>

definition heap_ordered :: "('e \<Rightarrow> 'k::linorder) \<Rightarrow> 'e list \<Rightarrow> bool" where
  "heap_ordered k xs \<longleftrightarrow>
     (\<forall>j < length xs. 0 < j \<longrightarrow> k (xs ! heap_parent j) \<le> k (xs ! j))"

text \<open>The order may fail between \<open>i\<close> and its parent only.\<close>

definition ordered_but_up :: "('e \<Rightarrow> 'k::linorder) \<Rightarrow> 'e list \<Rightarrow> nat \<Rightarrow> bool" where
  "ordered_but_up k xs i \<longleftrightarrow>
     (\<forall>j < length xs. 0 < j \<longrightarrow>
        (j \<noteq> i \<longrightarrow> k (xs ! heap_parent j) \<le> k (xs ! j)) \<and>
        (heap_parent j = i \<longrightarrow> 0 < i \<longrightarrow> k (xs ! heap_parent i) \<le> k (xs ! j)))"

text \<open>The order may fail between \<open>i\<close> and its children only.\<close>

definition ordered_but_down :: "('e \<Rightarrow> 'k::linorder) \<Rightarrow> 'e list \<Rightarrow> nat \<Rightarrow> bool" where
  "ordered_but_down k xs i \<longleftrightarrow>
     (\<forall>j < length xs. 0 < j \<longrightarrow>
        (heap_parent j \<noteq> i \<longrightarrow> k (xs ! heap_parent j) \<le> k (xs ! j)) \<and>
        (heap_parent j = i \<longrightarrow> 0 < i \<longrightarrow> k (xs ! heap_parent i) \<le> k (xs ! j)))"

function sift_up :: "('e \<Rightarrow> 'k::linorder) \<Rightarrow> 'e list \<Rightarrow> nat \<Rightarrow> 'e list" where
  "sift_up k xs i =
     (if 0 < i \<and> \<not> k (xs ! heap_parent i) \<le> k (xs ! i)
      then sift_up k (swap_at xs (heap_parent i) i) (heap_parent i) else xs)"
  by pat_completeness auto
termination
  by (relation "measure (\<lambda>(k, xs, i). i)") auto

definition smaller_kid :: "('e \<Rightarrow> 'k::linorder) \<Rightarrow> 'e list \<Rightarrow> nat \<Rightarrow> nat" where
  "smaller_kid k xs i =
     (if heap_right i < length xs \<and> k (xs ! heap_right i) < k (xs ! heap_left i)
      then heap_right i else heap_left i)"

function sift_down :: "('e \<Rightarrow> 'k::linorder) \<Rightarrow> 'e list \<Rightarrow> nat \<Rightarrow> 'e list" where
  "sift_down k xs i =
     (if heap_left i < length xs \<and> \<not> k (xs ! i) \<le> k (xs ! smaller_kid k xs i)
      then sift_down k (swap_at xs (smaller_kid k xs i) i) (smaller_kid k xs i) else xs)"
  by pat_completeness auto
termination
  by (relation "measure (\<lambda>(k, xs, i). length xs - i)")
     (auto simp: smaller_kid_def heap_left_def heap_right_def)

declare sift_up.simps [simp del] sift_down.simps [simp del]

lemma smaller_kid_bounds:
  "heap_left i < length xs \<Longrightarrow> i < smaller_kid k xs i \<and> smaller_kid k xs i < length xs"
  by (auto simp: smaller_kid_def)

lemma smaller_kid_cases: "smaller_kid k xs i = heap_left i \<or> smaller_kid k xs i = heap_right i"
  by (simp add: smaller_kid_def)

lemma heap_parent_smaller_kid [simp]: "heap_parent (smaller_kid k xs i) = i"
  by (simp add: smaller_kid_def)

lemma smaller_kid_least:
  "heap_parent j = i \<Longrightarrow> 0 < j \<Longrightarrow> j < length xs \<Longrightarrow> k (xs ! smaller_kid k xs i) \<le> k (xs ! j)"
  using heap_left_less_right [of i] by (auto simp: smaller_kid_def heap_child_iff)

section \<open>Permutation\<close>

lemma mset_sift_up: "i < length xs \<Longrightarrow> mset (sift_up k xs i) = mset xs"
proof (induction k xs i rule: sift_up.induct)
  case (1 k xs i)
  then show ?case
    by (subst sift_up.simps) (auto intro: le_less_trans [OF heap_parent_le])
qed

lemma mset_sift_down: "i < length xs \<Longrightarrow> mset (sift_down k xs i) = mset xs"
proof (induction k xs i rule: sift_down.induct)
  case (1 k xs i)
  then show ?case
    using smaller_kid_bounds [of i xs k] by (subst sift_down.simps) auto
qed

lemma length_sift_up [simp]: "length (sift_up k xs i) = length xs"
  by (induction k xs i rule: sift_up.induct) (subst sift_up.simps, simp)

lemma length_sift_down [simp]: "length (sift_down k xs i) = length xs"
  by (induction k xs i rule: sift_down.induct) (subst sift_down.simps, simp)

section \<open>Restoring the order\<close>

lemma ordered_but_upI: "heap_ordered k xs \<Longrightarrow> ordered_but_up k xs i"
  unfolding heap_ordered_def ordered_but_up_def
  by (metis heap_parent_less order.strict_trans order_trans)

lemma ordered_but_downI: "heap_ordered k xs \<Longrightarrow> ordered_but_down k xs i"
  unfolding heap_ordered_def ordered_but_down_def
  by (metis heap_parent_less order.strict_trans order_trans)

lemma ordered_but_up_done:
  "ordered_but_up k xs i \<Longrightarrow> i = 0 \<or> k (xs ! heap_parent i) \<le> k (xs ! i) \<Longrightarrow> heap_ordered k xs"
  by (auto simp: heap_ordered_def ordered_but_up_def)

lemma ordered_but_up_step:
  assumes up: "ordered_but_up k xs i" and i: "0 < i" "i < length xs"
    and gt: "k (xs ! i) < k (xs ! heap_parent i)"
  shows "ordered_but_up k (swap_at xs (heap_parent i) i) (heap_parent i)"
proof -
  let ?p = "heap_parent i" and ?ys = "swap_at xs (heap_parent i) i"
  have p: "?p < length xs" "?p \<noteq> i" using i heap_parent_less [of i] by linarith+
  have ys: "?ys ! m = (if m = ?p then xs ! i else if m = i then xs ! ?p else xs ! m)"
    if "m < length xs" for m
    using that i p by (simp add: nth_swap_at)
  show ?thesis
    unfolding ordered_but_up_def
  proof (intro allI impI conjI)
    fix j assume j: "j < length ?ys" "0 < j"
    have pj: "heap_parent j < length xs" using j by (auto intro: le_less_trans [OF heap_parent_le])
    {
      assume "j \<noteq> ?p"
      show "k (?ys ! heap_parent j) \<le> k (?ys ! j)"
      proof (cases "j = i")
        case True
        then show ?thesis using ys i p gt by auto
      next
        case False
        then have "k (xs ! heap_parent j) \<le> k (xs ! j)"
          and "heap_parent j = i \<Longrightarrow> k (xs ! ?p) \<le> k (xs ! j)"
          using up j i by (auto simp: ordered_but_up_def)
        then show ?thesis
          using ys [of j] ys [OF pj] j False \<open>j \<noteq> ?p\<close> gt by auto
      qed
    }
    assume pp: "heap_parent j = ?p" "0 < ?p"
    have "k (xs ! heap_parent ?p) \<le> k (xs ! ?p)"
      using up p pp by (auto simp: ordered_but_up_def)
    moreover have "j \<noteq> i \<Longrightarrow> k (xs ! ?p) \<le> k (xs ! j)"
      using up j pp by (auto simp: ordered_but_up_def)
    moreover have "heap_parent ?p < length xs" "heap_parent ?p \<noteq> i" "heap_parent ?p \<noteq> ?p"
      using p pp i heap_parent_less [of ?p] heap_parent_le [of i] by linarith+
    moreover have "j \<noteq> ?p" using heap_parent_less [of j] j pp by auto
    ultimately show "k (?ys ! heap_parent ?p) \<le> k (?ys ! j)"
      using ys [of j] ys [of "heap_parent ?p"] j by (auto split: if_splits)
  qed
qed

lemma sift_up_ordered:
  "ordered_but_up k xs i \<Longrightarrow> i < length xs \<Longrightarrow> heap_ordered k (sift_up k xs i)"
proof (induction k xs i rule: sift_up.induct)
  case (1 k xs i)
  show ?case
  proof (cases "0 < i \<and> \<not> k (xs ! heap_parent i) \<le> k (xs ! i)")
    case True
    then have "ordered_but_up k (swap_at xs (heap_parent i) i) (heap_parent i)"
      using "1.prems" by (intro ordered_but_up_step) auto
    moreover have "heap_parent i < length xs"
      using "1.prems" True heap_parent_less [of i] by linarith
    ultimately show ?thesis
      using "1.IH" True by (subst sift_up.simps) simp
  next
    case False
    then show ?thesis
      using "1.prems" ordered_but_up_done [of k xs i] by (subst sift_up.simps) auto
  qed
qed

lemma ordered_but_down_done:
  assumes "ordered_but_down k xs i"
    and "heap_left i < length xs \<Longrightarrow> k (xs ! i) \<le> k (xs ! smaller_kid k xs i)"
  shows "heap_ordered k xs"
  unfolding heap_ordered_def
proof (intro allI impI)
  fix j assume j: "j < length xs" "0 < j"
  show "k (xs ! heap_parent j) \<le> k (xs ! j)"
  proof (cases "heap_parent j = i")
    case True
    then have "heap_left i \<le> j" using j heap_left_less_right [of i] by (auto simp: heap_child_iff)
    then show ?thesis
      using assms(2) smaller_kid_least [OF True j(2,1)] j True by (auto intro: order_trans)
  next
    case False
    then show ?thesis using assms(1) j by (auto simp: ordered_but_down_def)
  qed
qed

lemma ordered_but_down_step:
  assumes down: "ordered_but_down k xs i" and i: "heap_left i < length xs"
    and gt: "k (xs ! smaller_kid k xs i) < k (xs ! i)"
  shows "ordered_but_down k (swap_at xs (smaller_kid k xs i) i) (smaller_kid k xs i)"
proof -
  let ?c = "smaller_kid k xs i"
  let ?ys = "swap_at xs ?c i"
  have c: "i < ?c" "?c < length xs" "i < length xs"
    using smaller_kid_bounds [OF i, of k] by auto
  have ys: "?ys ! m = (if m = ?c then xs ! i else if m = i then xs ! ?c else xs ! m)"
    if "m < length xs" for m
    using that c by (simp add: nth_swap_at)
  show ?thesis
    unfolding ordered_but_down_def
  proof (intro allI impI conjI)
    fix j assume j: "j < length ?ys" "0 < j"
    have pj: "heap_parent j < length xs" using j by (auto intro: le_less_trans [OF heap_parent_le])
    {
      assume nc: "heap_parent j \<noteq> ?c"
      show "k (?ys ! heap_parent j) \<le> k (?ys ! j)"
      proof (cases "heap_parent j = i")
        case True
        then have "k (xs ! ?c) \<le> k (xs ! j)" using smaller_kid_least j by simp
        then show ?thesis
          using ys [of j] ys [OF pj] j c gt True nc heap_parent_less [OF j(2)] by auto
      next
        case False
        then have "k (xs ! heap_parent j) \<le> k (xs ! j)"
          using down j by (auto simp: ordered_but_down_def)
        moreover have "j \<noteq> ?c" using False by auto
        moreover have "j = i \<Longrightarrow> k (xs ! heap_parent j) \<le> k (xs ! ?c)"
          using down c j by (auto simp: ordered_but_down_def)
        ultimately show ?thesis
          using ys [of j] ys [OF pj] j nc False by auto
      qed
    }
    assume pc: "heap_parent j = ?c" "0 < ?c"
    have "k (xs ! ?c) \<le> k (xs ! j)"
      using down j pc c by (auto simp: ordered_but_down_def)
    moreover have "j \<noteq> i" "j \<noteq> ?c" using heap_parent_less [OF j(2)] pc c by auto
    ultimately show "k (?ys ! heap_parent ?c) \<le> k (?ys ! j)"
      using ys [of i] ys [of j] j c by simp
  qed
qed

lemma sift_down_ordered:
  "ordered_but_down k xs i \<Longrightarrow> heap_ordered k (sift_down k xs i)"
proof (induction k xs i rule: sift_down.induct)
  case (1 k xs i)
  show ?case
  proof (cases "heap_left i < length xs \<and> \<not> k (xs ! i) \<le> k (xs ! smaller_kid k xs i)")
    case True
    then show ?thesis
      using "1.IH" "1.prems" ordered_but_down_step [of k xs i] by (subst sift_down.simps) auto
  next
    case False
    then show ?thesis
      using "1.prems" ordered_but_down_done [of k xs i] by (subst sift_down.simps) auto
  qed
qed

text \<open>A list whose order is right everywhere is left alone.\<close>

lemma sift_up_id: "heap_ordered k xs \<Longrightarrow> i < length xs \<Longrightarrow> sift_up k xs i = xs"
  by (subst sift_up.simps) (auto simp: heap_ordered_def)

lemma sift_down_id: "heap_ordered k xs \<Longrightarrow> sift_down k xs i = xs"
  using smaller_kid_bounds [of i xs k]
  by (subst sift_down.simps)
     (metis heap_parent_smaller_kid heap_ordered_def le_less_trans zero_le)

text \<open>The root is the least element.\<close>

lemma heap_ordered_root: "heap_ordered k xs \<Longrightarrow> i < length xs \<Longrightarrow> k (xs ! 0) \<le> k (xs ! i)"
proof (induction i rule: less_induct)
  case (less i)
  show ?case
  proof (cases "i = 0")
    case False
    then have "k (xs ! 0) \<le> k (xs ! heap_parent i)"
      using less heap_parent_less [of i] by (meson gr0I order.strict_trans)
    also have "\<dots> \<le> k (xs ! i)"
      using less False by (auto simp: heap_ordered_def)
    finally show ?thesis .
  qed simp
qed

lemma heap_ordered_butlast: "heap_ordered k xs \<Longrightarrow> heap_ordered k (butlast xs)"
proof -
  assume "heap_ordered k xs"
  moreover have "heap_parent j < length xs - 1" if "j < length xs - 1" "0 < j" for j
    using that heap_parent_less [of j] by linarith
  ultimately show ?thesis by (auto simp: heap_ordered_def nth_butlast)
qed

text \<open>
  Replacing the element at one index of an ordered list: the order is repaired upwards when
  the new key is below the parent's, downwards otherwise. This is the step that
  \<open>heap_delete\<close> and \<open>heap_update\<close> share.
\<close>

definition heap_restore :: "('e \<Rightarrow> 'k::linorder) \<Rightarrow> 'e list \<Rightarrow> nat \<Rightarrow> 'e list" where
  "heap_restore k xs i =
     (if k (xs ! i) < k (xs ! heap_parent i) then sift_up k xs i else sift_down k xs i)"

lemma length_heap_restore [simp]: "length (heap_restore k xs i) = length xs"
  by (simp add: heap_restore_def)

lemma mset_heap_restore: "i < length xs \<Longrightarrow> mset (heap_restore k xs i) = mset xs"
  by (simp add: heap_restore_def mset_sift_up mset_sift_down)

lemma heap_restore_ordered:
  assumes ord: "heap_ordered k xs" and i: "i < length xs"
  shows "heap_ordered k (heap_restore k (xs[i := e]) i)"
proof (cases "k (xs[i := e] ! i) < k (xs[i := e] ! heap_parent i)")
  case True
  then have i0: "0 < i" using gr0I by fastforce
  have "ordered_but_up k (xs[i := e]) i"
    unfolding ordered_but_up_def
  proof (intro allI impI conjI)
    fix j assume j: "j < length (xs[i := e])" "0 < j"
    have e: "k e < k (xs ! heap_parent i)"
      using True i i0 heap_parent_less [OF i0] by simp
    have "heap_parent j = i \<Longrightarrow> k (xs ! heap_parent i) \<le> k (xs ! j)"
      and "k (xs ! heap_parent j) \<le> k (xs ! j)"
      using ordered_but_upI [OF ord, of i] ord j i0 by (auto simp: ordered_but_up_def heap_ordered_def)
    then show "k (xs[i := e] ! heap_parent j) \<le> k (xs[i := e] ! j)" if "j \<noteq> i"
      using that e i by (cases "heap_parent j = i") auto
    show "k (xs[i := e] ! heap_parent i) \<le> k (xs[i := e] ! j)" if "heap_parent j = i"
      using that ordered_but_upI [OF ord, of i] j i0 heap_parent_less [OF i0] heap_parent_less [OF j(2)]
      by (auto simp: ordered_but_up_def)
  qed
  then show ?thesis using True i by (simp add: heap_restore_def sift_up_ordered)
next
  case False
  have "ordered_but_down k (xs[i := e]) i"
    unfolding ordered_but_down_def
  proof (intro allI impI conjI)
    fix j assume j: "j < length (xs[i := e])" "0 < j"
    show "k (xs[i := e] ! heap_parent j) \<le> k (xs[i := e] ! j)" if "heap_parent j \<noteq> i"
      using that ord False i j by (cases "j = i") (auto simp: heap_ordered_def)
    show "k (xs[i := e] ! heap_parent i) \<le> k (xs[i := e] ! j)" if "heap_parent j = i" "0 < i"
      using that ordered_but_downI [OF ord, of i] j heap_parent_less [OF that(2)] heap_parent_less [OF j(2)]
      by (auto simp: ordered_but_down_def)
  qed
  then show ?thesis using False by (simp add: heap_restore_def sift_down_ordered)
qed

lemma heap_ordered_snoc:
  assumes "heap_ordered k xs"
  shows "ordered_but_up k (xs @ [e]) (length xs)"
proof -
  have len: "heap_parent j < length xs" if "j < length xs" for j
    using that by (auto intro: le_less_trans [OF heap_parent_le])
  have "heap_parent j \<noteq> length xs" if "j < length (xs @ [e])" "0 < j" for j
    using that(1) [simplified] heap_parent_less [OF that(2)] by linarith
  then show ?thesis
    using assms len by (auto simp: ordered_but_up_def heap_ordered_def nth_append less_Suc_eq)
qed

end
