(* ===== verification/Binary_Heap.thy ===== *)
theory Binary_Heap
  imports Heap_Order
begin

text \<open>
  The keyed heap of \<open>lib/heap.c\<close>, pointer by pointer. A heap object owns an array of node
  pointers; every node carries its key, its own index in the array and the caller's data, and
  the caller keeps the node pointer to delete or update the node later. The C heap of nodes
  is a map from addresses to nodes (\<open>hp_mem\<close>); \<open>hp_brk\<close> is the next address \<open>xmalloc\<close>
  returns. \<open>heap_view\<close> reads the live part of the array as a list, and every operation is
  shown to return (no failed assertion, no stray pointer, no endless loop), to keep the
  representation invariant and to act on the view as the list operations of \<open>Heap_Order\<close>.

  Keys are of any linearly ordered type with a zero; the C type is \<open>double\<close>, and the key
  functions in use never produce a NaN. Sizes and indices are \<open>unsigned long\<close> in the structures
  and pass through \<open>int\<close> in several functions; the conversions are written out, and a heap is
  well-formed only if its size fits an \<open>int\<close>, which \<open>new_heap\<close> and \<open>_heap_grow\<close> see to.
\<close>

section \<open>Data\<close>

record ('d, 'k) heap_node =
  hn_key :: 'k
  hn_id :: nat
  hn_data :: 'd

record ('d, 'k) heap =
  hp_size :: nat
  hp_last :: nat
  hp_gen_key :: "'d \<Rightarrow> 'k \<Rightarrow> 'k"
  hp_age :: 'k
  hp_nodes :: "addr option list"
  hp_mem :: "addr \<Rightarrow> ('d, 'k) heap_node option"
  hp_brk :: addr

section \<open>Operations\<close>

text \<open>\<open>hp->nodes[i]\<close> followed by a dereference of the pointer found there.\<close>

definition node_ptr :: "('d, 'k) heap \<Rightarrow> nat \<Rightarrow> addr option" where
  "node_ptr hp i = do { p \<leftarrow> arr_get (hp_nodes hp) i; p }"

definition node_at :: "('d, 'k) heap \<Rightarrow> nat \<Rightarrow> ('d, 'k) heap_node option" where
  "node_at hp i = do { a \<leftarrow> node_ptr hp i; hp_mem hp a }"

definition new_heap :: "int \<Rightarrow> ('d \<Rightarrow> 'k \<Rightarrow> 'k) \<Rightarrow> ('d, 'k::{linorder,zero}) heap" where
  "new_heap initSize gen_key =
     (let sz = nat (if initSize \<le> 0 then 32 else initSize)
      in \<lparr>hp_size = sz, hp_last = 0, hp_gen_key = gen_key, hp_age = 0,
          hp_nodes = replicate sz None, hp_mem = Map.empty, hp_brk = 0\<rparr>)"

definition heap_gen_key :: "('d, 'k) heap \<Rightarrow> 'd \<Rightarrow> 'k" where
  "heap_gen_key hp dat = hp_gen_key hp dat (hp_age hp)"

definition heap_node_exist :: "('d, 'k) heap \<Rightarrow> int \<Rightarrow> bool option" where
  "heap_node_exist hp i =
     (if i \<ge> int (hp_last hp) \<or> i < 0 then Some False
      else do { p \<leftarrow> arr_get (hp_nodes hp) (nat i); Some (p \<noteq> None) })"

definition heap_should_grow :: "('d, 'k) heap \<Rightarrow> bool" where
  "heap_should_grow hp \<longleftrightarrow> hp_size hp \<le> hp_last hp"

text \<open>
  The new size is assigned to an \<open>int\<close>; above the threshold it is a product of \<open>double\<close> type, and
  converting one that does not fit is undefined. The new cells of the reallocated array are not
  initialised; no operation reads them.
\<close>

definition heap_grow :: "('d, 'k) heap \<Rightarrow> ('d, 'k) heap option" where
  "heap_grow hp = do {
     let newSize = (if hp_size hp > 10000 then hp_size hp * 3 div 2 else hp_size hp * 2);
     c_assert (int_range (int newSize));
     Some (hp\<lparr>hp_nodes := hp_nodes hp @ replicate (newSize - length (hp_nodes hp)) None,
              hp_size := newSize\<rparr>)
   }"

text \<open>The macro \<open>Parent\<close>, with its cast; a negative index is outside the array.\<close>

definition Parent :: "nat \<Rightarrow> nat option" where
  "Parent x =
     (let i = c_div (c_int (int x - 1)) 2
      in if i < 0 then None else Some (nat i))"

definition heap_swap_element :: "('d, 'k) heap \<Rightarrow> addr \<Rightarrow> addr \<Rightarrow> ('d, 'k) heap option" where
  "heap_swap_element hp elm1 elm2 = do {
     n1 \<leftarrow> hp_mem hp elm1;
     n2 \<leftarrow> hp_mem hp elm2;
     let elm1Id = c_int (int (hn_id n1));
     let m1 = (hp_mem hp)(elm1 \<mapsto> n1\<lparr>hn_id := hn_id n2\<rparr>);
     n2' \<leftarrow> m1 elm2;
     let m2 = m1(elm2 \<mapsto> n2'\<lparr>hn_id := nat (size_t elm1Id)\<rparr>);
     n1' \<leftarrow> m2 elm1;
     n2'' \<leftarrow> m2 elm2;
     ns1 \<leftarrow> arr_set (hp_nodes hp) (hn_id n1') (Some elm1);
     ns2 \<leftarrow> arr_set ns1 (hn_id n2'') (Some elm2);
     Some (hp\<lparr>hp_nodes := ns2, hp_mem := m2\<rparr>)
   }"

partial_function (option) heap_ify_up ::
  "('d, 'k::linorder) heap \<Rightarrow> addr \<Rightarrow> ('d, 'k) heap option" where
  "heap_ify_up hp elm = do {
     n \<leftarrow> hp_mem hp elm;
     if hn_id n > 0 then do {
       i \<leftarrow> Parent (hn_id n);
       parentNode \<leftarrow> node_ptr hp i;
       pn \<leftarrow> hp_mem hp parentNode;
       if hn_key pn \<le> hn_key n then Some hp
       else do {
         hp' \<leftarrow> heap_swap_element hp parentNode elm;
         heap_ify_up hp' elm
       }
     }
     else Some hp
   }"

text \<open>The child that \<open>_heap_ify_down\<close> compares with; \<open>None\<close> when there is no child.\<close>

definition heap_pick_kid :: "('d, 'k::linorder) heap \<Rightarrow> nat \<Rightarrow> addr option option" where
  "heap_pick_kid hp i = do {
     let left = c_int (int (heap_left i));
     let right = c_int (int (heap_right i));
     l \<leftarrow> heap_node_exist hp left;
     r \<leftarrow> heap_node_exist hp right;
     if \<not> l then do { _ \<leftarrow> c_assert (\<not> r); Some None }
     else if \<not> r then do { kid \<leftarrow> node_ptr hp (nat left); Some (Some kid) }
     else do {
       rn \<leftarrow> node_at hp (nat right);
       ln \<leftarrow> node_at hp (nat left);
       kid \<leftarrow> node_ptr hp (if hn_key rn < hn_key ln then nat right else nat left);
       Some (Some kid)
     }
   }"

partial_function (option) heap_ify_down ::
  "('d, 'k::linorder) heap \<Rightarrow> addr \<Rightarrow> ('d, 'k) heap option" where
  "heap_ify_down hp elm = do {
     n \<leftarrow> hp_mem hp elm;
     k \<leftarrow> heap_pick_kid hp (hn_id n);
     (case k of
        None \<Rightarrow> Some hp
      | Some kid \<Rightarrow> do {
          kn \<leftarrow> hp_mem hp kid;
          if hn_key n \<le> hn_key kn then Some hp
          else do {
            hp' \<leftarrow> heap_swap_element hp kid elm;
            heap_ify_down hp' elm
          }
        })
   }"

definition heap_insert ::
  "('d, 'k::linorder) heap \<Rightarrow> 'd \<Rightarrow> (addr \<times> ('d, 'k) heap) option" where
  "heap_insert hp dat = do {
     let elm = hp_brk hp;
     let ky = heap_gen_key hp dat;
     hp1 \<leftarrow> (if heap_should_grow hp then heap_grow hp else Some hp);
     ns \<leftarrow> arr_set (hp_nodes hp1) (hp_last hp1) (Some elm);
     let hp2 = hp1\<lparr>hp_brk := elm + 1, hp_nodes := ns,
        hp_mem := (hp_mem hp1)(elm \<mapsto> \<lparr>hn_key = ky, hn_id = hp_last hp1, hn_data = dat\<rparr>),
        hp_last := hp_last hp1 + 1\<rparr>;
     hp3 \<leftarrow> heap_ify_up hp2 elm;
     Some (elm, hp3)
   }"

definition heap_extractlast :: "('d, 'k) heap \<Rightarrow> ('d \<times> ('d, 'k) heap) option" where
  "heap_extractlast hp = do {
     ex \<leftarrow> heap_node_exist hp (c_int (int (hp_last hp) - 1));
     _ \<leftarrow> c_assert ex;
     let lst = hp_last hp - 1;
     a \<leftarrow> node_ptr hp lst;
     n \<leftarrow> hp_mem hp a;
     Some (hn_data n, hp\<lparr>hp_last := lst, hp_mem := (hp_mem hp)(a := None)\<rparr>)
   }"

definition heap_delete ::
  "('d, 'k::linorder) heap \<Rightarrow> addr \<Rightarrow> ('d \<times> ('d, 'k) heap) option" where
  "heap_delete hp elm = do {
     en \<leftarrow> hp_mem hp elm;
     let dat = hn_data en;
     ex \<leftarrow> heap_node_exist hp (c_int (int (hp_last hp) - 1));
     _ \<leftarrow> c_assert ex;
     lastNode \<leftarrow> node_ptr hp (hp_last hp - 1);
     hp1 \<leftarrow> heap_swap_element hp lastNode elm;
     (_, hp2) \<leftarrow> heap_extractlast hp1;
     if elm = lastNode then Some (dat, hp2)
     else if hp_last hp2 > 0 then do {
       ln \<leftarrow> hp_mem hp2 lastNode;
       i \<leftarrow> Parent (hn_id ln);
       pn \<leftarrow> node_at hp2 i;
       hp3 \<leftarrow> (if hn_key ln < hn_key pn then heap_ify_up hp2 lastNode else Some hp2);
       hp4 \<leftarrow> heap_ify_down hp3 lastNode;
       Some (dat, hp4)
     }
     else Some (dat, hp2)
   }"

definition heap_extractmin ::
  "('d, 'k::linorder) heap \<Rightarrow> ('d option \<times> ('d, 'k) heap) option" where
  "heap_extractmin hp =
     (if hp_last hp = 0 then Some (None, hp)
      else do {
        a \<leftarrow> node_ptr hp 0;
        n \<leftarrow> hp_mem hp a;
        (_, hp') \<leftarrow> heap_delete hp a;
        Some (Some (hn_data n), hp')
      })"

definition heap_update ::
  "('d, 'k::linorder) heap \<Rightarrow> addr \<Rightarrow> 'd \<Rightarrow> ('d \<times> ('d, 'k) heap) option" where
  "heap_update hp elm dat = do {
     n \<leftarrow> hp_mem hp elm;
     let old = hn_data n;
     let ky = heap_gen_key hp dat;
     let hp1 = hp\<lparr>hp_mem := (hp_mem hp)(elm \<mapsto> n\<lparr>hn_key := ky, hn_data := dat\<rparr>)\<rparr>;
     i \<leftarrow> Parent (hn_id n);
     pn \<leftarrow> node_at hp1 i;
     hp2 \<leftarrow> (if ky < hn_key pn then heap_ify_up hp1 elm else Some hp1);
     hp3 \<leftarrow> heap_ify_down hp2 elm;
     Some (old, hp3)
   }"

definition heap_peep :: "('d, 'k) heap \<Rightarrow> int \<Rightarrow> 'd option" where
  "heap_peep hp n = do {
     ex \<leftarrow> heap_node_exist hp n; _ \<leftarrow> c_assert ex; nd \<leftarrow> node_at hp (nat n); Some (hn_data nd) }"

definition heap_peepkey :: "('d, 'k) heap \<Rightarrow> int \<Rightarrow> 'k option" where
  "heap_peepkey hp n = do {
     ex \<leftarrow> heap_node_exist hp n; _ \<leftarrow> c_assert ex; nd \<leftarrow> node_at hp (nat n); Some (hn_key nd) }"

definition heap_peepmin :: "('d, 'k) heap \<Rightarrow> 'd option" where
  "heap_peepmin hp = do {
     ex \<leftarrow> heap_node_exist hp 0; _ \<leftarrow> c_assert ex; nd \<leftarrow> node_at hp 0; Some (hn_data nd) }"

definition heap_peepminkey :: "('d, 'k) heap \<Rightarrow> 'k option" where
  "heap_peepminkey hp = do {
     ex \<leftarrow> heap_node_exist hp 0; _ \<leftarrow> c_assert ex; nd \<leftarrow> node_at hp 0; Some (hn_key nd) }"

definition heap_nodes :: "('d, 'k) heap \<Rightarrow> nat" where
  "heap_nodes hp = hp_last hp"

definition heap_empty :: "('d, 'k) heap \<Rightarrow> bool" where
  "heap_empty hp \<longleftrightarrow> hp_last hp = 0"

text \<open>\<open>verify_heap_property\<close>: the loop stops at the first violation.\<close>

definition heap_child_ok :: "('d, 'k::linorder) heap \<Rightarrow> nat \<Rightarrow> nat \<Rightarrow> bool option" where
  "heap_child_ok hp i c = do {
     c_assert (int_range (int c));
     ex \<leftarrow> heap_node_exist hp (int c);
     if ex then do { n \<leftarrow> node_at hp i; m \<leftarrow> node_at hp c; Some (\<not> hn_key n > hn_key m) }
     else Some True
   }"

fun verify_heap_loop :: "('d, 'k::linorder) heap \<Rightarrow> nat list \<Rightarrow> bool option" where
  "verify_heap_loop hp [] = Some True"
| "verify_heap_loop hp (i # is) = do {
     l \<leftarrow> heap_child_ok hp i (heap_left i);
     r \<leftarrow> heap_child_ok hp i (heap_right i);
     if l \<and> r then verify_heap_loop hp is else Some False
   }"

definition verify_heap_property :: "('d, 'k::linorder) heap \<Rightarrow> bool option" where
  "verify_heap_property hp = verify_heap_loop hp [0 ..< hp_last hp div 2]"

text \<open>\<open>delete_heap\<close> frees every node and the array; freeing an address twice is a failure.\<close>

fun free_nodes :: "(addr \<Rightarrow> ('d, 'k) heap_node option) \<Rightarrow> addr option list
    \<Rightarrow> (addr \<Rightarrow> ('d, 'k) heap_node option) option" where
  "free_nodes m [] = Some m"
| "free_nodes m (p # ps) = do { a \<leftarrow> p; _ \<leftarrow> m a; free_nodes (m(a := None)) ps }"

definition delete_heap :: "('d, 'k) heap \<Rightarrow> (addr \<Rightarrow> ('d, 'k) heap_node option) option" where
  "delete_heap hp = free_nodes (hp_mem hp) (take (hp_last hp) (hp_nodes hp))"

section \<open>Representation invariant and view\<close>

definition heap_wf :: "('d, 'k) heap \<Rightarrow> bool" where
  "heap_wf hp \<longleftrightarrow>
     length (hp_nodes hp) = hp_size hp \<and> hp_last hp \<le> hp_size hp \<and> 0 < hp_size hp \<and> hp_size hp < 2 ^ 31 \<and>
     (\<forall>i < hp_last hp. \<exists>a n. hp_nodes hp ! i = Some a \<and> hp_mem hp a = Some n \<and> hn_id n = i) \<and>
     (\<forall>a n. hp_mem hp a = Some n \<longrightarrow> hn_id n < hp_last hp \<and> hp_nodes hp ! hn_id n = Some a) \<and>
     (\<forall>a \<ge> hp_brk hp. hp_mem hp a = None)"

type_synonym ('d, 'k) heap_entry = "addr \<times> 'k \<times> 'd"

definition entry_key :: "('d, 'k) heap_entry \<Rightarrow> 'k" where
  "entry_key e = fst (snd e)"

definition heap_view :: "('d, 'k) heap \<Rightarrow> ('d, 'k) heap_entry list" where
  "heap_view hp =
     map (\<lambda>i. let a = the (hp_nodes hp ! i); n = the (hp_mem hp a) in (a, hn_key n, hn_data n))
       [0 ..< hp_last hp]"

text \<open>The fields that the sift loops never touch.\<close>

definition heap_frame :: "('d, 'k) heap \<Rightarrow> ('d, 'k) heap \<Rightarrow> bool" where
  "heap_frame hp hp' \<longleftrightarrow>
     hp_size hp' = hp_size hp \<and> hp_last hp' = hp_last hp \<and> hp_gen_key hp' = hp_gen_key hp \<and>
     hp_age hp' = hp_age hp \<and> hp_brk hp' = hp_brk hp"

lemma heap_frame_refl [simp]: "heap_frame hp hp"
  by (simp add: heap_frame_def)

lemma heap_frame_trans [trans]: "heap_frame a b \<Longrightarrow> heap_frame b c \<Longrightarrow> heap_frame a c"
  by (simp add: heap_frame_def)

lemma length_heap_view [simp]: "length (heap_view hp) = hp_last hp"
  by (simp add: heap_view_def)

lemma heap_view_Nil_iff [simp]: "heap_view hp = [] \<longleftrightarrow> hp_last hp = 0"
  by (metis length_0_conv length_heap_view)

lemma heap_wf_node:
  assumes "heap_wf hp" "i < hp_last hp"
  obtains a n where "hp_nodes hp ! i = Some a" "hp_mem hp a = Some n" "hn_id n = i"
    "heap_view hp ! i = (a, hn_key n, hn_data n)" "node_ptr hp i = Some a" "node_at hp i = Some n"
proof -
  from assms obtain a n where *: "hp_nodes hp ! i = Some a" "hp_mem hp a = Some n" "hn_id n = i"
    unfolding heap_wf_def by blast
  moreover have "i < length (hp_nodes hp)" using assms by (simp add: heap_wf_def)
  ultimately show ?thesis
    using that assms by (simp add: heap_view_def node_ptr_def node_at_def)
qed

lemma heap_wf_mem:
  assumes "heap_wf hp" "hp_mem hp a = Some n"
  shows "hn_id n < hp_last hp" "hp_nodes hp ! hn_id n = Some a"
    "heap_view hp ! hn_id n = (a, hn_key n, hn_data n)" "hn_id n < length (hp_nodes hp)"
    "a < hp_brk hp" "hn_id n < 2 ^ 31" "hn_id n < 2147483647"
proof -
  show 1: "hn_id n < hp_last hp" "hp_nodes hp ! hn_id n = Some a"
    using assms by (auto simp: heap_wf_def)
  then show "heap_view hp ! hn_id n = (a, hn_key n, hn_data n)"
    using assms by (simp add: heap_view_def)
  have "hp_last hp \<le> length (hp_nodes hp)" using assms by (simp add: heap_wf_def)
  with 1 show "hn_id n < length (hp_nodes hp)" by simp
  then show "hn_id n < 2 ^ 31" "hn_id n < 2147483647" using assms by (simp_all add: heap_wf_def)
  have "\<not> hp_brk hp \<le> a" using assms by (auto simp: heap_wf_def)
  then show "a < hp_brk hp" by simp
qed

lemma heap_wf_view_mem:
  assumes "heap_wf hp" "i < hp_last hp" "heap_view hp ! i = (a, k, d)"
  shows "hp_mem hp a = Some \<lparr>hn_key = k, hn_id = i, hn_data = d\<rparr>"
  using assms by (auto elim!: heap_wf_node)

lemma heap_wf_ids_inj:
  assumes "heap_wf hp" "hp_mem hp a = Some n" "hp_mem hp b = Some m"
  shows "hn_id n = hn_id m \<longleftrightarrow> a = b"
  using heap_wf_mem [OF assms(1,2)] heap_wf_mem [OF assms(1,3)] assms by (metis option.inject)

lemma heap_node_exist_wf [simp]:
  assumes "heap_wf hp"
  shows "heap_node_exist hp (int i) = Some (i < hp_last hp)"
proof (cases "i < hp_last hp")
  case True
  then obtain a n where "hp_nodes hp ! i = Some a" using assms by (auto elim: heap_wf_node)
  with True assms show ?thesis by (simp add: heap_node_exist_def heap_wf_def)
qed (simp add: heap_node_exist_def)

lemma heap_node_exist_wf_0 [simp]:
  "heap_wf hp \<Longrightarrow> heap_node_exist hp 0 = Some (0 < hp_last hp)"
  using heap_node_exist_wf [of hp 0] by simp

lemma heap_node_exist_wf_last [simp]:
  assumes "heap_wf hp"
  shows "heap_node_exist hp (c_int (int (hp_last hp) - 1)) = Some (0 < hp_last hp)"
proof -
  have "int_range (int (hp_last hp) - 1)"
    using assms by (simp add: heap_wf_def int_range_def)
  then show ?thesis
    using heap_node_exist_wf [OF assms, of "hp_last hp - 1"]
    by (cases "hp_last hp") (simp_all add: heap_node_exist_def)
qed

text \<open>The index of a child that does not exist may not fit an \<open>int\<close>; as a negative number it does not exist either.\<close>

lemma heap_node_exist_child:
  assumes "heap_wf hp" "c < 2 ^ 32"
  shows "heap_node_exist hp (c_int (int c)) = Some (c < hp_last hp)" "c < hp_last hp \<Longrightarrow> c_int (int c) = int c"
proof -
  have last: "hp_last hp < 2 ^ 31"
    using assms(1) by (simp add: heap_wf_def)
  then show "c < hp_last hp \<Longrightarrow> c_int (int c) = int c"
    by simp
  show "heap_node_exist hp (c_int (int c)) = Some (c < hp_last hp)"
  proof (cases "c < 2 ^ 31")
    case True
    then show ?thesis
      using assms(1) by simp
  next
    case False
    then have "c_int (int c) < 0"
      using assms(2) by (intro c_int_neg) simp_all
    then show ?thesis
      using False last by (simp add: heap_node_exist_def)
  qed
qed

lemma Parent_eq [simp]: "x < 2 ^ 31 \<Longrightarrow> Parent x = Some (heap_parent x)"
proof (cases x)
  case (Suc y)
  assume "x < 2 ^ 31"
  with Suc show ?thesis
    by (simp add: Parent_def Let_def c_div_def heap_parent_def sgn_if nat_div_distrib)
qed (simp add: Parent_def Let_def c_div_def c_int_def)

lemma heap_wf_new [simp]: "n < 2 ^ 31 \<Longrightarrow> heap_wf (new_heap n g)"
  by (simp add: heap_wf_def new_heap_def Let_def nat_less_iff)

lemma heap_view_new [simp]: "heap_view (new_heap n g) = []"
  by (simp add: heap_view_def new_heap_def Let_def)

section \<open>Swapping\<close>

lemma heap_swap_element_correct:
  assumes wf: "heap_wf hp" and a: "hp_mem hp a = Some n" and b: "hp_mem hp b = Some m"
  obtains hp' where "heap_swap_element hp a b = Some hp'" "heap_wf hp'" "heap_frame hp hp'"
    "heap_view hp' = swap_at (heap_view hp) (hn_id n) (hn_id m)"
    "hp_mem hp' b = Some (m\<lparr>hn_id := hn_id n\<rparr>)"
proof -
  let ?m2 = "(hp_mem hp)(a \<mapsto> n\<lparr>hn_id := hn_id m\<rparr>, b \<mapsto> m\<lparr>hn_id := hn_id n\<rparr>)"
  let ?ns = "(hp_nodes hp)[hn_id m := Some a, hn_id n := Some b]"
  let ?hp' = "hp\<lparr>hp_nodes := ?ns, hp_mem := ?m2\<rparr>"
  note wn = heap_wf_mem [OF wf a] and wm = heap_wf_mem [OF wf b]
  have inj: "hn_id n = hn_id m \<longleftrightarrow> a = b" by (rule heap_wf_ids_inj [OF wf a b])
  have swap: "heap_swap_element hp a b = Some ?hp'"
    using a b wn wm inj by (cases "a = b") (auto simp: heap_swap_element_def Let_def)
  have other: "hn_id x \<noteq> hn_id n \<and> hn_id x \<noteq> hn_id m" if "hp_mem hp c = Some x" "c \<noteq> a" "c \<noteq> b" for c x
    using heap_wf_ids_inj [OF wf that(1) a] heap_wf_ids_inj [OF wf that(1) b] that by simp
  have wf': "heap_wf ?hp'"
    unfolding heap_wf_def
  proof (intro conjI allI impI)
    show "length (hp_nodes ?hp') = hp_size ?hp'" "hp_last ?hp' \<le> hp_size ?hp'" "0 < hp_size ?hp'" "hp_size ?hp' < 2 ^ 31"
      using wf by (simp_all add: heap_wf_def)
    show "hp_mem ?hp' c = None" if "hp_brk ?hp' \<le> c" for c
      using that wf wn(5) wm(5) by (auto simp: heap_wf_def)
    fix c x assume c: "hp_mem ?hp' c = Some x"
    show "hn_id x < hp_last ?hp'" "hp_nodes ?hp' ! hn_id x = Some c"
      using c wn wm inj other [of c x] heap_wf_mem [OF wf, of c x]
      by (auto simp: nth_list_update split: if_splits)
  next
    fix i assume "i < hp_last ?hp'"
    then have i: "i < hp_last hp" by simp
    obtain c x where c: "hp_nodes hp ! i = Some c" "hp_mem hp c = Some x" "hn_id x = i"
      by (rule heap_wf_node [OF wf i])
    show "\<exists>c x. hp_nodes ?hp' ! i = Some c \<and> hp_mem ?hp' c = Some x \<and> hn_id x = i"
      using wn wm inj other [OF c(2)] c a b by (auto simp: nth_list_update)
  qed
  have view: "heap_view ?hp' = swap_at (heap_view hp) (hn_id n) (hn_id m)"
  proof (rule nth_equalityI)
    fix i assume "i < length (heap_view ?hp')"
    then have i: "i < hp_last hp" "i < hp_last ?hp'" by simp_all
    obtain c x where c: "hp_nodes hp ! i = Some c" "hp_mem hp c = Some x" "hn_id x = i"
      "heap_view hp ! i = (c, hn_key x, hn_data x)"
      by (rule heap_wf_node [OF wf i(1)])
    show "heap_view ?hp' ! i = swap_at (heap_view hp) (hn_id n) (hn_id m) ! i"
      using i c wn wm inj other [OF c(2)] a b
      by (auto simp: nth_swap_at heap_view_def nth_list_update)
  qed simp
  show ?thesis
    by (rule that [OF swap wf' _ view]) (simp_all add: heap_frame_def)
qed

section \<open>The sift loops refine their list versions\<close>

lemma heap_ify_up_correct:
  assumes "heap_wf hp" "hp_mem hp a = Some n"
  shows "\<exists>hp'. heap_ify_up hp a = Some hp' \<and> heap_wf hp' \<and> heap_frame hp hp' \<and>
           heap_view hp' = sift_up entry_key (heap_view hp) (hn_id n)"
  using assms
proof (induction "hn_id n" arbitrary: hp n rule: less_induct)
  case less
  note wn = heap_wf_mem [OF less.prems]
  show ?case
  proof (cases "0 < hn_id n")
    case False
    then show ?thesis
      using less.prems by (subst heap_ify_up.simps, subst sift_up.simps) auto
  next
    case True
    have lt: "heap_parent (hn_id n) < hp_last hp"
      using wn(1) heap_parent_less [OF True] by linarith
    obtain p pn where p: "hp_mem hp p = Some pn" "hn_id pn = heap_parent (hn_id n)"
      "heap_view hp ! heap_parent (hn_id n) = (p, hn_key pn, hn_data pn)"
      "node_ptr hp (heap_parent (hn_id n)) = Some p"
      by (rule heap_wf_node [OF less.prems(1) lt])
    show ?thesis
    proof (cases "hn_key pn \<le> hn_key n")
      case le: True
      then show ?thesis
        using less.prems p wn True
        by (subst heap_ify_up.simps, subst sift_up.simps) (auto simp: entry_key_def)
    next
      case gt: False
      obtain hp1 where 1: "heap_swap_element hp p a = Some hp1" "heap_wf hp1" "heap_frame hp hp1"
        "heap_view hp1 = swap_at (heap_view hp) (heap_parent (hn_id n)) (hn_id n)"
        "hp_mem hp1 a = Some (n\<lparr>hn_id := heap_parent (hn_id n)\<rparr>)"
        using heap_swap_element_correct [OF less.prems(1) p(1) less.prems(2)] p(2) by metis
      obtain hp2 where 2: "heap_ify_up hp1 a = Some hp2" "heap_wf hp2" "heap_frame hp1 hp2"
        "heap_view hp2 = sift_up entry_key (heap_view hp1) (heap_parent (hn_id n))"
        using less.hyps [OF _ 1(2,5)] True by auto
      have "heap_ify_up hp a = Some hp2"
        using less.prems p True gt 1(1) 2(1) wn(6) by (subst heap_ify_up.simps) simp
      moreover have "heap_view hp2 = sift_up entry_key (heap_view hp) (hn_id n)"
        using 2(4) 1(4) True gt p wn by (subst sift_up.simps) (simp add: entry_key_def)
      ultimately show ?thesis
        using 2 1(3) heap_frame_trans by blast
    qed
  qed
qed

lemma heap_pick_kid_wf:
  assumes wf: "heap_wf hp" and a: "hp_mem hp a = Some n"
  shows "\<not> heap_left (hn_id n) < hp_last hp \<Longrightarrow> heap_pick_kid hp (hn_id n) = Some None"
    and "heap_left (hn_id n) < hp_last hp \<Longrightarrow>
      \<exists>c m. heap_pick_kid hp (hn_id n) = Some (Some c) \<and> hp_mem hp c = Some m \<and>
        hn_id m = smaller_kid entry_key (heap_view hp) (hn_id n)"
proof -
  let ?l = "heap_left (hn_id n)" and ?r = "heap_right (hn_id n)"
  have "?l < 2 ^ 32" "?r < 2 ^ 32"
    using heap_wf_mem(7) [OF wf a] by (simp_all add: heap_left_def heap_right_def)
  note ex = this [THEN heap_node_exist_child(1) [OF wf]] this [THEN heap_node_exist_child(2) [OF wf]]
  show "heap_pick_kid hp (hn_id n) = Some None" if "\<not> ?l < hp_last hp"
    using that wf heap_left_less_right [of "hn_id n"] by (simp add: heap_pick_kid_def Let_def ex)
  assume l: "?l < hp_last hp"
  obtain c m where c: "hp_mem hp c = Some m" "hn_id m = ?l" "node_ptr hp ?l = Some c"
      "node_at hp ?l = Some m" "heap_view hp ! ?l = (c, hn_key m, hn_data m)"
    by (rule heap_wf_node [OF wf l])
  show "\<exists>c m. heap_pick_kid hp (hn_id n) = Some (Some c) \<and> hp_mem hp c = Some m \<and>
        hn_id m = smaller_kid entry_key (heap_view hp) (hn_id n)"
  proof (cases "?r < hp_last hp")
    case False
    then show ?thesis using wf l c by (auto simp: heap_pick_kid_def Let_def ex smaller_kid_def)
  next
    case r: True
    obtain d q where d: "hp_mem hp d = Some q" "hn_id q = ?r" "node_ptr hp ?r = Some d"
        "node_at hp ?r = Some q" "heap_view hp ! ?r = (d, hn_key q, hn_data q)"
      by (rule heap_wf_node [OF wf r])
    show ?thesis
      using wf l r c d by (auto simp: heap_pick_kid_def Let_def ex smaller_kid_def entry_key_def)
  qed
qed

lemma heap_ify_down_correct:
  assumes "heap_wf hp" "hp_mem hp a = Some n"
  shows "\<exists>hp'. heap_ify_down hp a = Some hp' \<and> heap_wf hp' \<and> heap_frame hp hp' \<and>
           heap_view hp' = sift_down entry_key (heap_view hp) (hn_id n)"
  using assms
proof (induction "hp_last hp - hn_id n" arbitrary: hp n rule: less_induct)
  case less
  note wn = heap_wf_mem [OF less.prems] and kid = heap_pick_kid_wf [OF less.prems]
  show ?case
  proof (cases "heap_left (hn_id n) < hp_last hp")
    case False
    then show ?thesis
      using less.prems kid(1) by (subst heap_ify_down.simps, subst sift_down.simps) auto
  next
    case True
    let ?s = "smaller_kid entry_key (heap_view hp) (hn_id n)"
    obtain c m where c: "heap_pick_kid hp (hn_id n) = Some (Some c)" "hp_mem hp c = Some m"
        "hn_id m = ?s"
      using kid(2) [OF True] by auto
    have view: "heap_view hp ! ?s = (c, hn_key m, hn_data m)"
      using heap_wf_mem [OF less.prems(1) c(2)] c(3) by simp
    have s: "hn_id n < ?s" using smaller_kid_bounds [of "hn_id n" "heap_view hp" entry_key] True by simp
    show ?thesis
    proof (cases "hn_key n \<le> hn_key m")
      case le: True
      then show ?thesis
        using less.prems c view wn
        by (subst heap_ify_down.simps, subst sift_down.simps) (auto simp: entry_key_def)
    next
      case gt: False
      obtain hp1 where 1: "heap_swap_element hp c a = Some hp1" "heap_wf hp1" "heap_frame hp hp1"
        "heap_view hp1 = swap_at (heap_view hp) ?s (hn_id n)"
        "hp_mem hp1 a = Some (n\<lparr>hn_id := ?s\<rparr>)"
        using heap_swap_element_correct [OF less.prems(1) c(2) less.prems(2)] c(3) by metis
      have "hp_last hp1 - ?s < hp_last hp - hn_id n"
        using s wn(1) 1(3) by (simp add: heap_frame_def)
      then obtain hp2 where 2: "heap_ify_down hp1 a = Some hp2" "heap_wf hp2" "heap_frame hp1 hp2"
        "heap_view hp2 = sift_down entry_key (heap_view hp1) ?s"
        using less.hyps [OF _ 1(2,5)] by auto
      have "heap_ify_down hp a = Some hp2"
        using less.prems c gt 1(1) 2(1) by (subst heap_ify_down.simps) simp
      moreover have "heap_view hp2 = sift_down entry_key (heap_view hp) (hn_id n)"
        using 2(4) 1(4) True gt view wn by (subst sift_down.simps) (simp add: entry_key_def)
      ultimately show ?thesis
        using 2 1(3) heap_frame_trans by blast
    qed
  qed
qed

section \<open>The public operations refine list operations\<close>

definition heap_inv :: "('d, 'k::linorder) heap \<Rightarrow> bool" where
  "heap_inv hp \<longleftrightarrow> heap_wf hp \<and> heap_ordered entry_key (heap_view hp)"

text \<open>Fields that change only when the caller sets them.\<close>

definition heap_config :: "('d, 'k) heap \<Rightarrow> ('d \<Rightarrow> 'k \<Rightarrow> 'k) \<times> 'k" where
  "heap_config hp = (hp_gen_key hp, hp_age hp)"

lemma heap_frame_config: "heap_frame hp hp' \<Longrightarrow> heap_config hp' = heap_config hp"
  by (simp add: heap_frame_def heap_config_def)

text \<open>There is a free cell, or the array can grow.\<close>

definition heap_room :: "('d, 'k) heap \<Rightarrow> bool" where
  "heap_room hp \<longleftrightarrow> hp_last hp < hp_size hp \<or> hp_last hp \<le> 1431655765"

lemma heap_grow_wf:
  assumes "heap_wf hp" "heap_grow hp = Some hp'"
  shows "heap_wf hp'" "heap_view hp' = heap_view hp" "hp_last hp' = hp_last hp" "hp_size hp < hp_size hp'"
    "hp_mem hp' = hp_mem hp" "hp_brk hp' = hp_brk hp" "heap_config hp' = heap_config hp"
proof -
  let ?new = "if hp_size hp > 10000 then hp_size hp * 3 div 2 else hp_size hp * 2"
  have hp': "hp' = hp\<lparr>hp_nodes := hp_nodes hp @ replicate (?new - length (hp_nodes hp)) None, hp_size := ?new\<rparr>" "?new < 2 ^ 31"
    using assms(2) by (auto simp: heap_grow_def Let_def bind_eq_Some_conv)
  show size: "hp_size hp < hp_size hp'"
    using assms(1) by (auto simp: hp'(1) heap_wf_def)
  have nth: "hp_nodes hp' ! i = hp_nodes hp ! i" if "i < hp_last hp" for i
    using that assms(1) by (auto simp: hp'(1) heap_wf_def nth_append)
  show same: "hp_last hp' = hp_last hp" "hp_mem hp' = hp_mem hp" "hp_brk hp' = hp_brk hp" "heap_config hp' = heap_config hp"
    by (simp_all add: hp'(1) heap_config_def)
  have "length (hp_nodes hp') = hp_size hp'" "hp_size hp' < 2 ^ 31"
    using assms(1) size hp'(2) by (auto simp: hp'(1) heap_wf_def)
  then show "heap_wf hp'"
    using assms(1) size same nth unfolding heap_wf_def by auto
  show "heap_view hp' = heap_view hp"
    using same nth by (simp add: heap_view_def)
qed

lemma heap_grow_iff:
  assumes "heap_wf hp" "heap_should_grow hp"
  shows "heap_grow hp \<noteq> None \<longleftrightarrow> heap_room hp"
proof -
  have "hp_last hp = hp_size hp"
    using assms by (simp add: heap_wf_def heap_should_grow_def)
  moreover have "n * 3 div 2 < 2147483648 \<longleftrightarrow> n \<le> 1431655765" for n :: nat
    by (simp add: div_less_iff_less_mult) linarith
  ultimately show ?thesis
    by (auto simp: heap_grow_def heap_room_def Let_def c_assert_def)
qed

lemma heap_insert_full:
  assumes "heap_wf hp" "\<not> heap_room hp"
  shows "heap_insert hp dat = None"
proof -
  have "heap_should_grow hp"
    using assms(2) by (simp add: heap_room_def heap_should_grow_def)
  then have "heap_grow hp = None"
    using heap_grow_iff [OF assms(1)] assms(2) by blast
  then show ?thesis
    using \<open>heap_should_grow hp\<close> by (simp add: heap_insert_def Let_def)
qed

lemma heap_insert_refines:
  assumes wf: "heap_wf hp" and "heap_room hp"
  shows "\<exists>hp'. heap_insert hp dat = Some (hp_brk hp, hp') \<and> heap_wf hp' \<and>
    heap_config hp' = heap_config hp \<and> hp_brk hp' = hp_brk hp + 1 \<and>
    heap_view hp' = sift_up entry_key
      (heap_view hp @ [(hp_brk hp, heap_gen_key hp dat, dat)]) (hp_last hp)"
proof -
  obtain hp1 where hp1: "(if heap_should_grow hp then heap_grow hp else Some hp) = Some hp1"
    using heap_grow_iff [OF wf] assms(2) by (cases "heap_should_grow hp") auto
  have 1: "heap_wf hp1" "heap_view hp1 = heap_view hp" "hp_last hp1 = hp_last hp"
    "hp_mem hp1 = hp_mem hp" "hp_brk hp1 = hp_brk hp" "heap_config hp1 = heap_config hp"
    using wf heap_grow_wf [OF wf] hp1 by (auto split: if_splits)
  have room: "hp_last hp < length (hp_nodes hp1)"
    using wf heap_grow_wf(1,4) [OF wf] hp1 by (force simp: heap_should_grow_def heap_wf_def split: if_splits)
  let ?e = "\<lparr>hn_key = heap_gen_key hp dat, hn_id = hp_last hp, hn_data = dat\<rparr>"
  let ?hp2 = "hp1\<lparr>hp_brk := hp_brk hp + 1, hp_nodes := (hp_nodes hp1)[hp_last hp := Some (hp_brk hp)],
        hp_mem := (hp_mem hp1)(hp_brk hp \<mapsto> ?e), hp_last := hp_last hp + 1\<rparr>"
  have fresh: "hp_mem hp1 (hp_brk hp) = None" using 1 wf by (simp add: heap_wf_def)
  have old: "hp_nodes ?hp2 ! i = hp_nodes hp1 ! i" if "i < hp_last hp" for i
    using that by simp
  have wf2: "heap_wf ?hp2"
    unfolding heap_wf_def
  proof (intro conjI allI impI)
    show "length (hp_nodes ?hp2) = hp_size ?hp2" "0 < hp_size ?hp2" "hp_last ?hp2 \<le> hp_size ?hp2" "hp_size ?hp2 < 2 ^ 31"
      using 1 room by (auto simp: heap_wf_def)
    fix a n assume "hp_mem ?hp2 a = Some n"
    then show "hn_id n < hp_last ?hp2" "hp_nodes ?hp2 ! hn_id n = Some a"
      using 1 room heap_wf_mem [OF 1(1), of a n] by (auto simp: nth_list_update split: if_splits)
  next
    show "hp_mem ?hp2 a = None" if "hp_brk ?hp2 \<le> a" for a
      using that 1 by (auto simp: heap_wf_def)
    fix i assume "i < hp_last ?hp2"
    then consider "i < hp_last hp" | "i = hp_last hp" by fastforce
    then show "\<exists>a n. hp_nodes ?hp2 ! i = Some a \<and> hp_mem ?hp2 a = Some n \<and> hn_id n = i"
    proof cases
      case i: 1
      then have "i < hp_last hp1" using 1 by simp
      then obtain a n where a: "hp_nodes hp1 ! i = Some a" "hp_mem hp1 a = Some n" "hn_id n = i"
        by (rule heap_wf_node [OF 1(1)])
      then have "a \<noteq> hp_brk hp" using fresh by auto
      then show ?thesis using a i by auto
    next
      case 2
      then show ?thesis using room by simp
    qed
  qed
  have view2: "heap_view ?hp2 = heap_view hp @ [(hp_brk hp, heap_gen_key hp dat, dat)]"
  proof (rule nth_equalityI)
    fix i assume "i < length (heap_view ?hp2)"
    then consider "i < hp_last hp1" | "i = hp_last hp" using 1 by fastforce
    then show "heap_view ?hp2 ! i = (heap_view hp @ [(hp_brk hp, heap_gen_key hp dat, dat)]) ! i"
    proof cases
      case i: 1
      then obtain a n where a: "hp_nodes hp1 ! i = Some a" "hp_mem hp1 a = Some n"
          "heap_view hp1 ! i = (a, hn_key n, hn_data n)"
        by (rule heap_wf_node [OF 1(1)])
      then have "a \<noteq> hp_brk hp" using fresh by auto
      then have "heap_view ?hp2 ! i = (a, hn_key n, hn_data n)"
        using a i 1 by (simp add: heap_view_def nth_append del: upt_Suc)
      then show ?thesis using a i 1 by (simp add: nth_append)
    next
      case 2
      then show ?thesis using room by (simp add: heap_view_def nth_append)
    qed
  qed (simp add: 1)
  have mem2: "hp_mem ?hp2 (hp_brk hp) = Some ?e" by simp
  obtain hp3 where 3: "heap_ify_up ?hp2 (hp_brk hp) = Some hp3" "heap_wf hp3" "heap_frame ?hp2 hp3"
    "heap_view hp3 = sift_up entry_key (heap_view ?hp2) (hp_last hp)"
    using heap_ify_up_correct [OF wf2 mem2] by auto
  have "heap_insert hp dat = Some (hp_brk hp, hp3)"
    using room 1 3(1) hp1 unfolding heap_insert_def by (simp add: Let_def)
  moreover have "heap_config hp3 = heap_config hp"
    using heap_frame_config [OF 3(3)] 1(6) by (simp add: heap_config_def)
  moreover have "hp_brk hp3 = hp_brk hp + 1" using 3(3) by (simp add: heap_frame_def)
  ultimately show ?thesis using 3 view2 by auto
qed

lemma heap_extractlast_refines:
  assumes wf: "heap_wf hp" and ne: "0 < hp_last hp"
  shows "\<exists>hp'. heap_extractlast hp = Some (snd (snd (last (heap_view hp))), hp') \<and> heap_wf hp' \<and>
    heap_config hp' = heap_config hp \<and> hp_brk hp' = hp_brk hp \<and>
    heap_view hp' = butlast (heap_view hp)"
proof -
  let ?l = "hp_last hp - 1"
  have l: "?l < hp_last hp" using ne by simp
  obtain a n where a: "hp_nodes hp ! ?l = Some a" "hp_mem hp a = Some n" "hn_id n = ?l"
      "heap_view hp ! ?l = (a, hn_key n, hn_data n)" "node_ptr hp ?l = Some a"
    by (rule heap_wf_node [OF wf l])
  let ?hp' = "hp\<lparr>hp_last := ?l, hp_mem := (hp_mem hp)(a := None)\<rparr>"
  have last: "last (heap_view hp) = (a, hn_key n, hn_data n)"
    using a(4) ne by (simp add: last_conv_nth)
  have other: "hn_id m \<noteq> ?l" if "hp_mem hp b = Some m" "b \<noteq> a" for b m
    using heap_wf_ids_inj [OF wf that(1) a(2)] that a(3) by simp
  have low: "b \<noteq> a" if "hp_mem hp b = Some m" "hn_id m < ?l" for b m
    using that a by auto
  have "heap_wf ?hp'"
    unfolding heap_wf_def
  proof (intro conjI allI impI)
    show "length (hp_nodes ?hp') = hp_size ?hp'" "0 < hp_size ?hp'" "hp_last ?hp' \<le> hp_size ?hp'" "hp_size ?hp' < 2 ^ 31"
      using wf by (auto simp: heap_wf_def)
    show "hp_mem ?hp' b = None" if "hp_brk ?hp' \<le> b" for b using that wf by (simp add: heap_wf_def)
    fix b m assume "hp_mem ?hp' b = Some m"
    then show "hn_id m < hp_last ?hp'" "hp_nodes ?hp' ! hn_id m = Some b"
      using heap_wf_mem [OF wf, of b m] other [of b m] by (auto split: if_splits)
  next
    fix i assume "i < hp_last ?hp'"
    then have i: "i < hp_last hp" "i < ?l" by auto
    obtain b m where "hp_nodes hp ! i = Some b" "hp_mem hp b = Some m" "hn_id m = i"
      by (rule heap_wf_node [OF wf i(1)])
    then show "\<exists>b m. hp_nodes ?hp' ! i = Some b \<and> hp_mem ?hp' b = Some m \<and> hn_id m = i"
      using low [of b m] i by auto
  qed
  moreover have "heap_view ?hp' = butlast (heap_view hp)"
  proof (rule nth_equalityI)
    fix i assume "i < length (heap_view ?hp')"
    then have i: "i < hp_last hp" "i < ?l" by auto
    obtain b m where b: "hp_nodes hp ! i = Some b" "hp_mem hp b = Some m" "hn_id m = i"
        "heap_view hp ! i = (b, hn_key m, hn_data m)"
      by (rule heap_wf_node [OF wf i(1)])
    then show "heap_view ?hp' ! i = butlast (heap_view hp) ! i"
      using low [of b m] i by (auto simp: nth_butlast) (simp add: heap_view_def)
  qed simp
  ultimately show ?thesis
    using wf ne a last by (auto simp: heap_extractlast_def heap_config_def Let_def)
qed

text \<open>The step that \<open>heap_delete\<close> and \<open>heap_update\<close> end with.\<close>

lemma heap_restore_refines:
  assumes wf: "heap_wf hp" and a: "hp_mem hp a = Some n"
    and view: "heap_view hp = xs[hn_id n := e]" and xs: "heap_ordered entry_key xs"
  shows "\<exists>pn hp'. node_at hp (heap_parent (hn_id n)) = Some pn \<and>
    do { hp3 \<leftarrow> (if hn_key n < hn_key pn then heap_ify_up hp a else Some hp);
         heap_ify_down hp3 a } = Some hp' \<and>
    heap_wf hp' \<and> heap_frame hp hp' \<and>
    heap_view hp' = heap_restore entry_key (heap_view hp) (hn_id n)"
proof -
  let ?i = "hn_id n"
  note wn = heap_wf_mem [OF wf a]
  have lt: "heap_parent ?i < hp_last hp" using wn(1) by (rule le_less_trans [OF heap_parent_le])
  obtain p pn where p: "hp_mem hp p = Some pn" "node_at hp (heap_parent ?i) = Some pn"
      "heap_view hp ! heap_parent ?i = (p, hn_key pn, hn_data pn)"
    by (rule heap_wf_node [OF wf lt])
  have keys: "entry_key (heap_view hp ! ?i) = hn_key n"
    "entry_key (heap_view hp ! heap_parent ?i) = hn_key pn"
    using wn p by (simp_all add: entry_key_def)
  show ?thesis
  proof (cases "hn_key n < hn_key pn")
    case True
    obtain hp2 where 2: "heap_ify_up hp a = Some hp2" "heap_wf hp2" "heap_frame hp hp2"
      "heap_view hp2 = sift_up entry_key (heap_view hp) ?i"
      using heap_ify_up_correct [OF wf a] by blast
    have res: "heap_view hp2 = heap_restore entry_key (heap_view hp) ?i"
      using 2(4) keys True by (simp add: heap_restore_def)
    have len: "?i < length xs" using wn(1) view by (metis length_heap_view length_list_update)
    have ord: "heap_ordered entry_key (heap_view hp2)"
      using heap_restore_ordered [OF xs len] unfolding res view .
    have "mset (heap_view hp2) = mset (heap_view hp)"
      unfolding 2(4) using wn(1) by (simp add: mset_sift_up)
    then have "heap_view hp ! ?i \<in> set (heap_view hp2)"
      using wn(1) by (metis length_heap_view mset_eq_setD nth_mem)
    then obtain j where j: "j < hp_last hp2" "heap_view hp2 ! j = heap_view hp ! ?i"
      by (auto simp: in_set_conv_nth)
    then have mem: "hp_mem hp2 a = Some \<lparr>hn_key = hn_key n, hn_id = j, hn_data = hn_data n\<rparr>"
      using heap_wf_view_mem [OF 2(2)] wn(3) by simp
    obtain hp3 where 3: "heap_ify_down hp2 a = Some hp3" "heap_wf hp3" "heap_frame hp2 hp3"
      "heap_view hp3 = heap_view hp2"
      using heap_ify_down_correct [OF 2(2) mem] sift_down_id [OF ord] by auto
    show ?thesis
      using True p 2 3 res heap_frame_trans [OF 2(3) 3(3)] by auto
  next
    case False
    then show ?thesis
      using p keys heap_ify_down_correct [OF wf a] by (auto simp: heap_restore_def)
  qed
qed

lemma heap_delete_refines:
  assumes inv: "heap_inv hp" and a: "hp_mem hp a = Some n"
  shows "\<exists>hp'. heap_delete hp a = Some (hn_data n, hp') \<and> heap_wf hp' \<and>
    heap_config hp' = heap_config hp \<and> hp_brk hp' = hp_brk hp \<and>
    heap_view hp' =
      (if hn_id n = hp_last hp - 1 then butlast (heap_view hp)
       else heap_restore entry_key ((butlast (heap_view hp))[hn_id n := last (heap_view hp)])
              (hn_id n))"
proof -
  from inv have wf: "heap_wf hp" and ord: "heap_ordered entry_key (heap_view hp)"
    by (simp_all add: heap_inv_def)
  let ?l = "hp_last hp - 1" and ?i = "hn_id n" and ?v = "heap_view hp"
  note wn = heap_wf_mem [OF wf a]
  have l: "?l < hp_last hp" and ne: "0 < hp_last hp" using wn(1) by auto
  obtain b m where b: "hp_mem hp b = Some m" "hn_id m = ?l" "node_ptr hp ?l = Some b"
      "?v ! ?l = (b, hn_key m, hn_data m)"
    by (rule heap_wf_node [OF wf l])
  have vlast: "last ?v = ?v ! ?l" using ne by (simp add: last_conv_nth)
  obtain hp1 where 1: "heap_swap_element hp b a = Some hp1" "heap_wf hp1" "heap_frame hp hp1"
    "heap_view hp1 = swap_at ?v ?l ?i"
    using heap_swap_element_correct [OF wf b(1) a] b(2) by metis
  have ne1: "0 < hp_last hp1" using 1(3) ne by (simp add: heap_frame_def)
  obtain hp2 d where 2: "heap_extractlast hp1 = Some (d, hp2)" "heap_wf hp2"
    "heap_config hp2 = heap_config hp1" "hp_brk hp2 = hp_brk hp1"
    "heap_view hp2 = butlast (heap_view hp1)"
    using heap_extractlast_refines [OF 1(2) ne1] by blast
  have cfg: "heap_config hp2 = heap_config hp" "hp_brk hp2 = hp_brk hp"
    using 2(3,4) 1(3) by (simp_all add: heap_frame_def heap_config_def)
  have ab: "a = b \<longleftrightarrow> ?i = ?l" using heap_wf_ids_inj [OF wf a b(1)] b(2) by simp
  have len2: "hp_last hp2 = ?l"
    using arg_cong [OF 2(5), of length] 1(3) by (simp add: heap_frame_def)
  have step: "heap_delete hp a =
    (if a = b then Some (hn_data n, hp2)
     else if hp_last hp2 > 0 then do {
       ln \<leftarrow> hp_mem hp2 b;
       i \<leftarrow> Parent (hn_id ln);
       pn \<leftarrow> node_at hp2 i;
       hp3 \<leftarrow> (if hn_key ln < hn_key pn then heap_ify_up hp2 b else Some hp2);
       hp4 \<leftarrow> heap_ify_down hp3 b;
       Some (hn_data n, hp4) }
     else Some (hn_data n, hp2))"
    using a wf ne b 1(1) 2(1) unfolding heap_delete_def by (simp add: Let_def)
  show ?thesis
  proof (cases "?i = ?l")
    case True
    then show ?thesis
      using step ab 2(2,5) 1(4) cfg l by (simp add: swap_at_self)
  next
    case False
    have i: "?i < ?l" using wn(1) False by linarith
    have view2: "heap_view hp2 = (butlast ?v)[?i := last ?v]"
      unfolding 2(5) 1(4) using wn(1) l i vlast False
      by (intro nth_equalityI) (auto simp: nth_butlast nth_swap_at nth_list_update)
    have mem: "hp_mem hp2 b = Some \<lparr>hn_key = hn_key m, hn_id = ?i, hn_data = hn_data m\<rparr>"
      by (rule heap_wf_view_mem [OF 2(2)]) (use i len2 view2 vlast b(4) in auto)
    obtain pn hp4 where 4: "node_at hp2 (heap_parent ?i) = Some pn"
      "do { hp3 \<leftarrow> (if hn_key m < hn_key pn then heap_ify_up hp2 b else Some hp2);
            heap_ify_down hp3 b } = Some hp4"
      "heap_wf hp4" "heap_frame hp2 hp4" "heap_view hp4 = heap_restore entry_key (heap_view hp2) ?i"
      using heap_restore_refines [OF 2(2) mem, of "butlast ?v" "last ?v"]
        heap_ordered_butlast [OF ord] view2 by auto
    obtain hp3 where 3: "(if hn_key m < hn_key pn then heap_ify_up hp2 b else Some hp2) = Some hp3"
        "heap_ify_down hp3 b = Some hp4"
      using 4(2) by (auto simp: bind_eq_Some_conv split del: if_split)
    have "0 < hp_last hp2" using i len2 by linarith
    then have "heap_delete hp a = Some (hn_data n, hp4)"
      using step False ab mem 4(1) 3 wn(6) by (simp split del: if_split)
    then show ?thesis
      using 4 cfg view2 False heap_frame_config [OF 4(4)] by (auto simp: heap_frame_def)
  qed
qed

lemma heap_update_refines:
  assumes inv: "heap_inv hp" and a: "hp_mem hp a = Some n"
  shows "\<exists>hp'. heap_update hp a dat = Some (hn_data n, hp') \<and> heap_wf hp' \<and>
    heap_config hp' = heap_config hp \<and> hp_brk hp' = hp_brk hp \<and>
    heap_view hp' = heap_restore entry_key
      ((heap_view hp)[hn_id n := (a, heap_gen_key hp dat, dat)]) (hn_id n)"
proof -
  from inv have wf: "heap_wf hp" and ord: "heap_ordered entry_key (heap_view hp)"
    by (simp_all add: heap_inv_def)
  let ?n1 = "n\<lparr>hn_key := heap_gen_key hp dat, hn_data := dat\<rparr>"
  let ?hp1 = "hp\<lparr>hp_mem := (hp_mem hp)(a \<mapsto> ?n1)\<rparr>"
  note wn = heap_wf_mem [OF wf a]
  have wf1: "heap_wf ?hp1"
    using wf a unfolding heap_wf_def by (auto 0 3)
  have view1: "heap_view ?hp1 = (heap_view hp)[hn_id n := (a, heap_gen_key hp dat, dat)]"
  proof (rule nth_equalityI)
    fix i assume "i < length (heap_view ?hp1)"
    then have i: "i < hp_last hp" by simp
    obtain b m where b: "hp_nodes hp ! i = Some b" "hp_mem hp b = Some m" "hn_id m = i"
        "heap_view hp ! i = (b, hn_key m, hn_data m)"
      by (rule heap_wf_node [OF wf i])
    show "heap_view ?hp1 ! i = (heap_view hp)[hn_id n := (a, heap_gen_key hp dat, dat)] ! i"
    proof (cases "b = a")
      case True
      then have "i = hn_id n" using a b by simp
      then show ?thesis using True b wn by (simp add: heap_view_def)
    next
      case False
      then have "i \<noteq> hn_id n" using heap_wf_ids_inj [OF wf b(2) a] b(3) by simp
      then have "(heap_view hp)[hn_id n := (a, heap_gen_key hp dat, dat)] ! i = heap_view hp ! i"
        by simp
      also have "\<dots> = heap_view ?hp1 ! i"
        using False b i by (simp add: heap_view_def)
      finally show ?thesis ..
    qed
  qed simp
  have mem1: "hp_mem ?hp1 a = Some ?n1" by simp
  obtain pn hp' where r: "node_at ?hp1 (heap_parent (hn_id n)) = Some pn"
    "do { hp3 \<leftarrow> (if hn_key ?n1 < hn_key pn then heap_ify_up ?hp1 a else Some ?hp1);
          heap_ify_down hp3 a } = Some hp'"
    "heap_wf hp'" "heap_frame ?hp1 hp'"
    "heap_view hp' = heap_restore entry_key (heap_view ?hp1) (hn_id n)"
    using heap_restore_refines [OF wf1 mem1, of "heap_view hp" "(a, heap_gen_key hp dat, dat)"]
      ord view1 by auto
  obtain hp3 where 3: "(if heap_gen_key hp dat < hn_key pn then heap_ify_up ?hp1 a else Some ?hp1) = Some hp3"
      "heap_ify_down hp3 a = Some hp'"
    using r(2) by (auto simp: bind_eq_Some_conv split del: if_split)
  have "heap_update hp a dat = Some (hn_data n, hp')"
    using a r(1) 3 wn(6) by (simp add: heap_update_def Let_def split del: if_split)
  then show ?thesis
    using r view1 heap_frame_config [OF r(4)] by (auto simp: heap_frame_def heap_config_def)
qed

section \<open>Contents\<close>

definition heap_contents :: "('d, 'k) heap \<Rightarrow> ('d, 'k) heap_entry multiset" where
  "heap_contents hp = mset (heap_view hp)"

lemma in_heap_contents_iff:
  assumes "heap_wf hp"
  shows "(a, k, d) \<in># heap_contents hp \<longleftrightarrow>
    (\<exists>i. hp_mem hp a = Some \<lparr>hn_key = k, hn_id = i, hn_data = d\<rparr>)"
proof
  assume "(a, k, d) \<in># heap_contents hp"
  then obtain i where "i < hp_last hp" "heap_view hp ! i = (a, k, d)"
    by (auto simp: heap_contents_def in_set_conv_nth)
  then show "\<exists>i. hp_mem hp a = Some \<lparr>hn_key = k, hn_id = i, hn_data = d\<rparr>"
    using heap_wf_view_mem [OF assms] by blast
next
  assume "\<exists>i. hp_mem hp a = Some \<lparr>hn_key = k, hn_id = i, hn_data = d\<rparr>"
  then obtain i where "hp_mem hp a = Some \<lparr>hn_key = k, hn_id = i, hn_data = d\<rparr>" ..
  from heap_wf_mem [OF assms this] show "(a, k, d) \<in># heap_contents hp"
    by (auto simp: heap_contents_def in_set_conv_nth)
qed

lemma heap_contentsE:
  assumes "heap_wf hp" "(a, k, d) \<in># heap_contents hp"
  obtains n where "hp_mem hp a = Some n" "hn_key n = k" "hn_data n = d"
    "heap_view hp ! hn_id n = (a, k, d)" "hn_id n < hp_last hp"
  using assms in_heap_contents_iff [OF assms(1)] heap_wf_mem [OF assms(1)] that by force

lemma size_heap_contents [simp]: "size (heap_contents hp) = hp_last hp"
  by (simp add: heap_contents_def)

lemma heap_contents_empty_iff: "heap_contents hp = {#} \<longleftrightarrow> hp_last hp = 0"
  by (simp add: heap_contents_def)

lemma mset_list_update: "i < length xs \<Longrightarrow> mset (xs[i := e]) = add_mset e (mset xs - {#xs ! i#})"
  by (simp add: mset_update)

lemma heap_insert_inv:
  assumes "heap_inv hp" "heap_room hp"
  obtains hp' where "heap_insert hp dat = Some (hp_brk hp, hp')" "heap_inv hp'"
    "heap_config hp' = heap_config hp"
    "heap_contents hp' = add_mset (hp_brk hp, heap_gen_key hp dat, dat) (heap_contents hp)"
proof -
  from assms have wf: "heap_wf hp" and ord: "heap_ordered entry_key (heap_view hp)"
    by (simp_all add: heap_inv_def)
  let ?xs = "heap_view hp @ [(hp_brk hp, heap_gen_key hp dat, dat)]"
  obtain hp' where "heap_insert hp dat = Some (hp_brk hp, hp')" "heap_wf hp'"
    "heap_config hp' = heap_config hp" "heap_view hp' = sift_up entry_key ?xs (hp_last hp)"
    using heap_insert_refines [OF wf assms(2)] by blast
  moreover have "heap_ordered entry_key (sift_up entry_key ?xs (hp_last hp))"
    using sift_up_ordered [OF heap_ordered_snoc [OF ord]] by simp
  ultimately show ?thesis
    using that by (simp add: heap_inv_def heap_contents_def mset_sift_up)
qed

lemma heap_delete_inv:
  assumes inv: "heap_inv hp" and e: "(a, k, d) \<in># heap_contents hp"
  obtains hp' where "heap_delete hp a = Some (d, hp')" "heap_inv hp'"
    "heap_config hp' = heap_config hp"
    "heap_contents hp' = heap_contents hp - {#(a, k, d)#}"
proof -
  from inv have wf: "heap_wf hp" and ord: "heap_ordered entry_key (heap_view hp)"
    by (simp_all add: heap_inv_def)
  obtain n where n: "hp_mem hp a = Some n" "hn_key n = k" "hn_data n = d"
    "heap_view hp ! hn_id n = (a, k, d)" "hn_id n < hp_last hp"
    by (rule heap_contentsE [OF wf e])
  let ?v = "heap_view hp" and ?i = "hn_id n"
  let ?xs = "(butlast ?v)[?i := last ?v]"
  have ne: "?v \<noteq> []" using n(5) by auto
  have last: "last ?v = ?v ! (hp_last hp - 1)" using ne by (simp add: last_conv_nth)
  obtain hp' where hp': "heap_delete hp a = Some (d, hp')" "heap_wf hp'"
    "heap_config hp' = heap_config hp"
    "heap_view hp' = (if ?i = hp_last hp - 1 then butlast ?v else heap_restore entry_key ?xs ?i)"
    using heap_delete_refines [OF inv n(1)] n(3) by blast
  show ?thesis
  proof (cases "?i = hp_last hp - 1")
    case True
    then show ?thesis
      using that hp' n last mset_butlast [OF ne] heap_ordered_butlast [OF ord]
      by (simp add: heap_inv_def heap_contents_def)
  next
    case False
    then have i: "?i < length (butlast ?v)" using n(5) by simp
    have "mset (heap_view hp') = mset ?xs"
      using hp'(4) False i by (simp add: mset_heap_restore)
    also have "\<dots> = add_mset (last ?v) (mset (butlast ?v) - {#(a, k, d)#})"
      using i n(4) by (simp add: mset_list_update nth_butlast)
    also have "\<dots> = add_mset (last ?v) (mset (butlast ?v)) - {#(a, k, d)#}"
    proof -
      have "(a, k, d) \<in># mset (butlast ?v)"
        using i n(4) nth_mem [OF i] by (simp add: nth_butlast)
      then show ?thesis by simp
    qed
    also have "add_mset (last ?v) (mset (butlast ?v)) = mset ?v"
      using ne by (metis append_butlast_last_id mset_append mset_single_iff_right
          union_mset_add_mset_right add.right_neutral mset.simps(1,2))
    finally have "heap_contents hp' = heap_contents hp - {#(a, k, d)#}"
      by (simp add: heap_contents_def)
    moreover have "heap_ordered entry_key (heap_view hp')"
      using heap_restore_ordered [OF heap_ordered_butlast [OF ord] i] hp'(4) False by simp
    ultimately show ?thesis using that hp' by (simp add: heap_inv_def)
  qed
qed

lemma heap_update_inv:
  assumes inv: "heap_inv hp" and e: "(a, k, d) \<in># heap_contents hp"
  obtains hp' where "heap_update hp a dat = Some (d, hp')" "heap_inv hp'"
    "heap_config hp' = heap_config hp"
    "heap_contents hp' =
       add_mset (a, heap_gen_key hp dat, dat) (heap_contents hp - {#(a, k, d)#})"
proof -
  from inv have wf: "heap_wf hp" and ord: "heap_ordered entry_key (heap_view hp)"
    by (simp_all add: heap_inv_def)
  obtain n where n: "hp_mem hp a = Some n" "hn_key n = k" "hn_data n = d"
    "heap_view hp ! hn_id n = (a, k, d)" "hn_id n < hp_last hp"
    by (rule heap_contentsE [OF wf e])
  obtain hp' where "heap_update hp a dat = Some (d, hp')" "heap_wf hp'"
    "heap_config hp' = heap_config hp"
    "heap_view hp' = heap_restore entry_key
       ((heap_view hp)[hn_id n := (a, heap_gen_key hp dat, dat)]) (hn_id n)"
    using heap_update_refines [OF inv n(1)] n(3) by blast
  then show ?thesis
    using that n(4,5) heap_restore_ordered [OF ord]
    by (simp add: heap_inv_def heap_contents_def mset_heap_restore mset_list_update)
qed

lemma heap_extractmin_inv:
  assumes inv: "heap_inv hp" and ne: "heap_contents hp \<noteq> {#}"
  obtains a k d hp' where "heap_extractmin hp = Some (Some d, hp')" "heap_inv hp'"
    "heap_peepmin hp = Some d" "heap_peepminkey hp = Some k"
    "heap_config hp' = heap_config hp" "(a, k, d) \<in># heap_contents hp"
    "\<forall>e \<in># heap_contents hp. k \<le> entry_key e"
    "heap_contents hp' = heap_contents hp - {#(a, k, d)#}"
proof -
  from inv have wf: "heap_wf hp" and ord: "heap_ordered entry_key (heap_view hp)"
    by (simp_all add: heap_inv_def)
  have l: "0 < hp_last hp" using ne by (simp add: heap_contents_empty_iff)
  obtain a n where a: "hp_mem hp a = Some n" "node_ptr hp 0 = Some a" "node_at hp 0 = Some n"
      "heap_view hp ! 0 = (a, hn_key n, hn_data n)"
    by (rule heap_wf_node [OF wf l])
  have e: "(a, hn_key n, hn_data n) \<in># heap_contents hp"
    using a(4) l by (metis heap_contents_def length_heap_view nth_mem set_mset_mset)
  have least: "\<forall>e \<in># heap_contents hp. hn_key n \<le> entry_key e"
  proof
    fix e assume "e \<in># heap_contents hp"
    then obtain i where "i < hp_last hp" "e = heap_view hp ! i"
      by (auto simp: heap_contents_def in_set_conv_nth)
    then show "hn_key n \<le> entry_key e"
      using heap_ordered_root [OF ord, of i] a(4) by (simp add: entry_key_def)
  qed
  obtain hp' where "heap_delete hp a = Some (hn_data n, hp')" "heap_inv hp'"
    "heap_config hp' = heap_config hp"
    "heap_contents hp' = heap_contents hp - {#(a, hn_key n, hn_data n)#}"
    by (rule heap_delete_inv [OF inv e])
  then show ?thesis
    using that [of "hn_data n" hp' "hn_key n" a] l a e least wf
    by (simp add: heap_extractmin_def heap_peepmin_def heap_peepminkey_def)
qed

section \<open>The self check and the destructor\<close>

lemma heap_child_ok_wf:
  assumes wf: "heap_wf hp" and i: "i < hp_last hp" and c: "c < 2 ^ 31"
  shows "heap_child_ok hp i c = Some (c < hp_last hp \<longrightarrow>
     entry_key (heap_view hp ! i) \<le> entry_key (heap_view hp ! c))"
proof (cases "c < hp_last hp")
  case True
  obtain a n where "node_at hp i = Some n" "heap_view hp ! i = (a, hn_key n, hn_data n)"
    by (rule heap_wf_node [OF wf i])
  moreover obtain b m where "node_at hp c = Some m" "heap_view hp ! c = (b, hn_key m, hn_data m)"
    by (rule heap_wf_node [OF wf True])
  ultimately show ?thesis
    using wf c by (simp add: heap_child_ok_def entry_key_def not_less)
qed (use c in \<open>simp add: heap_child_ok_def wf\<close>)

lemma verify_heap_loop_wf:
  assumes "heap_wf hp" "\<forall>i \<in> set is. i < hp_last hp div 2"
  shows "verify_heap_loop hp is = Some (\<forall>i \<in> set is. \<forall>c \<in> {heap_left i, heap_right i}.
     c < hp_last hp \<longrightarrow> entry_key (heap_view hp ! i) \<le> entry_key (heap_view hp ! c))"
  using assms(2)
proof (induction "is")
  case (Cons i "is")
  then have i: "heap_left i < 2 ^ 31" "heap_right i < 2 ^ 31" "i < hp_last hp"
    using assms(1) by (auto simp: heap_left_def heap_right_def heap_wf_def)
  show ?case
    using Cons heap_child_ok_wf [OF assms(1) i(3) i(1)] heap_child_ok_wf [OF assms(1) i(3) i(2)] by simp
qed simp

lemma heap_ordered_by_children:
  "heap_ordered k xs \<longleftrightarrow> (\<forall>i < length xs div 2. \<forall>c \<in> {heap_left i, heap_right i}.
     c < length xs \<longrightarrow> k (xs ! i) \<le> k (xs ! c))"
proof
  assume "heap_ordered k xs"
  then show "\<forall>i < length xs div 2. \<forall>c \<in> {heap_left i, heap_right i}.
     c < length xs \<longrightarrow> k (xs ! i) \<le> k (xs ! c)"
    by (auto simp: heap_ordered_def)
       (metis heap_kid_greater gr_implies_not0 heap_parent_left heap_parent_right not_gr0)+
next
  assume *: "\<forall>i < length xs div 2. \<forall>c \<in> {heap_left i, heap_right i}.
     c < length xs \<longrightarrow> k (xs ! i) \<le> k (xs ! c)"
  show "heap_ordered k xs"
    unfolding heap_ordered_def
  proof (intro allI impI)
    fix j assume j: "j < length xs" "0 < j"
    have "heap_parent j < length xs div 2" using j by (auto simp: heap_parent_def)
    moreover have "j \<in> {heap_left (heap_parent j), heap_right (heap_parent j)}"
      using heap_child_iff [OF j(2), of "heap_parent j"] by simp
    ultimately show "k (xs ! heap_parent j) \<le> k (xs ! j)" using * j by blast
  qed
qed

lemma free_nodes_wf:
  assumes "\<forall>p \<in> set ps. \<exists>a. p = Some a \<and> a \<in> dom m" "distinct ps"
  shows "free_nodes m ps = Some (\<lambda>a. if Some a \<in> set ps then None else m a)"
  using assms
proof (induction ps arbitrary: m)
  case (Cons p ps)
  then obtain a n where p: "p = Some a" "m a = Some n" by auto
  have dom: "\<forall>q \<in> set ps. \<exists>b. q = Some b \<and> b \<in> dom (m(a := None))"
    using Cons.prems p by auto
  have "free_nodes m (p # ps) = free_nodes (m(a := None)) ps" using p by simp
  also have "\<dots> = Some (\<lambda>b. if Some b \<in> set ps then None else (m(a := None)) b)"
    by (rule Cons.IH [OF dom]) (use Cons.prems(2) in simp)
  also have "(\<lambda>b. if Some b \<in> set ps then None else (m(a := None)) b) =
      (\<lambda>b. if Some b \<in> set (p # ps) then None else m b)"
    using p by auto
  finally show ?case .
qed (simp add: fun_eq_iff)

section \<open>The queue interface\<close>

text \<open>
  What a client of the heap relies on: the operations, the multiset of (node, key, data)
  entries the queue holds, and the laws of each operation. \<open>extract_n\<close> is the client's loop
  that takes the next \<open>n\<close> entries off the queue.
\<close>

fun extract_n :: "('q \<Rightarrow> ('d option \<times> 'q) option) \<Rightarrow> nat \<Rightarrow> 'q \<Rightarrow> ('d list \<times> 'q) option" where
  "extract_n pull 0 q = Some ([], q)"
| "extract_n pull (Suc n) q = do {
     (r, q') \<leftarrow> pull q;
     (case r of None \<Rightarrow> Some ([], q')
      | Some d \<Rightarrow> do { (ds, q'') \<leftarrow> extract_n pull n q'; Some (d # ds, q'') })
   }"

locale keyed_queue =
  fixes put :: "'q \<Rightarrow> 'd \<Rightarrow> (addr \<times> 'q) option"
    and pull :: "'q \<Rightarrow> ('d option \<times> 'q) option"
    and drop_node :: "'q \<Rightarrow> addr \<Rightarrow> ('d \<times> 'q) option"
    and rekey :: "'q \<Rightarrow> addr \<Rightarrow> 'd \<Rightarrow> ('d \<times> 'q) option"
    and min_key :: "'q \<Rightarrow> 'k::linorder option"
    and gen_key :: "'q \<Rightarrow> 'd \<Rightarrow> 'k"
    and config :: "'q \<Rightarrow> 'c"
    and contents :: "'q \<Rightarrow> ('d, 'k) heap_entry multiset"
    and invar :: "'q \<Rightarrow> bool"
    and room :: "'q \<Rightarrow> bool"
  assumes insert_law: "invar q \<Longrightarrow> room q \<Longrightarrow> \<exists>a q'. put q d = Some (a, q') \<and> invar q' \<and>
      config q' = config q \<and> a \<notin> fst ` set_mset (contents q) \<and>
      contents q' = add_mset (a, gen_key q d, d) (contents q)"
    and insert_full_law: "invar q \<Longrightarrow> \<not> room q \<Longrightarrow> put q d = None"
    and extract_empty_law: "invar q \<Longrightarrow> contents q = {#} \<Longrightarrow> pull q = Some (None, q)"
    and extract_law: "invar q \<Longrightarrow> contents q \<noteq> {#} \<Longrightarrow>
      \<exists>a k d q'. pull q = Some (Some d, q') \<and> min_key q = Some k \<and> invar q' \<and>
        config q' = config q \<and> (a, k, d) \<in># contents q \<and>
        (\<forall>e \<in># contents q. k \<le> entry_key e) \<and> contents q' = contents q - {#(a, k, d)#}"
    and delete_law: "invar q \<Longrightarrow> (a, k, d) \<in># contents q \<Longrightarrow>
      \<exists>q'. drop_node q a = Some (d, q') \<and> invar q' \<and> config q' = config q \<and>
        contents q' = contents q - {#(a, k, d)#}"
    and update_law: "invar q \<Longrightarrow> (a, k, d) \<in># contents q \<Longrightarrow>
      \<exists>q'. rekey q a d' = Some (d, q') \<and> invar q' \<and> config q' = config q \<and>
        contents q' = add_mset (a, gen_key q d', d') (contents q - {#(a, k, d)#})"
begin

lemma extract_n_sorted:
  "invar q \<Longrightarrow> \<exists>es q'. extract_n pull n q = Some (map (snd \<circ> snd) es, q') \<and> invar q' \<and>
     length es = min n (size (contents q)) \<and> contents q = mset es + contents q' \<and>
     sorted (map entry_key es) \<and>
     (\<forall>e \<in> set es. \<forall>f \<in># contents q'. entry_key e \<le> entry_key f)"
proof (induction n arbitrary: q)
  case 0
  then show ?case by (intro exI [of _ "[]"]) simp
next
  case (Suc n)
  show ?case
  proof (cases "contents q = {#}")
    case True
    then show ?thesis
      using extract_empty_law [OF Suc.prems True] Suc.prems by (intro exI [of _ "[]"]) simp
  next
    case False
    from extract_law [OF Suc.prems False] obtain a k d q1 where
      1: "pull q = Some (Some d, q1)" "invar q1" "(a, k, d) \<in># contents q"
        "\<forall>e \<in># contents q. k \<le> entry_key e" "contents q1 = contents q - {#(a, k, d)#}"
      by blast
    from Suc.IH [OF 1(2)] obtain es q' where
      2: "extract_n pull n q1 = Some (map (snd \<circ> snd) es, q')" "invar q'"
        "length es = min n (size (contents q1))" "contents q1 = mset es + contents q'"
        "sorted (map entry_key es)"
        "\<forall>e \<in> set es. \<forall>f \<in># contents q'. entry_key e \<le> entry_key f"
      by blast
    have q: "contents q = add_mset (a, k, d) (contents q1)" using 1(3,5) by simp
    have "extract_n pull (Suc n) q = Some (map (snd \<circ> snd) ((a, k, d) # es), q')"
      using 1(1) 2(1) by simp
    moreover have "contents q = mset ((a, k, d) # es) + contents q'"
      using q 2(4) by simp
    moreover have "length ((a, k, d) # es) = min (Suc n) (size (contents q))"
      using q 2(3) by simp
    moreover have "sorted (map entry_key ((a, k, d) # es))"
      using 2(4,5) 1(4) q by (auto simp: entry_key_def)
    moreover have "\<forall>e \<in> set ((a, k, d) # es). \<forall>f \<in># contents q'. entry_key e \<le> entry_key f"
      using 2(4,6) 1(4) q by (auto simp: entry_key_def)
    ultimately show ?thesis using 2(2) by blast
  qed
qed

end

interpretation hq: keyed_queue
  heap_insert heap_extractmin heap_delete heap_update heap_peepminkey heap_gen_key heap_config
  heap_contents heap_inv heap_room
proof unfold_locales
  fix q :: "('d, 'k::linorder) heap" and d d' :: 'd and a k
  assume inv: "heap_inv q"
  have "hp_brk q \<notin> fst ` set_mset (heap_contents q)"
    using inv heap_wf_mem(5) [of q] by (force simp: heap_inv_def in_heap_contents_iff)
  then show "\<exists>a q'. heap_insert q d = Some (a, q') \<and> heap_inv q' \<and> heap_config q' = heap_config q \<and>
      a \<notin> fst ` set_mset (heap_contents q) \<and>
      heap_contents q' = add_mset (a, heap_gen_key q d, d) (heap_contents q)" if "heap_room q"
    by (metis heap_insert_inv [OF inv that])
  show "heap_insert q d = None" if "\<not> heap_room q"
    using inv that by (intro heap_insert_full) (simp_all add: heap_inv_def)
  show "heap_extractmin q = Some (None, q)" if "heap_contents q = {#}"
    using that by (simp add: heap_contents_empty_iff heap_extractmin_def)
  show "\<exists>a k d q'. heap_extractmin q = Some (Some d, q') \<and> heap_peepminkey q = Some k \<and>
      heap_inv q' \<and> heap_config q' = heap_config q \<and> (a, k, d) \<in># heap_contents q \<and>
      (\<forall>e \<in># heap_contents q. k \<le> entry_key e) \<and>
      heap_contents q' = heap_contents q - {#(a, k, d)#}"
    if "heap_contents q \<noteq> {#}"
    by (rule heap_extractmin_inv [OF inv that]) blast
  assume e: "(a, k, d) \<in># heap_contents q"
  show "\<exists>q'. heap_delete q a = Some (d, q') \<and> heap_inv q' \<and> heap_config q' = heap_config q \<and>
      heap_contents q' = heap_contents q - {#(a, k, d)#}"
    by (rule heap_delete_inv [OF inv e]) blast
  show "\<exists>q'. heap_update q a d' = Some (d, q') \<and> heap_inv q' \<and> heap_config q' = heap_config q \<and>
      heap_contents q' = add_mset (a, heap_gen_key q d', d') (heap_contents q - {#(a, k, d)#})"
    by (rule heap_update_inv [OF inv e]) blast
qed

section \<open>Properties\<close>

text \<open>
C1. On a heap that satisfies its invariant, \<open>heap_insert\<close> fails only when the array is full and
  has more than 1431655765 cells, where the size it would grow to is too large for an \<open>int\<close>.
  Otherwise it returns a pointer to a node that was not in the heap, keeps the invariant (array,
  indices and heap order), and adds exactly one entry, whose key is the key function's value at the
  current age.
\<close>

theorem heap_insert_correct:
  assumes "heap_inv hp"
  shows "if size (heap_contents hp) < hp_size hp \<or> size (heap_contents hp) \<le> 1431655765
    then \<exists>a hp'. heap_insert hp dat = Some (a, hp') \<and> heap_inv hp' \<and>
      heap_config hp' = heap_config hp \<and> a \<notin> fst ` set_mset (heap_contents hp) \<and>
      heap_contents hp' = add_mset (a, heap_gen_key hp dat, dat) (heap_contents hp)
    else heap_insert hp dat = None"
proof (cases "heap_room hp")
  case True
  with hq.insert_law [OF assms True, of dat] show ?thesis
    by (simp add: heap_room_def)
next
  case False
  with hq.insert_full_law [OF assms False, of dat] show ?thesis
    by (simp add: heap_room_def)
qed

text \<open>
  C2. Taking the minimum \<open>n\<close> times with \<open>heap_extractmin\<close> never fails and returns the data of
  \<open>min n (size of the heap)\<close> entries in ascending key order; the entries are exactly those that
  leave the heap, none of them has a key above a key that stays, and the invariant holds
  afterwards. The comment above the function promises the largest key; this is the smallest.
\<close>

theorem heap_extractmin_sorted:
  assumes "heap_inv hp"
  shows "\<exists>es hp'. extract_n heap_extractmin n hp = Some (map (snd \<circ> snd) es, hp') \<and>
    heap_inv hp' \<and> length es = min n (size (heap_contents hp)) \<and>
    heap_contents hp = mset es + heap_contents hp' \<and> sorted (map entry_key es) \<and>
    (\<forall>e \<in> set es. \<forall>f \<in># heap_contents hp'. entry_key e \<le> entry_key f)"
  using hq.extract_n_sorted [OF assms] .

text \<open>
  C3. For a node that is in the heap, \<open>heap_delete\<close> removes exactly its entry and returns its
  data, and \<open>heap_update\<close> has, as its comment says, the effect of a delete followed by an insert
  of the new data: the old entry is gone, the new one (at the same node) is in, and the
  invariant is kept by both.
\<close>

theorem heap_delete_update_correct:
  assumes "heap_inv hp" and "(a, k, d) \<in># heap_contents hp"
  shows "\<exists>hp1 hp2. heap_delete hp a = Some (d, hp1) \<and> heap_update hp a dat = Some (d, hp2) \<and>
    heap_inv hp1 \<and> heap_inv hp2 \<and>
    heap_contents hp1 = heap_contents hp - {#(a, k, d)#} \<and>
    heap_contents hp2 = add_mset (a, heap_gen_key hp dat, dat) (heap_contents hp1)"
  using hq.delete_law [OF assms] hq.update_law [OF assms, of dat] by auto

text \<open>
  C21. \<open>verify_heap_property\<close>, which looks only at the first half of the array, decides the heap
  order: on every well-formed heap it answers true exactly when each node's key is at least its
  parent's.
\<close>

theorem verify_heap_property_correct:
  assumes "heap_wf hp"
  shows "verify_heap_property hp = Some (heap_ordered entry_key (heap_view hp))"
proof -
  have "verify_heap_property hp = Some (\<forall>i \<in> set [0 ..< hp_last hp div 2].
      \<forall>c \<in> {heap_left i, heap_right i}. c < hp_last hp \<longrightarrow>
        entry_key (heap_view hp ! i) \<le> entry_key (heap_view hp ! c))"
    unfolding verify_heap_property_def by (rule verify_heap_loop_wf [OF assms]) auto
  then show ?thesis by (auto simp: heap_ordered_by_children)
qed

lemma delete_heap_frees_all:
  assumes wf: "heap_wf hp"
  shows "delete_heap hp = Some Map.empty"
proof -
  let ?ps = "take (hp_last hp) (hp_nodes hp)"
  have len: "length ?ps = hp_last hp" using wf by (simp add: heap_wf_def)
  have ptr: "\<exists>a n. ?ps ! i = Some a \<and> hp_mem hp a = Some n \<and> hn_id n = i"
    if "i < hp_last hp" for i
    by (rule heap_wf_node [OF wf that]) (use that in auto)
  have "\<exists>a. p = Some a \<and> a \<in> dom (hp_mem hp)" if "p \<in> set ?ps" for p
  proof -
    from that obtain i where "i < hp_last hp" "p = ?ps ! i"
      unfolding in_set_conv_nth len by blast
    then show ?thesis using ptr [of i] by auto
  qed
  moreover have "i = j" if "i < hp_last hp" "j < hp_last hp" "?ps ! i = ?ps ! j" for i j
    using ptr [OF that(1)] ptr [OF that(2)] that(3) by auto
  then have "distinct ?ps"
    unfolding distinct_conv_nth len by blast
  ultimately have "delete_heap hp = Some (\<lambda>a. if Some a \<in> set ?ps then None else hp_mem hp a)"
    unfolding delete_heap_def using free_nodes_wf by blast
  also have "(\<lambda>a. if Some a \<in> set ?ps then None else hp_mem hp a) = Map.empty"
  proof
    fix a
    show "(if Some a \<in> set ?ps then None else hp_mem hp a) = None"
      using len heap_wf_mem(1,2) [OF wf, of a]
      by (cases "hp_mem hp a") (auto simp: in_set_conv_nth)
  qed
  finally show ?thesis .
qed

subsection \<open>Witnesses\<close>

text \<open>A heap of three nodes whose key function is the sum of data and age.\<close>

definition ex_heap :: "(int, int) heap" where
  "ex_heap = \<lparr>hp_size = 4, hp_last = 3, hp_gen_key = (\<lambda>d age. d + age), hp_age = 1,
     hp_nodes = [Some 2, Some 0, Some 1, None],
     hp_mem = [0 \<mapsto> \<lparr>hn_key = 6, hn_id = 1, hn_data = 5\<rparr>, 1 \<mapsto> \<lparr>hn_key = 9, hn_id = 2, hn_data = 8\<rparr>,
               2 \<mapsto> \<lparr>hn_key = 3, hn_id = 0, hn_data = 2\<rparr>],
     hp_brk = 3\<rparr>"

lemma ex_heap_view: "heap_view ex_heap = [(2, 3, 2), (0, 6, 5), (1, 9, 8)]"
  by (simp add: heap_view_def ex_heap_def upt_rec)

lemma ex_heap_wf: "heap_wf ex_heap"
proof -
  have "i < 3 \<longleftrightarrow> i = 0 \<or> i = 1 \<or> i = 2" for i :: nat
    by auto
  then show ?thesis
    by (auto simp: heap_wf_def ex_heap_def split: if_splits)
qed

lemma ex_heap_inv: "heap_inv ex_heap"
  unfolding heap_inv_def heap_ordered_def ex_heap_view
  by (auto simp: ex_heap_wf heap_parent_def entry_key_def less_Suc_eq)

theorem heap_insert_correct_witness:
  "heap_inv ex_heap \<and> (\<exists>a hp'. heap_insert ex_heap 1 = Some (a, hp') \<and> heap_inv hp' \<and>
     heap_contents hp' = {#(a, 2, 1), (2, 3, 2), (0, 6, 5), (1, 9, 8)#})"
  using heap_insert_correct [OF ex_heap_inv, of 1] ex_heap_inv
  by (auto simp: heap_contents_def ex_heap_view heap_gen_key_def ex_heap_def [THEN arg_cong [of _ _ hp_gen_key]]
      ex_heap_def [THEN arg_cong [of _ _ hp_age]])

theorem heap_extractmin_sorted_witness:
  "heap_inv ex_heap \<and> (\<exists>(es :: (int, int) heap_entry list) hp'. extract_n heap_extractmin 2 ex_heap = Some (map (snd \<circ> snd) es, hp') \<and>
     length es = 2 \<and> sorted (map entry_key es) \<and> heap_inv hp')"
proof -
  have "size (heap_contents ex_heap) = 3" by (simp add: heap_contents_def ex_heap_view)
  then have "min 2 (size (heap_contents ex_heap)) = 2" by simp
  then show ?thesis
    using heap_extractmin_sorted [OF ex_heap_inv, of 2] ex_heap_inv by metis
qed

theorem heap_delete_update_correct_witness:
  "heap_inv ex_heap \<and> (0, 6, 5) \<in># heap_contents ex_heap \<and>
   (\<exists>hp1. heap_delete ex_heap 0 = Some (5, hp1) \<and> heap_contents hp1 = {#(2, 3, 2), (1, 9, 8)#})"
  using heap_delete_update_correct [OF ex_heap_inv, of 0 6 5] ex_heap_inv
  by (auto simp: heap_contents_def ex_heap_view)

theorem verify_heap_property_correct_witness:
  "heap_wf ex_heap \<and> verify_heap_property ex_heap = Some True"
  using verify_heap_property_correct [OF ex_heap_wf] ex_heap_inv ex_heap_wf
  by (simp add: heap_inv_def)

end
