(* ===== verification/Bit_Array.thy ===== *)
theory Bit_Array
  imports Lusca_Prelude
begin

unbundle bit_operations_syntax

text \<open>
  Bit sets kept in an array of machine words. The program has two of them: the \<open>CBIT_*\<close>
  macros of \<^verbatim>\<open>libcore/tools.h\<close> on an array of bytes (access list types, cache digests) and
  the map of allocated swap file numbers of \<^verbatim>\<open>libsqstore/filemap.c\<close> on an array of longs.
  The locale \<open>bit_array\<close> is the contract their clients rely on; \<open>cb\<close> is its interpretation
  on the byte macros, and \<^verbatim>\<open>File_Map\<close> interprets it on the array of longs.
\<close>

section \<open>The contract\<close>

locale bit_array =
  fixes bits :: "'m \<Rightarrow> nat"
    and test :: "'m \<Rightarrow> nat \<Rightarrow> bool option"
    and put :: "'m \<Rightarrow> nat \<Rightarrow> 'm option"
    and clr :: "'m \<Rightarrow> nat \<Rightarrow> 'm option"
  assumes test_in: "n < bits m \<Longrightarrow> test m n \<noteq> None"
    and put_law: "n < bits m \<Longrightarrow> \<exists>m'. put m n = Some m' \<and> bits m' = bits m \<and>
      (\<forall>k < bits m. test m' k = (if k = n then Some True else test m k))"
    and clr_law: "n < bits m \<Longrightarrow> \<exists>m'. clr m n = Some m' \<and> bits m' = bits m \<and>
      (\<forall>k < bits m. test m' k = (if k = n then Some False else test m k))"
begin

definition on :: "'m \<Rightarrow> nat set" where
  "on m = {n. n < bits m \<and> test m n = Some True}"

lemma finite_on [simp]: "finite (on m)"
  by (simp add: on_def)

lemma test_on: "n < bits m \<Longrightarrow> test m n = Some (n \<in> on m)"
  using test_in [of n m] by (auto simp: on_def)

lemma put_on: "n < bits m \<Longrightarrow> \<exists>m'. put m n = Some m' \<and> bits m' = bits m \<and> on m' = insert n (on m)"
  using put_law [of n m] by (fastforce simp: on_def)

lemma clr_on: "n < bits m \<Longrightarrow> \<exists>m'. clr m n = Some m' \<and> bits m' = bits m \<and> on m' = on m - {n}"
  using clr_law [of n m] by (fastforce simp: on_def split: if_splits)

lemma on_less: "n \<in> on m \<Longrightarrow> n < bits m"
  by (simp add: on_def)

lemma on_subset: "on m \<subseteq> {..<bits m}"
  by (auto simp: on_def)

lemma card_on_le: "card (on m) \<le> bits m"
  using card_mono [OF _ on_subset] by simp

end

section \<open>Bits of a list of words\<close>

definition wbits :: "'w::len word list \<Rightarrow> nat" where
  "wbits ws = LENGTH('w) * length ws"

definition wbit_test :: "'w::len word list \<Rightarrow> nat \<Rightarrow> bool option" where
  "wbit_test ws n = do {
     w \<leftarrow> arr_get ws (n div LENGTH('w));
     Some (w AND push_bit (n mod LENGTH('w)) 1 \<noteq> 0)
   }"

definition wbit_put :: "'w::len word list \<Rightarrow> nat \<Rightarrow> 'w word list option" where
  "wbit_put ws n = do {
     w \<leftarrow> arr_get ws (n div LENGTH('w));
     arr_set ws (n div LENGTH('w)) (w OR push_bit (n mod LENGTH('w)) 1)
   }"

definition wbit_clr :: "'w::len word list \<Rightarrow> nat \<Rightarrow> 'w word list option" where
  "wbit_clr ws n = do {
     w \<leftarrow> arr_get ws (n div LENGTH('w));
     arr_set ws (n div LENGTH('w)) (w AND NOT (push_bit (n mod LENGTH('w)) 1))
   }"

lemma wbits_index: "n < wbits (ws :: 'w::len word list) \<longleftrightarrow> n div LENGTH('w) < length ws"
  by (simp add: wbits_def div_less_iff_less_mult mult.commute)

lemma wbit_test_eq:
  "n < wbits (ws :: 'w::len word list) \<Longrightarrow>
     wbit_test ws n = Some (bit (ws ! (n div LENGTH('w))) (n mod LENGTH('w)))"
  by (simp add: wbit_test_def wbits_index bit_iff_and_push_bit_not_eq_0)

lemma wbit_put_eq:
  "n < wbits (ws :: 'w::len word list) \<Longrightarrow>
     wbit_put ws n = Some (ws[n div LENGTH('w) :=
       (ws ! (n div LENGTH('w)) OR push_bit (n mod LENGTH('w)) 1)])"
  by (simp add: wbit_put_def wbits_index)

lemma wbit_clr_eq:
  "n < wbits (ws :: 'w::len word list) \<Longrightarrow>
     wbit_clr ws n = Some (ws[n div LENGTH('w) :=
       (ws ! (n div LENGTH('w)) AND NOT (push_bit (n mod LENGTH('w)) 1))])"
  by (simp add: wbit_clr_def wbits_index)

lemma wbits_update [simp]: "wbits (ws[i := w]) = wbits ws"
  by (simp add: wbits_def)

lemma same_bit_iff:
  fixes k n b :: nat
  shows "k div b = n div b \<Longrightarrow> k mod b = n mod b \<longleftrightarrow> k = n"
  by (metis div_mult_mod_eq)

interpretation wb: bit_array "wbits :: 'w::len word list \<Rightarrow> nat" wbit_test wbit_put wbit_clr
proof
  fix n :: nat and ws :: "'w word list"
  assume n: "n < wbits ws"
  show "wbit_test ws n \<noteq> None"
    by (simp add: wbit_test_eq n)
  show "\<exists>m'. wbit_put ws n = Some m' \<and> wbits m' = wbits ws \<and>
      (\<forall>k < wbits ws. wbit_test m' k = (if k = n then Some True else wbit_test ws k))"
    using n same_bit_iff [of _ "LENGTH('w)" n]
    by (auto simp: wbit_put_eq wbit_test_eq nth_list_update wbits_index bit_simps)
  show "\<exists>m'. wbit_clr ws n = Some m' \<and> wbits m' = wbits ws \<and>
      (\<forall>k < wbits ws. wbit_test m' k = (if k = n then Some False else wbit_test ws k))"
    using n same_bit_iff [of _ "LENGTH('w)" n]
    by (auto simp: wbit_clr_eq wbit_test_eq nth_list_update wbits_index bit_simps)
qed

lemma wb_on_iff:
  "n \<in> wb.on (ws :: 'w::len word list) \<longleftrightarrow>
     n < wbits ws \<and> bit (ws ! (n div LENGTH('w))) (n mod LENGTH('w))"
  by (auto simp: wb.on_def wbit_test_eq)

lemma wb_on_zeroes [simp]: "wb.on (replicate k (0 :: 'w::len word)) = {}"
  by (auto simp: wb_on_iff wbits_index)

lemma wb_on_append_zeroes [simp]: "wb.on (ws @ replicate k (0 :: 'w::len word)) = wb.on ws"
  by (auto simp: wb_on_iff wbits_index nth_append split: if_splits)

section \<open>The byte macros of tools.h\<close>

definition CBIT_TEST :: "byte list \<Rightarrow> nat \<Rightarrow> bool option" where
  "CBIT_TEST bm b = do {
     w \<leftarrow> arr_get bm (drop_bit 3 b);
     Some (w AND push_bit (b mod 8) 1 \<noteq> 0)
   }"

definition CBIT_SET :: "byte list \<Rightarrow> nat \<Rightarrow> byte list option" where
  "CBIT_SET bm b = do {
     w \<leftarrow> arr_get bm (drop_bit 3 b);
     arr_set bm (drop_bit 3 b) (w OR push_bit (b mod 8) 1)
   }"

definition CBIT_CLR :: "byte list \<Rightarrow> nat \<Rightarrow> byte list option" where
  "CBIT_CLR bm b = do {
     w \<leftarrow> arr_get bm (drop_bit 3 b);
     arr_set bm (drop_bit 3 b) (w AND NOT (push_bit (b mod 8) 1))
   }"

lemma CBIT_TEST_wbit: "CBIT_TEST = wbit_test"
  by (simp add: fun_eq_iff CBIT_TEST_def wbit_test_def drop_bit_eq_div)

lemma CBIT_SET_wbit: "CBIT_SET = wbit_put"
  by (simp add: fun_eq_iff CBIT_SET_def wbit_put_def drop_bit_eq_div)

lemma CBIT_CLR_wbit: "CBIT_CLR = wbit_clr"
  by (simp add: fun_eq_iff CBIT_CLR_def wbit_clr_def drop_bit_eq_div)

interpretation cb: bit_array "wbits :: byte list \<Rightarrow> nat" CBIT_TEST CBIT_SET CBIT_CLR
  unfolding CBIT_TEST_wbit CBIT_SET_wbit CBIT_CLR_wbit by (rule wb.bit_array_axioms)

lemma cb_on: "cb.on = wb.on"
  by (simp add: fun_eq_iff cb.on_def wb.on_def CBIT_TEST_wbit)

end
