(* ===== verification/File_Map.thy ===== *)
theory File_Map
  imports Bit_Array
begin

unbundle bit_operations_syntax

text \<open>
  The map of allocated swap file numbers, \<^verbatim>\<open>libsqstore/filemap.c\<close>, as compiled where a
  \<open>long\<close> has 64 bits. Growing past \<open>FILEMAP_MAX_SIZE\<close> fails an assertion, and a negative file
  number reads before the array: both are \<open>None\<close>. The loops of \<open>file_map_bit_set\<close> and
  \<open>file_map_allocate\<close> are \<open>partial_function\<close>s, so that not ending would be \<open>None\<close> too.
\<close>

definition LONG_BIT_SHIFT :: nat where "LONG_BIT_SHIFT = 6"
definition BITS_IN_A_LONG :: int where "BITS_IN_A_LONG = 0x40"
definition LONG_BIT_MASK :: int where "LONG_BIT_MASK = 0x3F"
definition ALL_ONES :: u64 where "ALL_ONES = 0xFFFFFFFFFFFFFFFF"
definition FM_INITIAL_NUMBER :: int where "FM_INITIAL_NUMBER = push_bit 14 1"
definition FILEMAP_MAX_SIZE :: int where "FILEMAP_MAX_SIZE = push_bit 24 1"

record fileMap =
  max_n_files :: int
  n_files_in_map :: int
  nwords :: int
  file_map :: "u64 list"

definition file_map_create :: fileMap where
  "file_map_create =
     (let nw = drop_bit LONG_BIT_SHIFT FM_INITIAL_NUMBER
      in \<lparr>max_n_files = FM_INITIAL_NUMBER, n_files_in_map = 0, nwords = nw,
          file_map = replicate (nat nw) 0\<rparr>)"

text \<open>\<open>xcalloc\<close> zeroes the new array; the copy of the old one overwrites its front.\<close>

definition file_map_grow :: "fileMap \<Rightarrow> fileMap option" where
  "file_map_grow fm = do {
     let old = file_map fm;
     let mx = push_bit 1 (max_n_files fm);
     c_assert (mx \<le> FILEMAP_MAX_SIZE);
     let nw = drop_bit LONG_BIT_SHIFT mx;
     let fresh = replicate (nat nw) 0;
     c_assert (length old \<le> length fresh);
     Some (fm\<lparr>max_n_files := mx, nwords := nw, file_map := old @ drop (length old) fresh\<rparr>)
   }"

definition file_bitmask :: "int \<Rightarrow> u64" where
  "file_bitmask file_number = push_bit (nat (file_number AND LONG_BIT_MASK)) 1"

partial_function (option) file_map_reserve :: "int \<Rightarrow> fileMap \<Rightarrow> fileMap option" where
  "file_map_reserve file_number fm =
     (if max_n_files fm \<le> file_number
      then do { fm' \<leftarrow> file_map_grow fm; file_map_reserve file_number fm' }
      else Some fm)"

definition file_map_bit_set :: "fileMap \<Rightarrow> int \<Rightarrow> (fileMap \<times> int) option" where
  "file_map_bit_set fm file_number = do {
     let bitmask = file_bitmask file_number;
     fm \<leftarrow> file_map_reserve file_number fm;
     w \<leftarrow> arr_getz (file_map fm) (drop_bit LONG_BIT_SHIFT file_number);
     ws \<leftarrow> arr_setz (file_map fm) (drop_bit LONG_BIT_SHIFT file_number) (w OR bitmask);
     Some (fm\<lparr>file_map := ws, n_files_in_map := n_files_in_map fm + 1\<rparr>, file_number)
   }"

definition file_map_bit_reset :: "fileMap \<Rightarrow> int \<Rightarrow> fileMap option" where
  "file_map_bit_reset fm file_number = do {
     let bitmask = file_bitmask file_number;
     w \<leftarrow> arr_getz (file_map fm) (drop_bit LONG_BIT_SHIFT file_number);
     ws \<leftarrow> arr_setz (file_map fm) (drop_bit LONG_BIT_SHIFT file_number) (w AND NOT bitmask);
     Some (fm\<lparr>file_map := ws, n_files_in_map := n_files_in_map fm - 1\<rparr>)
   }"

definition file_map_bit_test :: "fileMap \<Rightarrow> int \<Rightarrow> bool option" where
  "file_map_bit_test fm file_number =
     (if max_n_files fm \<le> file_number then Some False
      else do {
        w \<leftarrow> arr_getz (file_map fm) (drop_bit LONG_BIT_SHIFT file_number);
        Some (w AND file_bitmask file_number \<noteq> 0)
      })"

text \<open>
  The two loops of \<open>file_map_allocate\<close>: the word scan, counting \<open>count\<close> up to \<open>nwords\<close>, and
  the bit scan over the word it stopped at.
\<close>

fun file_map_scan_words :: "fileMap \<Rightarrow> nat \<Rightarrow> int \<Rightarrow> int option" where
  "file_map_scan_words fm 0 w = Some w"
| "file_map_scan_words fm (Suc k) w = do {
     x \<leftarrow> arr_getz (file_map fm) w;
     if x \<noteq> ALL_ONES then Some w
     else file_map_scan_words fm k ((w + 1) mod nwords fm)
   }"

function file_map_scan_bits :: "fileMap \<Rightarrow> int \<Rightarrow> int \<Rightarrow> int option option" where
  "file_map_scan_bits fm w b =
     (if b < BITS_IN_A_LONG
      then do {
        let suggestion = push_bit LONG_BIT_SHIFT w OR b;
        t \<leftarrow> file_map_bit_test fm suggestion;
        if \<not> t then Some (Some suggestion) else file_map_scan_bits fm w (b + 1)
      }
      else Some None)"
  by auto
termination by (relation "measure (\<lambda>(_, _, b). nat (BITS_IN_A_LONG - b))") auto

declare file_map_scan_bits.simps [simp del]

partial_function (option) file_map_allocate :: "fileMap \<Rightarrow> int \<Rightarrow> (fileMap \<times> int) option" where
  "file_map_allocate fm suggestion0 = do {
     let suggestion = (if max_n_files fm \<le> suggestion0 then 0 else suggestion0);
     t \<leftarrow> file_map_bit_test fm suggestion;
     if \<not> t then Some (fm, suggestion)
     else do {
       w \<leftarrow> file_map_scan_words fm (nat (nwords fm)) (drop_bit LONG_BIT_SHIFT suggestion);
       found \<leftarrow> file_map_scan_bits fm w 0;
       (case found of
          Some s \<Rightarrow> Some (fm, s)
        | None \<Rightarrow> do {
            fm' \<leftarrow> file_map_grow fm;
            file_map_allocate fm' (drop_bit 1 (max_n_files fm'))
          })
     }
   }"

section \<open>Invariant and abstraction\<close>

text \<open>
  The invariant of a map all of whose file numbers were set once: the capacity is a multiple
  of the word size within the limit, the array has that many words, and the counter is the
  number of bits that are on. The abstraction is the set of allocated file numbers.
\<close>

definition fm_shape :: "fileMap \<Rightarrow> bool" where
  "fm_shape fm \<longleftrightarrow> 0 < nwords fm \<and> length (file_map fm) = nat (nwords fm) \<and>
     max_n_files fm = 64 * nwords fm \<and> max_n_files fm \<le> FILEMAP_MAX_SIZE"

definition fm_used :: "fileMap \<Rightarrow> nat set" where
  "fm_used fm = wb.on (file_map fm)"

definition fm_inv :: "fileMap \<Rightarrow> bool" where
  "fm_inv fm \<longleftrightarrow> fm_shape fm \<and> n_files_in_map fm = int (card (fm_used fm))"

named_theorems fm_consts \<open>constants of filemap.c\<close>

lemmas [fm_consts] = LONG_BIT_SHIFT_def BITS_IN_A_LONG_def LONG_BIT_MASK_def ALL_ONES_def
  FM_INITIAL_NUMBER_def FILEMAP_MAX_SIZE_def

subsection \<open>The words of the map as a bit array\<close>

lemma file_bitmask_nat: "file_bitmask (int n) = push_bit (n mod 64) 1"
proof -
  have "int n AND LONG_BIT_MASK = take_bit 6 (int n)"
    by (simp add: fm_consts take_bit_eq_mask mask_eq_exp_minus_1)
  also have "\<dots> = int (n mod 64)"
    by (simp add: take_bit_eq_mod zmod_int)
  finally show ?thesis
    by (simp add: file_bitmask_def)
qed

lemma drop_bit_int: "drop_bit k (int n) = int (n div 2 ^ k)"
  by (simp add: drop_bit_eq_div zdiv_int)

lemma word_index_nat: "drop_bit LONG_BIT_SHIFT (int n) = int (n div 64)"
  by (simp add: fm_consts drop_bit_int)

definition fm_bit_test :: "u64 list \<Rightarrow> nat \<Rightarrow> bool option" where
  "fm_bit_test ws n = do {
     w \<leftarrow> arr_getz ws (drop_bit LONG_BIT_SHIFT (int n)); Some (w AND file_bitmask (int n) \<noteq> 0) }"

definition fm_bit_put :: "u64 list \<Rightarrow> nat \<Rightarrow> u64 list option" where
  "fm_bit_put ws n = do {
     w \<leftarrow> arr_getz ws (drop_bit LONG_BIT_SHIFT (int n));
     arr_setz ws (drop_bit LONG_BIT_SHIFT (int n)) (w OR file_bitmask (int n)) }"

definition fm_bit_clr :: "u64 list \<Rightarrow> nat \<Rightarrow> u64 list option" where
  "fm_bit_clr ws n = do {
     w \<leftarrow> arr_getz ws (drop_bit LONG_BIT_SHIFT (int n));
     arr_setz ws (drop_bit LONG_BIT_SHIFT (int n)) (w AND NOT (file_bitmask (int n))) }"

interpretation fb: bit_array "wbits :: u64 list \<Rightarrow> nat" fm_bit_test fm_bit_put fm_bit_clr
proof -
  have eqs: "fm_bit_test = wbit_test" "fm_bit_put = wbit_put" "fm_bit_clr = wbit_clr"
    by (simp_all add: fun_eq_iff fm_bit_test_def fm_bit_put_def fm_bit_clr_def wbit_test_def
        wbit_put_def wbit_clr_def word_index_nat file_bitmask_nat)
  show "bit_array (wbits :: u64 list \<Rightarrow> nat) fm_bit_test fm_bit_put fm_bit_clr"
    unfolding eqs by (rule wb.bit_array_axioms)
qed

lemma fb_on: "fb.on ws = wb.on ws"
  by (auto simp: fb.on_def wb.on_def fm_bit_test_def wbit_test_def word_index_nat file_bitmask_nat)

lemma fm_bits: "fm_shape fm \<Longrightarrow> wbits (file_map fm) = nat (max_n_files fm)"
  by (simp add: fm_shape_def wbits_def nat_mult_distrib)


section \<open>The operations\<close>

lemma file_map_create_inv: "fm_inv file_map_create" "fm_used file_map_create = {}"
  by (simp_all add: fm_inv_def fm_shape_def file_map_create_def fm_consts fm_used_def
      drop_bit_eq_div Let_def)

lemma fm_used_less: "fm_shape fm \<Longrightarrow> n \<in> fm_used fm \<Longrightarrow> int n < max_n_files fm"
  using wb.on_less [of n "file_map fm"] by (simp add: fm_used_def fm_bits)

lemma file_map_bit_test_spec:
  assumes "fm_shape fm"
  shows "file_map_bit_test fm (int n) = Some (n \<in> fm_used fm)"
proof (cases "int n < max_n_files fm")
  case True
  then have "n < wbits (file_map fm)"
    by (simp add: fm_bits assms)
  from fb.test_on [OF this] True show ?thesis
    by (simp add: file_map_bit_test_def fm_bit_test_def fb_on fm_used_def)
next
  case False
  then show ?thesis
    using fm_used_less [OF assms] by (auto simp: file_map_bit_test_def)
qed

lemma file_map_grow_spec:
  assumes "fm_shape fm" "2 * max_n_files fm \<le> FILEMAP_MAX_SIZE"
  shows "\<exists>fm'. file_map_grow fm = Some fm' \<and> fm_shape fm' \<and> fm_used fm' = fm_used fm \<and>
           max_n_files fm' = 2 * max_n_files fm \<and> n_files_in_map fm' = n_files_in_map fm"
  using assms
  by (simp add: file_map_grow_def fm_shape_def fm_used_def LONG_BIT_SHIFT_def drop_bit_eq_div
      push_bit_eq_mult Let_def nat_mult_distrib)

lemma file_map_grow_fails:
  "FILEMAP_MAX_SIZE < 2 * max_n_files fm \<Longrightarrow> file_map_grow fm = None"
  by (simp add: file_map_grow_def push_bit_eq_mult mult.commute)

text \<open>
  \<open>file_map_reserve\<close> doubles the capacity until the number fits. A map whose capacity is a
  power of two, as \<open>file_map_create\<close> makes it, reaches the limit exactly.
\<close>

definition fm_pow2 :: "fileMap \<Rightarrow> bool" where
  "fm_pow2 fm \<longleftrightarrow> (\<exists>k\<le>24. max_n_files fm = 2 ^ k)"

lemma fm_pow2_double:
  assumes "fm_pow2 fm" "max_n_files fm < FILEMAP_MAX_SIZE"
  shows "2 * max_n_files fm \<le> FILEMAP_MAX_SIZE" "max_n_files fm' = 2 * max_n_files fm \<Longrightarrow> fm_pow2 fm'"
proof -
  obtain k where k: "k \<le> 24" "max_n_files fm = 2 ^ k"
    using assms by (auto simp: fm_pow2_def)
  with assms(2) have "k < 24"
    by (auto simp: fm_consts push_bit_eq_mult le_less)
  then have "(2::int) ^ Suc k \<le> 2 ^ 24"
    by (intro power_increasing) simp_all
  with k show "2 * max_n_files fm \<le> FILEMAP_MAX_SIZE"
    by (simp add: fm_consts push_bit_eq_mult)
  show "fm_pow2 fm'" if "max_n_files fm' = 2 * max_n_files fm"
    using that k \<open>k < 24\<close> by (auto simp: fm_pow2_def intro!: exI [of _ "Suc k"])
qed

lemma file_map_reserve_spec:
  assumes "fm_shape fm" "fm_pow2 fm" "n < FILEMAP_MAX_SIZE"
  shows "\<exists>fm'. file_map_reserve n fm = Some fm' \<and> fm_shape fm' \<and> fm_pow2 fm' \<and>
           fm_used fm' = fm_used fm \<and> n < max_n_files fm' \<and>
           max_n_files fm \<le> max_n_files fm' \<and> n_files_in_map fm' = n_files_in_map fm"
  using assms
proof (induction "nat (FILEMAP_MAX_SIZE - max_n_files fm)" arbitrary: fm rule: less_induct)
  case less
  show ?case
  proof (cases "max_n_files fm \<le> n")
    case True
    with less.prems have lt: "max_n_files fm < FILEMAP_MAX_SIZE"
      by simp
    note dbl = fm_pow2_double [OF less.prems(2) lt]
    have pos: "0 < max_n_files fm"
      using less.prems(1) by (simp add: fm_shape_def)
    obtain fm' where fm': "file_map_grow fm = Some fm'" "fm_shape fm'" "fm_used fm' = fm_used fm"
      "max_n_files fm' = 2 * max_n_files fm" "n_files_in_map fm' = n_files_in_map fm"
      using file_map_grow_spec [OF less.prems(1) dbl(1)] by auto
    have m: "nat (FILEMAP_MAX_SIZE - max_n_files fm') < nat (FILEMAP_MAX_SIZE - max_n_files fm)"
      using pos lt fm'(4) by simp
    from less.hyps [OF m fm'(2) dbl(2) [OF fm'(4)] less.prems(3)] True fm' pos show ?thesis
      by (auto simp: file_map_reserve.simps [of n fm])
  next
    case False
    with less.prems show ?thesis
      by (auto simp: file_map_reserve.simps [of n fm])
  qed
qed

definition fm_ok :: "fileMap \<Rightarrow> bool" where
  "fm_ok fm \<longleftrightarrow> fm_inv fm \<and> fm_pow2 fm"

lemma file_map_create_ok: "fm_ok file_map_create"
proof -
  have "max_n_files file_map_create = 2 ^ 14"
    by (simp add: file_map_create_def fm_consts push_bit_eq_mult Let_def)
  then show ?thesis
    by (auto simp: fm_ok_def file_map_create_inv fm_pow2_def intro!: exI [of _ 14])
qed

lemma fm_ok_shape: "fm_ok fm \<Longrightarrow> fm_shape fm"
  by (simp add: fm_ok_def fm_inv_def)

lemma finite_fm_used [simp]: "finite (fm_used fm)"
  by (simp add: fm_used_def)

lemma fm_shape_set_words:
  "fm_shape fm \<Longrightarrow> length ws = length (file_map fm) \<Longrightarrow>
     fm_shape (fm\<lparr>file_map := ws, n_files_in_map := c\<rparr>)"
  by (simp add: fm_shape_def)

lemma wbits_eq_length: "wbits (ws :: u64 list) = wbits (vs :: u64 list) \<longleftrightarrow> length ws = length vs"
  by (simp add: wbits_def)

lemma file_map_bit_set_ok:
  assumes "fm_ok fm" "int n < FILEMAP_MAX_SIZE" "n \<notin> fm_used fm"
  shows "\<exists>fm'. file_map_bit_set fm (int n) = Some (fm', int n) \<and> fm_ok fm' \<and>
           fm_used fm' = insert n (fm_used fm)"
proof -
  obtain g where g: "file_map_reserve (int n) fm = Some g" "fm_shape g" "fm_pow2 g"
      "fm_used g = fm_used fm" "int n < max_n_files g" "n_files_in_map g = n_files_in_map fm"
    using file_map_reserve_spec [of fm "int n"] assms by (auto simp: fm_ok_def fm_inv_def)
  then have "n < wbits (file_map g)"
    by (simp add: fm_bits)
  then obtain ws where ws: "fm_bit_put (file_map g) n = Some ws"
      "wbits ws = wbits (file_map g)" "fb.on ws = insert n (fb.on (file_map g))"
    using fb.put_on by blast
  let ?r = "g\<lparr>file_map := ws, n_files_in_map := n_files_in_map g + 1\<rparr>"
  have used: "fm_used ?r = insert n (fm_used fm)"
    using ws(3) g(4) by (simp add: fm_used_def fb_on)
  have "fm_ok ?r"
    using g ws(2) assms used
    by (simp add: fm_ok_def fm_inv_def fm_shape_set_words wbits_eq_length fm_pow2_def)
  moreover have "file_map_bit_set fm (int n) = Some (?r, int n)"
    using ws(1) g(1)
    by (auto simp: file_map_bit_set_def fm_bit_put_def bind_eq_Some_conv)
  ultimately show ?thesis
    using used by blast
qed

lemma file_map_bit_reset_ok:
  assumes "fm_ok fm" "n \<in> fm_used fm"
  shows "\<exists>fm'. file_map_bit_reset fm (int n) = Some fm' \<and> fm_ok fm' \<and>
           fm_used fm' = fm_used fm - {n}"
proof -
  have "n < wbits (file_map fm)"
    using assms(2) by (auto simp: fm_used_def dest: wb.on_less)
  then obtain ws where ws: "fm_bit_clr (file_map fm) n = Some ws"
      "wbits ws = wbits (file_map fm)" "fb.on ws = fb.on (file_map fm) - {n}"
    using fb.clr_on by blast
  let ?r = "fm\<lparr>file_map := ws, n_files_in_map := n_files_in_map fm - 1\<rparr>"
  have used: "fm_used ?r = fm_used fm - {n}"
    using ws(3) by (simp add: fm_used_def fb_on)
  have "card (fm_used fm) > 0"
    using assms(2) by (auto simp: card_gt_0_iff)
  then have "fm_ok ?r"
    using ws(2) assms used
    by (simp add: fm_ok_def fm_inv_def fm_shape_set_words wbits_eq_length fm_pow2_def of_nat_diff)
  moreover have "file_map_bit_reset fm (int n) = Some ?r"
    using ws(1) by (auto simp: file_map_bit_reset_def fm_bit_clr_def bind_eq_Some_conv)
  ultimately show ?thesis
    using used by blast
qed

subsection \<open>Allocation\<close>

lemma or_low_bits: "0 \<le> b \<Longrightarrow> b < 64 \<Longrightarrow> push_bit LONG_BIT_SHIFT (w::int) OR b = 64 * w + b"
  using push_bit_or_low [of b 6 w] by (simp add: LONG_BIT_SHIFT_def)

lemma all_ones_iff:
  assumes "w < length ws"
  shows "ws ! w = ALL_ONES \<longleftrightarrow> (\<forall>b<64. 64 * w + b \<in> wb.on (ws :: u64 list))"
proof -
  have ones: "ALL_ONES = - 1"
    by (simp add: ALL_ONES_def)
  have "64 * w + b \<in> wb.on ws \<longleftrightarrow> bit (ws ! w) b" if "b < 64" for b
    using that assms by (simp add: wb_on_iff wbits_index)
  then show ?thesis
    by (auto simp: bit_eq_iff ones)
qed

lemma file_map_scan_words_spec:
  assumes "fm_shape fm" "0 \<le> w" "w < nwords fm"
  shows "\<exists>w'. file_map_scan_words fm k w = Some w' \<and> 0 \<le> w' \<and> w' < nwords fm \<and>
           (file_map fm ! nat w' \<noteq> ALL_ONES \<or>
            (\<forall>i<k. file_map fm ! nat ((w + int i) mod nwords fm) = ALL_ONES))"
  using assms(2,3)
proof (induction k arbitrary: w)
  case (Suc k)
  have len: "nat w < length (file_map fm)"
    using assms(1) Suc.prems by (simp add: fm_shape_def)
  have nxt: "0 \<le> (w + 1) mod nwords fm" "(w + 1) mod nwords fm < nwords fm"
    using assms(1) by (simp_all add: fm_shape_def)
  show ?case
  proof (cases "file_map fm ! nat w = ALL_ONES")
    case True
    have shift: "((w + 1) mod nwords fm + int i) mod nwords fm = (w + int (Suc i)) mod nwords fm" for i
      by (simp add: mod_simps algebra_simps)
    obtain w' where w': "file_map_scan_words fm k ((w + 1) mod nwords fm) = Some w'"
        "0 \<le> w'" "w' < nwords fm"
        "file_map fm ! nat w' \<noteq> ALL_ONES \<or>
         (\<forall>i<k. file_map fm ! nat ((w + int (Suc i)) mod nwords fm) = ALL_ONES)"
      using Suc.IH [OF nxt] unfolding shift by blast
    moreover have "file_map fm ! nat ((w + int i) mod nwords fm) = ALL_ONES"
      if "\<forall>i<k. file_map fm ! nat ((w + int (Suc i)) mod nwords fm) = ALL_ONES" "i < Suc k" for i
      using that True Suc.prems by (cases i) simp_all
    ultimately show ?thesis
      using True len Suc.prems by (auto simp: arr_getz_def)
  qed (use len Suc.prems in \<open>auto simp: arr_getz_def\<close>)
qed auto

lemma file_map_scan_bits_spec:
  assumes "fm_shape fm" "b \<le> 64"
  shows "(\<exists>c\<ge>b. c < 64 \<and> file_map_scan_bits fm (int w) (int b) = Some (Some (int (64 * w + c))) \<and>
             64 * w + c \<notin> fm_used fm) \<or>
         file_map_scan_bits fm (int w) (int b) = Some None \<and> (\<forall>c. b \<le> c \<and> c < 64 \<longrightarrow> 64 * w + c \<in> fm_used fm)"
  using assms(2)
proof (induction "64 - b" arbitrary: b)
  case 0
  then show ?case
    by (auto simp: file_map_scan_bits.simps [of fm "int w" 64] BITS_IN_A_LONG_def)
next
  case (Suc d)
  then have lt: "b < 64" and d: "d = 64 - Suc b" "Suc b \<le> 64"
    by simp_all
  have unf: "file_map_scan_bits fm (int w) (int b) =
      (if 64 * w + b \<in> fm_used fm then file_map_scan_bits fm (int w) (int (Suc b))
       else Some (Some (int (64 * w + b))))"
    using lt or_low_bits [of "int b" "int w"] file_map_bit_test_spec [OF assms(1), of "64 * w + b"]
    by (simp add: file_map_scan_bits.simps [of fm "int w" "int b"] BITS_IN_A_LONG_def add.commute)
  show ?case
  proof (cases "64 * w + b \<in> fm_used fm")
    case True
    then have "64 * w + c \<in> fm_used fm"
      if "\<forall>c. Suc b \<le> c \<and> c < 64 \<longrightarrow> 64 * w + c \<in> fm_used fm" "b \<le> c" "c < 64" for c
      using that by (cases "c = b") auto
    with Suc.hyps(1) [OF d] unf True show ?thesis
      by (auto dest: Suc_leD)
  qed (use unf lt in auto)
qed

text \<open>The first part of an allocation, up to the decision to grow.\<close>

lemma file_map_scan_spec:
  assumes fm: "fm_shape fm" and w0: "0 \<le> w0" "w0 < nwords fm"
  shows "\<exists>w found. file_map_scan_words fm (nat (nwords fm)) w0 = Some w \<and>
           file_map_scan_bits fm w 0 = Some found \<and>
           (case found of
              Some s \<Rightarrow> \<exists>n. s = int n \<and> n \<notin> fm_used fm \<and> int n < max_n_files fm
            | None \<Rightarrow> fm_used fm = {..<nat (max_n_files fm)})"
proof -
  obtain w where w: "file_map_scan_words fm (nat (nwords fm)) w0 = Some w" "0 \<le> w" "w < nwords fm"
      "file_map fm ! nat w \<noteq> ALL_ONES \<or>
       (\<forall>i<nat (nwords fm). file_map fm ! nat ((w0 + int i) mod nwords fm) = ALL_ONES)"
    using file_map_scan_words_spec [OF fm w0] by blast
  have len: "length (file_map fm) = nat (nwords fm)" "max_n_files fm = 64 * nwords fm"
    using fm by (simp_all add: fm_shape_def)
  have full: "fm_used fm = {..<nat (max_n_files fm)}"
    if ones: "file_map fm ! nat w = ALL_ONES"
  proof -
    have all: "file_map fm ! j = ALL_ONES" if "j < nat (nwords fm)" for j
    proof -
      let ?i = "nat ((int j - w0) mod nwords fm)"
      have i: "?i < nat (nwords fm)" "int ?i = (int j - w0) mod nwords fm"
        using w0 by simp_all
      have "(w0 + int ?i) mod nwords fm = int j"
        using that w0 unfolding i(2) by (simp add: mod_simps)
      with ones w(4) i(1) show ?thesis
        by (metis nat_int)
    qed
    have "n \<in> fm_used fm" if "n < nat (max_n_files fm)" for n
    proof -
      have "n div 64 < nat (nwords fm)"
        using that len w by (simp add: div_less_iff_less_mult nat_mult_distrib mult.commute)
      with all [OF this] have "\<forall>b<64. 64 * (n div 64) + b \<in> fm_used fm"
        using all_ones_iff [of "n div 64" "file_map fm"] len by (simp add: fm_used_def)
      then have "64 * (n div 64) + n mod 64 \<in> fm_used fm"
        by (meson mod_less_divisor zero_less_numeral)
      then show ?thesis
        by (simp only: mult_div_mod_eq)
    qed
    then show ?thesis
      using fm_used_less [OF fm] by (auto simp: zless_nat_eq_int_zless)
  qed
  have lt: "int (64 * nat w + c) < max_n_files fm" if "c < 64" for c
    using that w len by simp
  show ?thesis
  proof (cases "file_map fm ! nat w = ALL_ONES")
    case True
    then have "\<forall>c<64. 64 * nat w + c \<in> fm_used fm"
      using all_ones_iff [of "nat w" "file_map fm"] len w by (simp add: fm_used_def)
    with file_map_scan_bits_spec [OF fm, of 0 "nat w"] w full [OF True] show ?thesis
      by auto
  next
    case False
    then have "\<not> (\<forall>c<64. 64 * nat w + c \<in> fm_used fm)"
      using all_ones_iff [of "nat w" "file_map fm"] len w by (simp add: fm_used_def)
    with file_map_scan_bits_spec [OF fm, of 0 "nat w"] w lt show ?thesis
      by fastforce
  qed
qed

lemma file_map_allocate_unfold:
  assumes fm: "fm_shape fm" and s: "0 \<le> s"
  shows "(\<exists>n. file_map_allocate fm s = Some (fm, int n) \<and> n \<notin> fm_used fm \<and> int n < max_n_files fm) \<or>
         fm_used fm = {..<nat (max_n_files fm)} \<and>
           file_map_allocate fm s = do {
             fm' \<leftarrow> file_map_grow fm; file_map_allocate fm' (drop_bit 1 (max_n_files fm')) }"
proof -
  define t where "t = (if max_n_files fm \<le> s then 0 else s)"
  have pos: "0 < nwords fm" "max_n_files fm = 64 * nwords fm"
    using fm by (simp_all add: fm_shape_def)
  then have t: "0 \<le> t" "t < max_n_files fm"
    using s by (auto simp: t_def)
  have w0: "0 \<le> drop_bit LONG_BIT_SHIFT t" "drop_bit LONG_BIT_SHIFT t < nwords fm"
    using t pos by (simp_all add: LONG_BIT_SHIFT_def drop_bit_eq_div div_less_iff_less_mult zdiv_int
        flip: minus_mod_eq_mult_div)
  have test: "file_map_bit_test fm t = Some (nat t \<in> fm_used fm)"
    using file_map_bit_test_spec [OF fm, of "nat t"] t by simp
  obtain w found where
      "file_map_scan_words fm (nat (nwords fm)) (drop_bit LONG_BIT_SHIFT t) = Some w"
      "file_map_scan_bits fm w 0 = Some found"
      "case found of Some s \<Rightarrow> \<exists>n. s = int n \<and> n \<notin> fm_used fm \<and> int n < max_n_files fm
        | None \<Rightarrow> fm_used fm = {..<nat (max_n_files fm)}"
    using file_map_scan_spec [OF fm w0] by blast
  then show ?thesis
    using test t
    by (cases "nat t \<in> fm_used fm"; cases found)
      (auto simp: file_map_allocate.simps [of fm s] Let_def simp flip: t_def intro!: exI [of _ "nat t"])
qed

text \<open>
  C9. \<open>file_map_allocate\<close> on a valid map always ends. It returns a number that is not
  allocated and below the capacity of the map it leaves, without changing the set of
  allocated numbers; a map with a free number is not touched at all. It fails only when every
  number is taken and the capacity cannot be doubled within \<open>FILEMAP_MAX_SIZE\<close>.
\<close>

theorem file_map_allocate_correct:
  assumes "fm_ok fm" "0 \<le> suggestion"
  shows "(case file_map_allocate fm suggestion of
            Some (fm', n) \<Rightarrow> fm_ok fm' \<and> fm_used fm' = fm_used fm \<and> 0 \<le> n \<and> n < max_n_files fm' \<and>
              file_map_bit_test fm' n = Some False \<and>
              (card (fm_used fm) < nat (max_n_files fm) \<longrightarrow> fm' = fm)
          | None \<Rightarrow> card (fm_used fm) = nat (max_n_files fm) \<and> max_n_files fm = FILEMAP_MAX_SIZE)"
proof -
  have fm: "fm_shape fm" "fm_pow2 fm" "max_n_files fm \<le> FILEMAP_MAX_SIZE" "0 < max_n_files fm"
    using assms by (auto simp: fm_ok_def fm_inv_def fm_shape_def)
  from file_map_allocate_unfold [OF fm(1) assms(2)] show ?thesis
  proof (elim disjE exE conjE)
    fix n
    assume "file_map_allocate fm suggestion = Some (fm, int n)" "n \<notin> fm_used fm"
      "int n < max_n_files fm"
    then show ?thesis
      using assms(1) by (simp add: file_map_bit_test_spec [OF fm(1)])
  next
    assume full: "fm_used fm = {..<nat (max_n_files fm)}"
      and eq: "file_map_allocate fm suggestion = do {
        fm' \<leftarrow> file_map_grow fm; file_map_allocate fm' (drop_bit 1 (max_n_files fm')) }"
    show ?thesis
    proof (cases "max_n_files fm = FILEMAP_MAX_SIZE")
      case True
      then have "file_map_grow fm = None"
        using fm(4) by (intro file_map_grow_fails) simp
      with True eq full show ?thesis
        by simp
    next
      case False
      with fm have lt: "max_n_files fm < FILEMAP_MAX_SIZE"
        by simp
      note dbl = fm_pow2_double [OF fm(2) lt]
      obtain g where g: "file_map_grow fm = Some g" "fm_shape g" "fm_used g = fm_used fm"
          "max_n_files g = 2 * max_n_files fm" "n_files_in_map g = n_files_in_map fm"
        using file_map_grow_spec [OF fm(1) dbl(1)] by auto
      have "drop_bit 1 (max_n_files g) = max_n_files fm"
        by (simp add: g(4) drop_bit_eq_div)
      moreover have "file_map_bit_test g (max_n_files fm) = Some False"
        using file_map_bit_test_spec [OF g(2), of "nat (max_n_files fm)"] g(3) full fm(4) by simp
      ultimately have "file_map_allocate fm suggestion = Some (g, max_n_files fm)"
        using eq g(1,4) fm(4) by (simp add: file_map_allocate.simps [of g])
      moreover have "fm_ok g"
        using assms(1) g dbl(2) [OF g(4)] by (simp add: fm_ok_def fm_inv_def)
      ultimately show ?thesis
        using g fm(4) full \<open>file_map_bit_test g (max_n_files fm) = Some False\<close> by simp
    qed
  qed
qed

theorem file_map_allocate_correct_witness:
  "fm_ok file_map_create \<and> (0::int) \<le> 7 \<and>
   (\<exists>n. file_map_allocate file_map_create 7 = Some (file_map_create, n) \<and>
        0 \<le> n \<and> n < 16384)"
proof -
  have c: "fm_used file_map_create = {}" "max_n_files file_map_create = 16384"
    by (rule file_map_create_inv, simp add: file_map_create_def Let_def FM_INITIAL_NUMBER_def)
  from file_map_allocate_correct [OF file_map_create_ok, of 7] c file_map_create_ok show ?thesis
    by (auto split: option.splits)
qed

text \<open>
  C10. The bits of the map behave as a set of numbers: \<open>file_map_bit_set\<close> of a free number
  within the limit grows the map as needed, adds exactly that number and returns it,
  \<open>file_map_bit_reset\<close> of an allocated number removes exactly that number,
  \<open>file_map_bit_test\<close> decides membership, and all keep the invariant that the counter
  \<open>n_files_in_map\<close> is the number of allocated numbers.
\<close>

theorem file_map_set_laws:
  assumes "fm_ok fm"
  shows "file_map_bit_test fm (int n) = Some (n \<in> fm_used fm) \<and>
    (int n < FILEMAP_MAX_SIZE \<and> n \<notin> fm_used fm \<longrightarrow>
      (\<exists>fm'. file_map_bit_set fm (int n) = Some (fm', int n) \<and> fm_ok fm' \<and>
        fm_used fm' = insert n (fm_used fm) \<and> n_files_in_map fm' = int (card (fm_used fm')))) \<and>
    (n \<in> fm_used fm \<longrightarrow>
      (\<exists>fm'. file_map_bit_reset fm (int n) = Some fm' \<and> fm_ok fm' \<and>
        fm_used fm' = fm_used fm - {n} \<and> n_files_in_map fm' = int (card (fm_used fm) - 1)))"
  using file_map_bit_test_spec [OF fm_ok_shape [OF assms]] file_map_bit_set_ok [OF assms, of n]
    file_map_bit_reset_ok [OF assms, of n]
  by (fastforce simp: fm_ok_def fm_inv_def)

theorem file_map_set_laws_witness:
  "fm_ok file_map_create \<and>
   (\<exists>fm. file_map_bit_set file_map_create 16384 = Some (fm, 16384) \<and> n_files_in_map fm = 1)"
  using file_map_set_laws [OF file_map_create_ok, of 16384] file_map_create_ok
  by (auto simp: file_map_create_inv FILEMAP_MAX_SIZE_def)

end
