(* ===== verification/Byte_Codec.thy ===== *)
theory Byte_Codec
  imports Lusca_Prelude
begin

unbundle bit_operations_syntax

text \<open>
  Integers laid out in memory: network order (\<open>htons\<close>, \<open>htonl\<close> and back, used by the DNS
  packets and the cache digests) and the little-endian order in which \<open>memcpy\<close> stores an
  \<open>int\<close> on the hosts this model stands for (swap file headers). A read past the end of the
  bytes is \<open>None\<close>.
\<close>

locale fixed_codec =
  fixes enc :: "'v \<Rightarrow> byte list"
    and dec :: "byte list \<Rightarrow> 'v option"
    and width :: nat
  assumes length_enc: "length (enc v) = width"
    and dec_enc: "dec (enc v @ rest) = Some v"
    and enc_dec: "dec bs = Some v \<Longrightarrow> take width bs = enc v"
    and dec_total: "width \<le> length bs \<Longrightarrow> dec bs \<noteq> None"
    and dec_short: "length bs < width \<Longrightarrow> dec bs = None"
begin

lemma dec_enc_self: "dec (enc v) = Some v"
  using dec_enc [of v "[]"] by simp

lemma dec_split: "dec bs = Some v \<longleftrightarrow> (\<exists>rest. bs = enc v @ rest)"
  using enc_dec [of bs v] append_take_drop_id [of width bs] by (metis dec_enc)

lemma inj_enc: "enc v = enc w \<longleftrightarrow> v = w"
  by (metis dec_enc_self option.inject)

lemma dec_in: "width \<le> length bs \<Longrightarrow> \<exists>v. dec bs = Some v"
  using dec_total by blast

end

definition enc_be16 :: "u16 \<Rightarrow> byte list" where
  "enc_be16 v = [ucast (drop_bit 8 v), ucast v]"

fun dec_be16 :: "byte list \<Rightarrow> u16 option" where
  "dec_be16 (a # b # _) = Some (push_bit 8 (ucast a) OR ucast b)"
| "dec_be16 _ = None"

definition enc_be32 :: "u32 \<Rightarrow> byte list" where
  "enc_be32 v = [ucast (drop_bit 24 v), ucast (drop_bit 16 v), ucast (drop_bit 8 v), ucast v]"

fun dec_be32 :: "byte list \<Rightarrow> u32 option" where
  "dec_be32 (a # b # c # d # _) =
     Some (push_bit 24 (ucast a) OR push_bit 16 (ucast b) OR push_bit 8 (ucast c) OR ucast d)"
| "dec_be32 _ = None"

definition enc_le32 :: "u32 \<Rightarrow> byte list" where
  "enc_le32 v = rev (enc_be32 v)"

fun dec_le32 :: "byte list \<Rightarrow> u32 option" where
  "dec_le32 (a # b # c # d # _) = dec_be32 [d, c, b, a]"
| "dec_le32 _ = None"

lemma be16_join: "(push_bit 8 (ucast (ucast (drop_bit 8 v) :: byte)) OR ucast (ucast v :: byte) :: u16) = v"
  by (rule bit_word_eqI) (auto simp: bit_simps)

lemma be16_split:
  "ucast (drop_bit 8 (push_bit 8 (ucast (a::byte)) OR ucast (b::byte) :: u16)) = a"
  "ucast (push_bit 8 (ucast (a::byte)) OR ucast (b::byte) :: u16) = b"
  by (rule bit_word_eqI; auto simp: bit_simps dest: bit_imp_le_length)+

lemma be32_join:
  "(push_bit 24 (ucast (ucast (drop_bit 24 v) :: byte)) OR push_bit 16 (ucast (ucast (drop_bit 16 v) :: byte))
     OR push_bit 8 (ucast (ucast (drop_bit 8 v) :: byte)) OR ucast (ucast v :: byte) :: u32) = v" (is "?l = v")
proof (rule bit_word_eqI)
  fix n
  assume "n < LENGTH(32)"
  then consider "n < 8" | "8 \<le> n" "n < 16" | "16 \<le> n" "n < 24" | "24 \<le> n" "n < 32"
    by force
  then show "bit ?l n = bit v n"
    by cases (auto simp: bit_simps)
qed

lemma be32_split:
  fixes a b c d :: byte
  defines "w \<equiv> (push_bit 24 (ucast a) OR push_bit 16 (ucast b) OR push_bit 8 (ucast c) OR ucast d :: u32)"
  shows "ucast (drop_bit 24 w) = a" "ucast (drop_bit 16 w) = b" "ucast (drop_bit 8 w) = c" "ucast w = d"
  unfolding w_def by (rule bit_word_eqI; auto simp: bit_simps dest: bit_imp_le_length)+

lemma list_ge_2: "2 \<le> length xs \<longleftrightarrow> (\<exists>a b r. xs = a # b # r)"
  by (auto simp: numeral_2_eq_2 Suc_le_length_iff)

lemma list_ge_4: "4 \<le> length xs \<longleftrightarrow> (\<exists>a b c d r. xs = a # b # c # d # r)"
  by (auto simp: numeral_eq_Suc Suc_le_length_iff)

interpretation be16: fixed_codec enc_be16 dec_be16 2
proof
  fix bs v
  show "take 2 bs = enc_be16 v" if "dec_be16 bs = Some v"
    using that by (cases bs rule: dec_be16.cases) (auto simp: enc_be16_def be16_split simp del: drop_bit_or)
  show "dec_be16 bs \<noteq> None" if "2 \<le> length bs"
    using that by (auto simp: list_ge_2)
  show "dec_be16 bs = None" if "length bs < 2"
    using that by (cases bs rule: dec_be16.cases) auto
qed (simp_all add: enc_be16_def be16_join)

interpretation be32: fixed_codec enc_be32 dec_be32 4
proof
  fix bs v
  show "take 4 bs = enc_be32 v" if "dec_be32 bs = Some v"
    using that by (cases bs rule: dec_be32.cases) (auto simp: enc_be32_def be32_split simp del: drop_bit_or)
  show "dec_be32 bs \<noteq> None" if "4 \<le> length bs"
    using that by (auto simp: list_ge_4)
  show "dec_be32 bs = None" if "length bs < 4"
    using that by (cases bs rule: dec_be32.cases) auto
qed (simp_all add: enc_be32_def be32_join)

interpretation le32: fixed_codec enc_le32 dec_le32 4
proof
  fix bs v rest
  show "dec_le32 (enc_le32 v @ rest) = Some v"
    by (simp add: enc_le32_def enc_be32_def be32_join)
  show "take 4 bs = enc_le32 v" if "dec_le32 bs = Some v"
    using that
    by (cases bs rule: dec_le32.cases) (auto simp: enc_le32_def enc_be32_def be32_split simp del: drop_bit_or)
  show "dec_le32 bs \<noteq> None" if "4 \<le> length bs"
    using that by (auto simp: list_ge_4)
  show "dec_le32 bs = None" if "length bs < 4"
    using that by (cases bs rule: dec_le32.cases) auto
qed (simp add: enc_le32_def enc_be32_def)

end
