(* ===== verification/Cache_Digest.thy ===== *)
theory Cache_Digest
  imports Bit_Array Byte_Codec
begin

unbundle bit_operations_syntax

text \<open>
  Cache digests, \<^verbatim>\<open>src/CacheDigest.c\<close>: the Bloom filter in which a cache tells its peers what it
  holds. A key is the 16 bytes of an MD5 digest. Signed overflow of a size or a counter, a
  failed assertion, a division by zero and an access outside the mask are \<open>None\<close>. The bits are
  used through the contract \<open>bit_array\<close>, by its interpretation \<open>cb\<close> on the \<open>CBIT\<close> macros.
  The pool allocator, the debug output and the reports printed for the cache manager are not
  modelled; the number that \<open>cacheDigestAdd\<close> hands to its histogram is part of its result.
\<close>

type_synonym cache_key = "byte list"

record CacheDigest =
  cd_mask :: "byte list"
  mask_size :: int
  capacity :: int
  bits_per_entry :: int
  cd_count :: int
  del_count :: int

record CacheDigestStats =
  bit_count :: int
  bit_on_count :: int
  bseq_len_sum :: int
  bseq_count :: int

record cd_guess_stats =
  true_hits :: int
  false_hits :: int
  true_misses :: int
  false_misses :: int

text \<open>The sum is computed as an \<open>int\<close> and then converted to \<open>size_t\<close>.\<close>

definition cacheDigestCalcMaskSize :: "int \<Rightarrow> int \<Rightarrow> int option" where
  "cacheDigestCalcMaskSize cap bpe = do {
     c_assert (int_range (cap * bpe) \<and> int_range (cap * bpe + 7));
     Some (((cap * bpe + 7) mod 2 ^ 64) div 8)
   }"

definition cacheDigestInit :: "CacheDigest \<Rightarrow> int \<Rightarrow> int \<Rightarrow> CacheDigest option" where
  "cacheDigestInit cd cap bpe = do {
     msize \<leftarrow> cacheDigestCalcMaskSize cap bpe;
     c_assert (cap > 0 \<and> bpe > 0);
     c_assert (msize > 0);
     Some (cd\<lparr>capacity := cap, bits_per_entry := bpe, mask_size := msize,
             cd_mask := replicate (nat msize) 0\<rparr>)
   }"

definition cacheDigestCreate :: "int \<Rightarrow> int \<Rightarrow> CacheDigest option" where
  "cacheDigestCreate cap bpe = cacheDigestInit
     \<lparr>cd_mask = [], mask_size = 0, capacity = 0, bits_per_entry = 0, cd_count = 0, del_count = 0\<rparr>
     cap bpe"

definition cacheDigestClean :: "CacheDigest \<Rightarrow> CacheDigest" where
  "cacheDigestClean cd = cd\<lparr>cd_mask := []\<rparr>"

definition cacheDigestClone :: "CacheDigest \<Rightarrow> CacheDigest option" where
  "cacheDigestClone cd = do {
     clone \<leftarrow> cacheDigestCreate (capacity cd) (bits_per_entry cd);
     let clone = clone\<lparr>cd_count := cd_count cd, del_count := del_count cd\<rparr>;
     c_assert (mask_size cd = mask_size clone);
     Some (clone\<lparr>cd_mask := take (nat (mask_size cd)) (cd_mask cd)\<rparr>)
   }"

definition cacheDigestClear :: "CacheDigest \<Rightarrow> CacheDigest" where
  "cacheDigestClear cd =
     cd\<lparr>cd_count := 0, del_count := 0, cd_mask := replicate (nat (mask_size cd)) 0\<rparr>"

definition cacheDigestChangeCap :: "CacheDigest \<Rightarrow> int \<Rightarrow> CacheDigest option" where
  "cacheDigestChangeCap cd new_cap = cacheDigestInit (cacheDigestClean cd) new_cap (bits_per_entry cd)"

text \<open>
  The four words of the key in network order, reduced modulo the number of bits; \<open>hashed_keys\<close>
  is a static array that every caller fills just before it reads it.
\<close>

definition cacheDigestHashKey :: "CacheDigest \<Rightarrow> cache_key \<Rightarrow> nat list option" where
  "cacheDigestHashKey cd key = do {
     c_assert (int_range (mask_size cd * 8));
     let bcount = (word_of_int (mask_size cd * 8) :: u32);
     c_assert (bcount \<noteq> 0);
     k0 \<leftarrow> dec_be32 key;
     k1 \<leftarrow> dec_be32 (drop 4 key);
     k2 \<leftarrow> dec_be32 (drop 8 key);
     k3 \<leftarrow> dec_be32 (drop 12 key);
     Some [unat (k0 mod bcount), unat (k1 mod bcount), unat (k2 mod bcount), unat (k3 mod bcount)]
   }"

text \<open>The conjunction is short-circuited: a bit is read only when those before it are on.\<close>

fun cbit_test_all :: "byte list \<Rightarrow> nat list \<Rightarrow> bool option" where
  "cbit_test_all bm [] = Some True"
| "cbit_test_all bm (h # hs) = do {
     t \<leftarrow> CBIT_TEST bm h;
     if t then cbit_test_all bm hs else Some False
   }"

definition cacheDigestTest :: "CacheDigest \<Rightarrow> cache_key \<Rightarrow> bool option" where
  "cacheDigestTest cd key = do {
     hashed_keys \<leftarrow> cacheDigestHashKey cd key;
     cbit_test_all (cd_mask cd) hashed_keys
   }"

fun cbit_set_all :: "byte list \<Rightarrow> nat list \<Rightarrow> nat \<Rightarrow> (byte list \<times> nat) option" where
  "cbit_set_all bm [] on_xition_cnt = Some (bm, on_xition_cnt)"
| "cbit_set_all bm (h # hs) on_xition_cnt = do {
     t \<leftarrow> CBIT_TEST bm h;
     if \<not> t then do {
       bm' \<leftarrow> CBIT_SET bm h;
       cbit_set_all bm' hs (on_xition_cnt + 1)
     } else cbit_set_all bm hs on_xition_cnt
   }"

definition cacheDigestAdd :: "CacheDigest \<Rightarrow> cache_key \<Rightarrow> (CacheDigest \<times> nat) option" where
  "cacheDigestAdd cd key = do {
     hashed_keys \<leftarrow> cacheDigestHashKey cd key;
     (bm, on_xition_cnt) \<leftarrow> cbit_set_all (cd_mask cd) hashed_keys 0;
     c_assert (int_range (cd_count cd + 1));
     Some (cd\<lparr>cd_mask := bm, cd_count := cd_count cd + 1\<rparr>, on_xition_cnt)
   }"

definition cacheDigestDel :: "CacheDigest \<Rightarrow> cache_key \<Rightarrow> CacheDigest option" where
  "cacheDigestDel cd key = do {
     c_assert (int_range (del_count cd + 1));
     Some (cd\<lparr>del_count := del_count cd + 1\<rparr>)
   }"

text \<open>
  The loop of \<open>cacheDigestStats\<close>, from the last bit of the mask down to bit 0. The tuple holds
  \<open>on_count\<close>, \<open>seq_len_sum\<close>, \<open>seq_count\<close>, \<open>cur_seq_len\<close> and \<open>cur_seq_type\<close>.
\<close>

definition stats_range :: "int \<times> int \<times> int \<times> int \<times> bool \<Rightarrow> bool" where
  "stats_range = (\<lambda>(on_count, seq_len_sum, seq_count, cur_seq_len, cur_seq_type).
     int_range on_count \<and> int_range seq_len_sum \<and> int_range seq_count \<and> int_range cur_seq_len)"

fun cacheDigestStats_loop ::
  "byte list \<Rightarrow> nat \<Rightarrow> int \<times> int \<times> int \<times> int \<times> bool \<Rightarrow> (int \<times> int \<times> int \<times> int \<times> bool) option" where
  "cacheDigestStats_loop bm 0 st = Some st"
| "cacheDigestStats_loop bm (Suc pos) (on_count, seq_len_sum, seq_count, cur_seq_len, cur_seq_type) = do {
     is_on \<leftarrow> CBIT_TEST bm pos;
     let on_count' = (if is_on then on_count + 1 else on_count);
     let st = (if is_on \<noteq> cur_seq_type \<or> pos = 0
               then (on_count', seq_len_sum + cur_seq_len, seq_count + 1, 1, is_on)
               else (on_count', seq_len_sum, seq_count, cur_seq_len + 1, cur_seq_type));
     c_assert (stats_range st);
     cacheDigestStats_loop bm pos st
   }"

definition cacheDigestStats :: "CacheDigest \<Rightarrow> CacheDigestStats option" where
  "cacheDigestStats cd = do {
     c_assert (int_range (mask_size cd * 8));
     (on_count, seq_len_sum, seq_count, _, _) \<leftarrow>
       cacheDigestStats_loop (cd_mask cd) (nat (mask_size cd * 8)) (0, 0, 0, 0, True);
     Some \<lparr>bit_count = mask_size cd * 8, bit_on_count = on_count,
           bseq_len_sum = seq_len_sum, bseq_count = seq_count\<rparr>
   }"

definition cacheDigestGuessStatsUpdate :: "cd_guess_stats \<Rightarrow> bool \<Rightarrow> bool \<Rightarrow> cd_guess_stats option" where
  "cacheDigestGuessStatsUpdate st real_hit guess_hit =
     (if real_hit then
        if guess_hit then do { c_assert (int_range (true_hits st + 1)); Some (st\<lparr>true_hits := true_hits st + 1\<rparr>) }
        else do { c_assert (int_range (false_misses st + 1)); Some (st\<lparr>false_misses := false_misses st + 1\<rparr>) }
      else
        if guess_hit then do { c_assert (int_range (false_hits st + 1)); Some (st\<lparr>false_hits := false_hits st + 1\<rparr>) }
        else do { c_assert (int_range (true_misses st + 1)); Some (st\<lparr>true_misses := true_misses st + 1\<rparr>) })"

section \<open>Invariant\<close>

definition cd_inv :: "CacheDigest \<Rightarrow> bool" where
  "cd_inv cd \<longleftrightarrow> 0 < mask_size cd \<and> mask_size cd * 8 < 2 ^ 31 \<and>
     length (cd_mask cd) = nat (mask_size cd)"

definition key_ok :: "cache_key \<Rightarrow> bool" where
  "key_ok key \<longleftrightarrow> length key = 16"

text \<open>The four bit positions of a key in a digest.\<close>

definition cd_positions :: "CacheDigest \<Rightarrow> cache_key \<Rightarrow> nat set" where
  "cd_positions cd key = (case cacheDigestHashKey cd key of None \<Rightarrow> {} | Some hs \<Rightarrow> set hs)"

lemma unat_of_int_u32: "0 \<le> x \<Longrightarrow> x < 2 ^ 32 \<Longrightarrow> unat (word_of_int x :: u32) = nat x"
  by (simp add: unsigned_of_int take_bit_int_eq_self)

lemma cacheDigestHashKey_ok:
  assumes "cd_inv cd" "key_ok key"
  shows "\<exists>hs. cacheDigestHashKey cd key = Some hs \<and> (\<forall>h\<in>set hs. h < wbits (cd_mask cd))"
proof -
  define bc where "bc = (word_of_int (mask_size cd * 8) :: u32)"
  have u: "unat bc = nat (mask_size cd * 8)"
    unfolding bc_def using assms(1) by (intro unat_of_int_u32) (auto simp: cd_inv_def)
  have b: "bc \<noteq> 0" "unat bc = wbits (cd_mask cd)"
    using assms(1) u by (auto simp: cd_inv_def wbits_def nat_mult_distrib simp flip: unat_eq_zero)
  have lt: "unat (k mod bc) < wbits (cd_mask cd)" for k
    using b by (simp add: unat_mod flip: unat_eq_zero)
  obtain k0 k1 k2 k3 where "dec_be32 key = Some k0" "dec_be32 (drop 4 key) = Some k1"
      "dec_be32 (drop 8 key) = Some k2" "dec_be32 (drop 12 key) = Some k3"
    using be32.dec_in [of key] be32.dec_in [of "drop 4 key"] be32.dec_in [of "drop 8 key"]
      be32.dec_in [of "drop 12 key"] assms(2) by (auto simp: key_ok_def)
  moreover have "int_range (mask_size cd * 8)"
    using assms(1) by (simp add: cd_inv_def int_range_def)
  ultimately show ?thesis
    using b(1) lt unfolding cacheDigestHashKey_def Let_def bc_def [symmetric] by simp
qed

lemma cbit_test_all_spec:
  "\<forall>h\<in>set hs. h < wbits bm \<Longrightarrow> cbit_test_all bm hs = Some (set hs \<subseteq> cb.on bm)"
  by (induction hs) (auto simp: cb.test_on)

lemma cbit_set_all_spec:
  "\<forall>h\<in>set hs. h < wbits bm \<Longrightarrow>
     \<exists>bm'. cbit_set_all bm hs c = Some (bm', c + card (set hs - cb.on bm)) \<and>
       wbits bm' = wbits bm \<and> cb.on bm' = cb.on bm \<union> set hs"
proof (induction hs arbitrary: bm c)
  case (Cons h hs)
  then have h: "h < wbits bm"
    by simp
  show ?case
  proof (cases "h \<in> cb.on bm")
    case True
    then have "set (h # hs) - cb.on bm = set hs - cb.on bm"
      by auto
    with Cons.IH [of bm c] Cons.prems True cb.test_on [OF h] show ?thesis
      by (auto simp: insert_absorb)
  next
    case False
    obtain bm' where bm': "CBIT_SET bm h = Some bm'" "wbits bm' = wbits bm"
        "cb.on bm' = insert h (cb.on bm)"
      using cb.put_on [OF h] by blast
    have "set (h # hs) - cb.on bm = insert h (set hs - cb.on bm')"
      using False bm'(3) by auto
    then have "card (set (h # hs) - cb.on bm) = Suc (card (set hs - cb.on bm'))"
      by (simp add: bm'(3))
    with Cons.IH [of bm' "c + 1"] Cons.prems False bm' cb.test_on [OF h] show ?thesis
      by auto
  qed
qed simp

lemma wbits_byte_length: "wbits (bm :: byte list) = 8 * length bm"
  by (simp add: wbits_def)

lemma cacheDigestTest_spec:
  assumes "cd_inv cd" "key_ok key"
  shows "cacheDigestTest cd key = Some (cd_positions cd key \<subseteq> cb.on (cd_mask cd))"
  using cacheDigestHashKey_ok [OF assms]
  by (auto simp: cacheDigestTest_def cd_positions_def cbit_test_all_spec)

lemma cacheDigestAdd_spec:
  assumes "cd_inv cd" "key_ok key" "int_range (cd_count cd + 1)"
  shows "\<exists>cd'. cacheDigestAdd cd key = Some (cd', card (cd_positions cd key - cb.on (cd_mask cd))) \<and>
           cd_inv cd' \<and> cb.on (cd_mask cd') = cb.on (cd_mask cd) \<union> cd_positions cd key \<and>
           cd_count cd' = cd_count cd + 1 \<and> del_count cd' = del_count cd \<and>
           mask_size cd' = mask_size cd"
proof -
  obtain hs where hs: "cacheDigestHashKey cd key = Some hs" "\<forall>h\<in>set hs. h < wbits (cd_mask cd)"
    using cacheDigestHashKey_ok [OF assms(1,2)] by blast
  from cbit_set_all_spec [OF hs(2), of 0] hs(1) assms(1,3) show ?thesis
    by (auto simp: cacheDigestAdd_def cd_positions_def cd_inv_def wbits_byte_length)
qed

lemma cd_positions_mask_size: "mask_size cd' = mask_size cd \<Longrightarrow> cd_positions cd' = cd_positions cd"
  by (simp add: fun_eq_iff cd_positions_def cacheDigestHashKey_def)

section \<open>Histories of a digest\<close>

text \<open>What the owner of a digest does with it after creation.\<close>

datatype digest_op = Digest_add cache_key | Digest_del cache_key

fun digest_key :: "digest_op \<Rightarrow> cache_key" where
  "digest_key (Digest_add k) = k"
| "digest_key (Digest_del k) = k"

fun digest_run :: "CacheDigest \<Rightarrow> digest_op list \<Rightarrow> CacheDigest option" where
  "digest_run cd [] = Some cd"
| "digest_run cd (Digest_add k # ops) = do { (cd', _) \<leftarrow> cacheDigestAdd cd k; digest_run cd' ops }"
| "digest_run cd (Digest_del k # ops) = do { cd' \<leftarrow> cacheDigestDel cd k; digest_run cd' ops }"

definition added :: "digest_op list \<Rightarrow> cache_key list" where
  "added ops = concat (map (\<lambda>oper. case oper of Digest_add k \<Rightarrow> [k] | Digest_del k \<Rightarrow> []) ops)"

lemma added_simps [simp]:
  "added [] = []" "added (Digest_add k # ops) = k # added ops" "added (Digest_del k # ops) = added ops"
  by (simp_all add: added_def)

lemma digest_run_spec:
  "cd_inv cd \<Longrightarrow> \<forall>oper\<in>set ops. key_ok (digest_key oper) \<Longrightarrow>
     0 \<le> cd_count cd \<Longrightarrow> cd_count cd + int (length ops) < 2 ^ 31 \<Longrightarrow>
     0 \<le> del_count cd \<Longrightarrow> del_count cd + int (length ops) < 2 ^ 31 \<Longrightarrow>
     \<exists>cd'. digest_run cd ops = Some cd' \<and> cd_inv cd' \<and> mask_size cd' = mask_size cd \<and>
       cb.on (cd_mask cd') = cb.on (cd_mask cd) \<union> (\<Union>k\<in>set (added ops). cd_positions cd k) \<and>
       cd_count cd' = cd_count cd + int (length (added ops)) \<and>
       del_count cd' = del_count cd + int (length ops - length (added ops)) \<and>
       length (added ops) \<le> length ops"
proof (induction ops arbitrary: cd)
  case (Cons oper ops)
  show ?case
  proof (cases oper)
    case (Digest_add k)
    obtain c where c: "cacheDigestAdd cd k = Some (c, card (cd_positions cd k - cb.on (cd_mask cd)))"
        "cd_inv c" "cb.on (cd_mask c) = cb.on (cd_mask cd) \<union> cd_positions cd k"
        "cd_count c = cd_count cd + 1" "del_count c = del_count cd" "mask_size c = mask_size cd"
      using cacheDigestAdd_spec [of cd k] Cons.prems Digest_add by (auto simp: int_range_def)
    from Cons.IH [OF c(2)] Cons.prems(2-) c cd_positions_mask_size [OF c(6)] Digest_add show ?thesis
      by auto
  next
    case (Digest_del k)
    define d where "d = cd\<lparr>del_count := del_count cd + 1\<rparr>"
    have d: "cacheDigestDel cd k = Some d" "cd_inv d" "cd_positions d = cd_positions cd"
      "cd_mask d = cd_mask cd" "mask_size d = mask_size cd" "cd_count d = cd_count cd" "del_count d = del_count cd + 1"
      using Cons.prems by (auto simp: cacheDigestDel_def cd_inv_def d_def int_range_def intro!: cd_positions_mask_size)
    from Cons.IH [OF d(2)] Cons.prems(2-) d Digest_del show ?thesis
      by (auto simp: Suc_diff_le)
  qed
qed simp

lemma calcMaskSize_bounds:
  assumes "0 < cap" "0 < bpe" "cacheDigestCalcMaskSize cap bpe = Some m"
  shows "0 < m" "m * 8 < 2 ^ 31" "cap * bpe \<le> m * 8"
proof -
  have r: "int_range (cap * bpe)" "int_range (cap * bpe + 7)" "m = ((cap * bpe + 7) mod 2 ^ 64) div 8"
    using assms(3) by (auto simp: cacheDigestCalcMaskSize_def bind_eq_Some_conv)
  have pos: "0 < cap * bpe"
    using assms by simp
  then have m: "m = (cap * bpe + 7) div 8"
    using r by (simp add: int_range_def)
  define x where "x = cap * bpe"
  define y where "y = (x + 7) mod 8"
  have "8 * m + y = x + 7" "0 \<le> y" "y < 8"
    unfolding m y_def x_def by (simp_all only: mult_div_mod_eq pos_mod_sign pos_mod_bound zero_less_numeral)
  then show "0 < m" "m * 8 < 2 ^ 31" "cap * bpe \<le> m * 8"
    using r(2) pos unfolding int_range_def x_def [symmetric] by simp_all
qed

lemma cacheDigestInit_spec:
  assumes "cacheDigestInit cd cap bpe = Some cd'"
  shows "cd_inv cd'" "cb.on (cd_mask cd') = {}" "cap * bpe \<le> mask_size cd' * 8"
  using assms calcMaskSize_bounds [of cap bpe "mask_size cd'"]
  by (auto simp: cacheDigestInit_def bind_eq_Some_conv cd_inv_def cb_on)

text \<open>
  C18. A digest never denies what was put into it. Starting from a fresh digest, any history
  of fewer than \<open>2 ^ 31\<close> additions and deletion attempts, which its counters can hold, runs without
  failure; afterwards the digest is still
  valid, its counters count the additions and the deletions, and the test of a key is true
  exactly when each of its four bits is a bit of some added key, in particular for every key
  that was added, deleted later or not.
\<close>

theorem digest_membership:
  assumes "cacheDigestCreate cap bpe = Some cd" "\<forall>oper\<in>set ops. key_ok (digest_key oper)"
    and "length ops < 2 ^ 31"
  shows "\<exists>cd'. digest_run cd ops = Some cd' \<and> cd_inv cd' \<and>
           cd_count cd' = int (length (added ops)) \<and>
           del_count cd' = int (length ops - length (added ops)) \<and>
           (\<forall>key. key_ok key \<longrightarrow> cacheDigestTest cd' key =
              Some (cd_positions cd key \<subseteq> (\<Union>k\<in>set (added ops). cd_positions cd k))) \<and>
           (\<forall>key\<in>set (added ops). cacheDigestTest cd' key = Some True)"
proof -
  note new = cacheDigestInit_spec [OF assms(1) [unfolded cacheDigestCreate_def]]
  have c: "cd_count cd = 0" "del_count cd = 0"
    using assms(1) by (auto simp: cacheDigestCreate_def cacheDigestInit_def bind_eq_Some_conv)
  obtain d where d: "digest_run cd ops = Some d" "cd_inv d" "mask_size d = mask_size cd"
      "cb.on (cd_mask d) = (\<Union>k\<in>set (added ops). cd_positions cd k)"
      "cd_count d = int (length (added ops))"
      "del_count d = int (length ops - length (added ops))"
    using digest_run_spec [OF new(1) assms(2)] new(2) c assms(3) by auto
  have ok: "key_ok k" if "k \<in> set (added ops)" for k
    using that assms(2) by (force simp: added_def split: digest_op.splits)
  have "cacheDigestTest d key = Some (cd_positions cd key \<subseteq> cb.on (cd_mask d))" if "key_ok key" for key
    using cacheDigestTest_spec [OF d(2) that] cd_positions_mask_size [OF d(3)] by simp
  with d ok show ?thesis
    by (auto 0 3)
qed

definition ex_key :: cache_key where
  "ex_key = [0, 0, 0, 1, 0, 0, 0, 2, 0, 0, 0, 3, 0, 0, 1, 0]"

theorem digest_membership_witness:
  "\<exists>cd cd'. cacheDigestCreate 10 5 = Some cd \<and>
     digest_run cd [Digest_add ex_key, Digest_del ex_key] = Some cd' \<and>
     cacheDigestTest cd' ex_key = Some True \<and> cd_count cd' = 1 \<and> del_count cd' = 1"
proof -
  obtain cd where cd: "cacheDigestCreate 10 5 = Some cd"
    by (simp add: cacheDigestCreate_def cacheDigestInit_def cacheDigestCalcMaskSize_def int_range_def)
  from digest_membership [OF cd, of "[Digest_add ex_key, Digest_del ex_key]"] cd show ?thesis
    by (auto simp: key_ok_def ex_key_def)
qed

lemma cacheDigestStats_loop_spec:
  assumes "n \<le> wbits bm" "0 \<le> c" "0 \<le> s" "0 \<le> q" "0 \<le> l"
    and "c + int n < 2 ^ 31" "s + l + int n < 2 ^ 31" "q + int n < 2 ^ 31"
  shows "\<exists>len cnt ty. cacheDigestStats_loop bm n (c, s, q, l, t) =
     Some (c + int (card (cb.on bm \<inter> {..<n})), len, cnt, ty) \<and>
     (if n = 0 then len = s else len = s + l + int n - 1)"
  using assms
proof (induction n arbitrary: c s q l t)
  case (Suc n)
  define c' where "c' = (if n \<in> cb.on bm then c + 1 else c)"
  have c': "0 \<le> c'" "c' + int n < 2 ^ 31" "c' + int (card (cb.on bm \<inter> {..<n})) = c + int (card (cb.on bm \<inter> {..<Suc n}))"
    using Suc.prems by (auto simp: c'_def lessThan_Suc Int_insert_right)
  have test: "CBIT_TEST bm n = Some (n \<in> cb.on bm)"
    using Suc.prems by (simp add: cb.test_on)
  show ?case
  proof (cases "(n \<in> cb.on bm) \<noteq> t \<or> n = 0")
    case True
    have "stats_range (c', s + l, q + 1, 1, n \<in> cb.on bm)"
      using Suc.prems c' by (simp add: stats_range_def int_range_def)
    then have "cacheDigestStats_loop bm (Suc n) (c, s, q, l, t) = cacheDigestStats_loop bm n (c', s + l, q + 1, 1, n \<in> cb.on bm)"
      using test True by (simp add: Let_def c'_def)
    then show ?thesis
      using Suc.IH [of c' "s + l" "q + 1" 1 "n \<in> cb.on bm"] Suc.prems c' by (cases "n = 0") auto
  next
    case False
    have "stats_range (c', s, q, l + 1, t)"
      using Suc.prems c' by (simp add: stats_range_def int_range_def)
    then have "cacheDigestStats_loop bm (Suc n) (c, s, q, l, t) = cacheDigestStats_loop bm n (c', s, q, l + 1, t)"
      using test False by (simp add: Let_def c'_def)
    then show ?thesis
      using Suc.IH [of c' s q "l + 1" t] Suc.prems c' False by auto
  qed
qed simp

text \<open>
  C22. \<open>cacheDigestStats\<close> never fails on a valid digest and reports the exact number of bits
  that are on. The sum of the bit sequence lengths it reports is always one less than the
  number of bits, because the length of the sequence that holds bit 0 is added before that
  bit is counted.
\<close>

theorem cacheDigestStats_correct:
  assumes "cd_inv cd"
  shows "\<exists>st. cacheDigestStats cd = Some st \<and> bit_count st = mask_size cd * 8 \<and>
           bit_on_count st = int (card (cb.on (cd_mask cd))) \<and>
           bseq_len_sum st = bit_count st - 1"
proof -
  have n: "nat (mask_size cd * 8) = wbits (cd_mask cd)" "wbits (cd_mask cd) \<noteq> 0"
    using assms by (auto simp: cd_inv_def wbits_byte_length nat_mult_distrib)
  have "cb.on (cd_mask cd) \<inter> {..<wbits (cd_mask cd)} = cb.on (cd_mask cd)"
    using cb.on_subset by blast
  moreover have "int (wbits (cd_mask cd)) < 2 ^ 31" "int_range (mask_size cd * 8)"
    using assms n(1) [symmetric] by (simp_all add: cd_inv_def int_range_def)
  ultimately show ?thesis
    using cacheDigestStats_loop_spec [OF order_refl, of 0 0 0 0 "cd_mask cd" True] n assms
    by (auto simp: cacheDigestStats_def cd_inv_def)
qed

theorem cacheDigestStats_correct_witness:
  "\<exists>cd st. cacheDigestCreate 10 5 = Some cd \<and> cacheDigestStats cd = Some st \<and>
     bit_on_count st = 0 \<and> bit_count st = 56 \<and> bseq_len_sum st = 55"
proof -
  obtain cd where cd: "cacheDigestCreate 10 5 = Some cd" "mask_size cd = 7"
    by (simp add: cacheDigestCreate_def cacheDigestInit_def cacheDigestCalcMaskSize_def int_range_def)
  note new = cacheDigestInit_spec [OF cd(1) [unfolded cacheDigestCreate_def]]
  from cacheDigestStats_correct [OF new(1)] new(2) cd show ?thesis
    by auto
qed

section \<open>Copies and resets\<close>

lemma cacheDigestClone_same:
  assumes "cacheDigestInit c0 (capacity cd) (bits_per_entry cd) = Some c1"
    and "mask_size cd = mask_size c1" "cd_inv cd"
  shows "cacheDigestClone cd = Some cd"
  using assms
  by (auto simp: cacheDigestClone_def cacheDigestCreate_def cacheDigestInit_def bind_eq_Some_conv
      cd_inv_def)

lemma cacheDigestClear_spec:
  assumes "cd_inv cd"
  shows "cd_inv (cacheDigestClear cd)" "cb.on (cd_mask (cacheDigestClear cd)) = {}"
    "cd_count (cacheDigestClear cd) = 0"
  using assms by (simp_all add: cacheDigestClear_def cd_inv_def cb_on)

lemma guess_stats_total:
  fixes st defines "tot \<equiv> \<lambda>st. true_hits st + false_hits st + true_misses st + false_misses st"
  assumes "cacheDigestGuessStatsUpdate st r g = Some st'"
  shows "tot st' = tot st + 1"
  using assms by (auto simp: tot_def cacheDigestGuessStatsUpdate_def bind_eq_Some_conv split: if_splits)

end
