(* ===== verification/Swap_Meta.thy ===== *)
theory Swap_Meta
  imports Byte_Codec
begin

unbundle bit_operations_syntax

text \<open>
  The header of a swap file: a list of type-length-value items (\<^verbatim>\<open>libsqtlv/tlv.c\<close>), its packed
  form on disk (\<^verbatim>\<open>libsqstore/store_meta.c\<close>), the list the cache builds for an entry
  (\<^verbatim>\<open>src/store_swapmeta.c\<close>), and the parser the directory rebuild helpers use
  (\<^verbatim>\<open>libsqstore/rebuild_entry.c\<close>). The model is of a 64-bit little-endian host without
  \<open>HTTP_GZIP\<close>: \<open>size_t\<close>, \<open>time_t\<close> and \<open>squid_file_sz\<close> have 8 bytes. A linked list of items is a list,
  \<open>NULL\<close> the empty one. A buffer is the list of its bytes, and a read past its end is \<open>None\<close>.
\<close>

section \<open>Items\<close>

record tlv =
  tlv_type :: byte
  tlv_length :: int
  tlv_value :: "byte list"

definition read_int :: "byte list \<Rightarrow> int \<Rightarrow> int option" where
  "read_int buf j = do { bs \<leftarrow> mem_read buf j 4; w \<leftarrow> dec_le32 bs; Some (sint w) }"

definition int_bytes :: "int \<Rightarrow> byte list" where
  "int_bytes i = enc_le32 (word_of_int i)"

text \<open>The tail pointer of the source is the end of the list.\<close>

definition tlv_add :: "byte \<Rightarrow> byte list \<Rightarrow> int \<Rightarrow> tlv list \<Rightarrow> tlv list option" where
  "tlv_add ty src len ts = do {
     v \<leftarrow> mem_read src 0 len;
     Some (ts @ [\<lparr>tlv_type = ty, tlv_length = len, tlv_value = v\<rparr>])
   }"

definition STORE_META_OK :: byte where "STORE_META_OK = 0x03"

definition STORE_META_VOID :: int where "STORE_META_VOID = 0"
definition STORE_META_KEY_MD5 :: byte where "STORE_META_KEY_MD5 = 3"
definition STORE_META_URL :: byte where "STORE_META_URL = 4"
definition STORE_META_STD :: byte where "STORE_META_STD = 5"
definition STORE_META_VARY_HEADERS :: byte where "STORE_META_VARY_HEADERS = 8"
definition STORE_META_STD_LFS :: byte where "STORE_META_STD_LFS = 9"
definition STORE_META_OBJSIZE :: byte where "STORE_META_OBJSIZE = 10"
definition STORE_META_STOREURL :: byte where "STORE_META_STOREURL = 11"
definition STORE_META_END :: int where "STORE_META_END = 12"

named_theorems meta_consts \<open>the item types\<close>

lemmas [meta_consts] = STORE_META_VOID_def STORE_META_KEY_MD5_def STORE_META_URL_def
  STORE_META_STD_def STORE_META_VARY_HEADERS_def STORE_META_STD_LFS_def STORE_META_OBJSIZE_def
  STORE_META_STOREURL_def STORE_META_END_def

text \<open>
  The loop that the two unpackers share. Comparing \<open>buflen - j\<close> with a \<open>sizeof\<close> converts it to
  \<open>size_t\<close>, so that a negative difference is a large number there. The difference and the sum
  \<open>j + length\<close> are computed in \<open>int\<close>, where an overflow is undefined.
\<close>

function tlv_unpack_loop :: "byte list \<Rightarrow> int \<Rightarrow> int \<Rightarrow> int \<Rightarrow> tlv list \<Rightarrow> tlv list option" where
  "tlv_unpack_loop buf max_metaid buflen j ts =
     (if \<not> int_range (buflen - j) then None
      else if size_t (buflen - j) \<ge> 5 then do {
        ty \<leftarrow> arr_getz buf j;
        let j = j + 1;
        if sint ty \<le> STORE_META_VOID \<or> sint ty > max_metaid then Some ts
        else do {
          len \<leftarrow> read_int buf j;
          if len < 0 \<or> len > 65536 then Some ts
          else do {
            let j = j + 4;
            c_assert (int_range (j + len));
            if j + len > buflen then Some ts
            else do {
              ts \<leftarrow> tlv_add ty (drop (nat j) buf) len ts;
              tlv_unpack_loop buf max_metaid buflen (j + len) ts
            }
          }
        }
      }
      else Some ts)"
  by auto
termination
  by (relation "measure (\<lambda>(_, _, buflen, j, _). nat (buflen - j))") auto

declare tlv_unpack_loop.simps [simp del]

text \<open>The results are the list and the new value of \<open>*hdr_len\<close>.\<close>

definition tlv_unpack :: "byte list \<Rightarrow> int \<Rightarrow> int \<Rightarrow> (tlv list \<times> int) option" where
  "tlv_unpack buf hdr_len max_metaid = do {
     magic \<leftarrow> arr_get buf 0;
     if magic \<noteq> STORE_META_OK then Some ([], hdr_len)
     else do {
       buflen \<leftarrow> read_int buf 1;
       if size_t buflen > size_t (hdr_len - 1 - 4) then Some ([], hdr_len)
       else if size_t buflen \<le> 5 then Some ([], hdr_len)
       else do {
         ts \<leftarrow> tlv_unpack_loop buf max_metaid buflen 5 [];
         Some (ts, buflen)
       }
     }
   }"

section \<open>Packing and unpacking of store metadata\<close>

fun meta_size :: "int \<Rightarrow> tlv list \<Rightarrow> int option" where
  "meta_size buflen [] = Some buflen"
| "meta_size buflen (t # ts) = do {
     c_assert (int_range (buflen + (1 + 4 + tlv_length t)));
     meta_size (buflen + (1 + 4 + tlv_length t)) ts
   }"

text \<open>
  The writes fill the allocated buffer from the left; \<open>storeSwapMetaPack_items\<close> gives the bytes
  written, and the final assertion compares their number with the computed size.
\<close>

fun storeSwapMetaPack_items :: "tlv list \<Rightarrow> byte list option" where
  "storeSwapMetaPack_items [] = Some []"
| "storeSwapMetaPack_items (t # ts) = do {
     v \<leftarrow> mem_read (tlv_value t) 0 (tlv_length t);
     rest \<leftarrow> storeSwapMetaPack_items ts;
     Some (tlv_type t # int_bytes (tlv_length t) @ v @ rest)
   }"

definition storeSwapMetaPack :: "tlv list \<Rightarrow> (byte list \<times> int) option" where
  "storeSwapMetaPack tlv_list = do {
     buflen \<leftarrow> meta_size (1 + 4) tlv_list;
     items \<leftarrow> storeSwapMetaPack_items tlv_list;
     let buf = STORE_META_OK # int_bytes buflen @ items;
     c_assert (int (length buf) = buflen);
     Some (buf, buflen)
   }"

definition storeSwapMetaUnpack :: "byte list \<Rightarrow> int \<Rightarrow> (tlv list \<times> int) option" where
  "storeSwapMetaUnpack buf hdr_len = do {
     magic \<leftarrow> arr_get buf 0;
     if magic \<noteq> STORE_META_OK then Some ([], hdr_len)
     else do {
       buflen \<leftarrow> read_int buf 1;
       if size_t buflen \<le> 5 then Some ([], hdr_len)
       else do {
         ts \<leftarrow> tlv_unpack_loop buf (STORE_META_END + 10) buflen 5 [];
         Some (ts, buflen)
       }
     }
   }"

section \<open>The header of a store entry\<close>

text \<open>
  What \<open>storeSwapMetaBuild\<close> reads of an entry: whether it has a memory object and is in the
  state \<open>SWAPOUT_WRITING\<close>, its key, the \<open>STORE_HDR_METASIZE\<close> bytes from the
  field \<open>timestamp\<close> on, the result of \<open>objectLen\<close>, and the strings of its memory object.
\<close>

record meta_entry =
  me_mem_obj :: bool
  me_swapout_writing :: bool
  me_key :: "byte list"
  me_std :: "byte list"
  me_url :: "byte list"
  me_objsize :: int
  me_vary :: "byte list option"
  me_store_url :: "byte list option"

definition STORE_HDR_METASIZE :: int where "STORE_HDR_METASIZE = 4 * 8 + 2 * 2 + 8"

definition off_bytes :: "int \<Rightarrow> byte list" where
  "off_bytes i = (let w = word_of_int i :: u64 in enc_le32 (ucast w) @ enc_le32 (ucast (drop_bit 32 w)))"

definition tlv_add_str :: "byte \<Rightarrow> byte list \<Rightarrow> tlv list \<Rightarrow> tlv list option" where
  "tlv_add_str ty s ts = tlv_add ty (s @ [0]) (int (length s) + 1) ts"

definition storeSwapMetaBuild :: "meta_entry \<Rightarrow> tlv list option" where
  "storeSwapMetaBuild e = do {
     c_assert (me_mem_obj e);
     c_assert (me_swapout_writing e);
     ts \<leftarrow> tlv_add STORE_META_KEY_MD5 (me_key e) 16 [];
     ts \<leftarrow> tlv_add STORE_META_STD (me_std e) STORE_HDR_METASIZE ts;
     ts \<leftarrow> tlv_add_str STORE_META_URL (me_url e) ts;
     ts \<leftarrow> (if me_objsize e > - 1 then tlv_add STORE_META_OBJSIZE (off_bytes (me_objsize e)) 8 ts
            else Some ts);
     ts \<leftarrow> (case me_vary e of None \<Rightarrow> Some ts | Some vary \<Rightarrow> tlv_add_str STORE_META_VARY_HEADERS vary ts);
     (case me_store_url e of None \<Rightarrow> Some ts | Some u \<Rightarrow> tlv_add_str STORE_META_STOREURL u ts)
   }"

definition storeSwapMetaAssemblePart :: "byte list \<Rightarrow> byte \<Rightarrow> byte list \<Rightarrow> int \<Rightarrow> byte list option" where
  "storeSwapMetaAssemblePart buf t b l = do {
     v \<leftarrow> mem_read b 0 l;
     Some (buf @ t # int_bytes l @ v)
   }"

text \<open>
  The writes of \<open>storeSwapMetaAssemble\<close> go through a pointer into a buffer of \<open>buflen\<close> bytes: more
  bytes than that would be a write outside it, which the last line of the definition excludes
  together with the assertion of the source.
\<close>

definition storeSwapMetaAssemble :: "meta_entry \<Rightarrow> (byte list \<times> int) option" where
  "storeSwapMetaAssemble e = do {
     c_assert (me_mem_obj e);
     let v_len = (case me_vary e of None \<Rightarrow> 0 | Some v \<Rightarrow> int (length v));
     let u_len = int (length (me_url e));
     let s_len = (case me_store_url e of None \<Rightarrow> 0 | Some s \<Rightarrow> int (length s));
     let buflen = 4 + 1 + (16 + STORE_HDR_METASIZE + u_len + 8 + v_len + s_len + 3) + (1 + 4) * 6;
     c_assert (int_range buflen);
     b \<leftarrow> storeSwapMetaAssemblePart [] STORE_META_OK (int_bytes buflen) 4;
     b \<leftarrow> storeSwapMetaAssemblePart b STORE_META_KEY_MD5 (me_key e) 16;
     b \<leftarrow> storeSwapMetaAssemblePart b STORE_META_STD (me_std e) STORE_HDR_METASIZE;
     b \<leftarrow> storeSwapMetaAssemblePart b STORE_META_URL (me_url e @ [0]) (u_len + 1);
     b \<leftarrow> (if me_objsize e > - 1
           then storeSwapMetaAssemblePart b STORE_META_OBJSIZE (off_bytes (me_objsize e)) 8
           else Some b);
     b \<leftarrow> (case me_vary e of None \<Rightarrow> Some b
           | Some v \<Rightarrow> storeSwapMetaAssemblePart b STORE_META_VARY_HEADERS (v @ [0]) (v_len + 1));
     b \<leftarrow> (case me_store_url e of None \<Rightarrow> Some b
           | Some s \<Rightarrow> storeSwapMetaAssemblePart b STORE_META_STOREURL (s @ [0]) (s_len + 1));
     c_assert (int (length b) < buflen);
     Some (b, int (length b))
   }"

section \<open>The parser of the rebuild helpers\<close>

text \<open>\<open>re_mi\<close> is the 48 bytes of the structure \<open>storeMetaIndexNew\<close>.\<close>

record rebuild_entry =
  re_mi :: "byte list"
  re_md5_key :: "byte list option"
  re_url :: "byte list option"
  re_file_size :: int
  re_hdr_size :: int
  re_swap_filen :: int

definition rebuild_entry_init :: rebuild_entry where
  "rebuild_entry_init = \<lparr>re_mi = replicate 48 0, re_md5_key = None, re_url = None,
     re_file_size = - 1, re_hdr_size = - 1, re_swap_filen = - 1\<rparr>"

definition read_off :: "byte list \<Rightarrow> int option" where
  "read_off v = do {
     lo \<leftarrow> dec_le32 v;
     hi \<leftarrow> dec_le32 (drop 4 v);
     Some (sint (push_bit 32 (ucast hi) OR ucast lo :: u64))
   }"

fun parse_header_items :: "tlv list \<Rightarrow> rebuild_entry \<Rightarrow> nat \<Rightarrow> (rebuild_entry \<times> nat) option" where
  "parse_header_items [] re parsed = Some (re, parsed)"
| "parse_header_items (t # ts) re parsed =
     (if tlv_type t = STORE_META_URL then do {
        s \<leftarrow> c_str (tlv_value t);
        parse_header_items ts (re\<lparr>re_url := Some s\<rparr>) (parsed + 1)
      }
      else if tlv_type t = STORE_META_KEY_MD5 then do {
        k \<leftarrow> mem_read (tlv_value t) 0 16;
        parse_header_items ts (re\<lparr>re_md5_key := Some k\<rparr>) (parsed + 1)
      }
      else if tlv_type t = STORE_META_STD_LFS then do {
        mi \<leftarrow> mem_read (tlv_value t) 0 48;
        parse_header_items ts (re\<lparr>re_mi := mi\<rparr>) (parsed + 1)
      }
      else if tlv_type t = STORE_META_OBJSIZE then do {
        sz \<leftarrow> read_off (tlv_value t);
        parse_header_items ts (re\<lparr>re_file_size := sz\<rparr>) (parsed + 1)
      }
      else parse_header_items ts re parsed)"

text \<open>The integer result is \<open>-1\<close>, \<open>0\<close> or \<open>1\<close> as in the source.\<close>

definition parse_header :: "byte list \<Rightarrow> int \<Rightarrow> rebuild_entry \<Rightarrow> (rebuild_entry \<times> int) option" where
  "parse_header buf len re = do {
     (tlv_list, bl) \<leftarrow> tlv_unpack buf len (STORE_META_END + 10);
     if tlv_list = [] then Some (re, - 1)
     else do {
       (re, parsed) \<leftarrow> parse_header_items tlv_list (re\<lparr>re_hdr_size := bl\<rparr>) 0;
       Some (re, if parsed > 1 then 1 else 0)
     }
   }"

section \<open>Reading back what was written\<close>

lemma length_int_bytes [simp]: "length (int_bytes i) = 4"
  by (simp add: int_bytes_def le32.length_enc)

lemma sint_word_of_int_range: "int_range i \<Longrightarrow> sint (word_of_int i :: u32) = i"
  by (simp add: int_range_def signed_of_int signed_take_bit_int_eq_self)

lemma read_int_append:
  "int_range i \<Longrightarrow> read_int (pre @ int_bytes i @ rest) (int (length pre)) = Some i"
  by (simp add: read_int_def mem_read_append) (simp add: int_bytes_def le32.dec_enc_self sint_word_of_int_range)

lemma read_int_in: "0 \<le> j \<Longrightarrow> j + 4 \<le> int (length buf) \<Longrightarrow> \<exists>i. read_int buf j = Some i"
  using mem_read_in [of j 4 buf] by (fastforce simp: read_int_def dest: le32.dec_in [OF eq_refl [OF sym]])

lemma arr_getz_append [simp]: "arr_getz (pre @ b # rest) (int (length pre)) = Some b"
  by simp

text \<open>The items that the unpackers accept, and the bytes they are packed into.\<close>

definition tlv_ok :: "int \<Rightarrow> tlv \<Rightarrow> bool" where
  "tlv_ok max_metaid t \<longleftrightarrow> 0 < sint (tlv_type t) \<and> sint (tlv_type t) \<le> max_metaid \<and>
     tlv_length t = int (length (tlv_value t)) \<and> length (tlv_value t) \<le> 65536"

definition item_bytes :: "tlv \<Rightarrow> byte list" where
  "item_bytes t = tlv_type t # int_bytes (tlv_length t) @ tlv_value t"

definition items_bytes :: "tlv list \<Rightarrow> byte list" where
  "items_bytes ts = concat (map item_bytes ts)"

lemma items_bytes_simps [simp]:
  "items_bytes [] = []" "items_bytes (t # ts) = item_bytes t @ items_bytes ts"
  by (simp_all add: items_bytes_def)

lemma length_item_bytes: "length (item_bytes t) = 5 + length (tlv_value t)"
  by (simp add: item_bytes_def)

lemma tlv_ok_int_range: "tlv_ok m t \<Longrightarrow> int_range (tlv_length t)"
  by (simp add: tlv_ok_def int_range_def)

lemma tlv_unpack_step:
  assumes t: "tlv_ok max_metaid t" and j: "j = int (length pre)"
    and len: "j + int (length (item_bytes t)) \<le> buflen" "buflen < 2 ^ 31"
  shows "tlv_unpack_loop (pre @ item_bytes t @ rest) max_metaid buflen j acc =
         tlv_unpack_loop (pre @ item_bytes t @ rest) max_metaid buflen
           (j + int (length (item_bytes t))) (acc @ [t])"
proof -
  define buf where "buf = pre @ item_bytes t @ rest"
  let ?v = "tlv_value t"
  have ty: "arr_getz buf j = Some (tlv_type t)"
    by (simp add: j item_bytes_def buf_def)
  have b1: "buf = (pre @ [tlv_type t]) @ int_bytes (tlv_length t) @ ?v @ rest"
    by (simp add: item_bytes_def buf_def)
  have rd: "read_int buf (j + 1) = Some (tlv_length t)"
    unfolding b1 j using read_int_append [OF tlv_ok_int_range [OF t], of "pre @ [tlv_type t]"]
    by (simp add: add.commute)
  have drp: "drop (nat (j + 5)) buf = ?v @ rest"
    by (simp add: item_bytes_def j nat_add_distrib buf_def)
  have l: "tlv_length t = int (length ?v)" "0 < sint (tlv_type t)" "sint (tlv_type t) \<le> max_metaid"
    "length ?v \<le> 65536"
    using t by (simp_all add: tlv_ok_def)
  have add: "tlv_add (tlv_type t) (?v @ rest) (int (length ?v)) acc = Some (acc @ [t])"
    by (simp add: tlv_add_def mem_read_prefix flip: l(1))
  have "5 \<le> buflen - j" "buflen - j < 2 ^ 64" "j + 5 + tlv_length t = j + int (length (item_bytes t))"
      "int_range (buflen - j)" "int_range (j + 5 + tlv_length t)" "int_range (j + (5 + tlv_length t))"
    using len l by (simp_all add: length_item_bytes j int_range_def)
  then show ?thesis
    unfolding buf_def [symmetric] using l len
    by (subst tlv_unpack_loop.simps)
      (simp add: ty rd drp add STORE_META_VOID_def length_item_bytes Let_def add.assoc)
qed

lemma tlv_unpack_loop_end: "0 \<le> buflen - j \<Longrightarrow> buflen - j < 5 \<Longrightarrow> tlv_unpack_loop buf m buflen j acc = Some acc"
  by (subst tlv_unpack_loop.simps) (simp add: int_range_def)

lemma tlv_unpack_loop_items:
  assumes "\<forall>t\<in>set ts. tlv_ok m t" "buflen = int (length pre + length (items_bytes ts))" "buflen < 2 ^ 31"
  shows "tlv_unpack_loop (pre @ items_bytes ts @ rest) m buflen (int (length pre)) acc = Some (acc @ ts)"
  using assms
proof (induction ts arbitrary: pre acc)
  case Nil
  then show ?case
    by (simp add: tlv_unpack_loop_end)
next
  case (Cons t ts)
  have "tlv_unpack_loop (pre @ items_bytes (t # ts) @ rest) m buflen (int (length pre)) acc =
      tlv_unpack_loop ((pre @ item_bytes t) @ items_bytes ts @ rest) m buflen
        (int (length (pre @ item_bytes t))) (acc @ [t])"
    using tlv_unpack_step [of m t "int (length pre)" pre buflen "items_bytes ts @ rest" acc] Cons.prems
    by simp
  also have "\<dots> = Some ((acc @ [t]) @ ts)"
    using Cons.prems by (intro Cons.IH) auto
  finally show ?case
    by simp
qed

lemma meta_size_ok:
  "\<forall>t\<in>set ts. tlv_ok m t \<Longrightarrow> 0 \<le> n \<Longrightarrow> n + int (length (items_bytes ts)) < 2 ^ 31 \<Longrightarrow>
     meta_size n ts = Some (n + int (length (items_bytes ts)))"
  by (induction ts arbitrary: n) (auto simp: tlv_ok_def length_item_bytes int_range_def)

lemma pack_items_ok:
  "\<forall>t\<in>set ts. tlv_ok m t \<Longrightarrow> storeSwapMetaPack_items ts = Some (items_bytes ts)"
  by (induction ts) (auto simp: tlv_ok_def mem_read_prefix item_bytes_def)

lemma storeSwapMetaPack_ok:
  assumes "\<forall>t\<in>set ts. tlv_ok m t" "5 + int (length (items_bytes ts)) < 2 ^ 31"
  shows "storeSwapMetaPack ts = Some (STORE_META_OK # int_bytes (5 + int (length (items_bytes ts))) @
           items_bytes ts, 5 + int (length (items_bytes ts)))"
  using assms by (simp add: storeSwapMetaPack_def meta_size_ok pack_items_ok)

lemma unpack_prefix:
  assumes "\<forall>t\<in>set ts. tlv_ok m t" "ts \<noteq> []" "n = 5 + int (length (items_bytes ts))" "n < 2 ^ 31"
    and "buf = (STORE_META_OK # int_bytes n @ items_bytes ts) @ rest"
  shows "arr_get buf 0 = Some STORE_META_OK" "read_int buf 1 = Some n"
    "tlv_unpack_loop buf m n 5 [] = Some ts" "5 < n"
proof -
  show "arr_get buf 0 = Some STORE_META_OK"
    by (simp add: assms(5))
  show "read_int buf 1 = Some n"
    using read_int_append [of n "[STORE_META_OK]" "items_bytes ts @ rest"] assms
    by (simp add: int_range_def)
  show "tlv_unpack_loop buf m n 5 [] = Some ts"
    using tlv_unpack_loop_items [of ts m n "STORE_META_OK # int_bytes n" rest "[]"] assms by simp
  show "5 < n"
    using assms(2,3) by (cases ts) (auto simp: length_item_bytes)
qed

text \<open>
  C15. Packing a non-empty list of well-formed items and unpacking the bytes, whatever follows
  them in the buffer, gives the list back; the length that both report is the length of the
  packed header. Neither fails.
\<close>

theorem storeSwapMeta_roundtrip:
  assumes "\<forall>t\<in>set ts. tlv_ok (STORE_META_END + 10) t" "ts \<noteq> []"
    and "5 + int (length (items_bytes ts)) < 2 ^ 31"
  shows "\<exists>buf n. storeSwapMetaPack ts = Some (buf, n) \<and> n = int (length buf) \<and>
           storeSwapMetaUnpack (buf @ rest) h = Some (ts, n)"
proof -
  let ?n = "5 + int (length (items_bytes ts))"
  let ?buf = "STORE_META_OK # int_bytes ?n @ items_bytes ts"
  have "storeSwapMetaPack ts = Some (?buf, ?n)"
    using storeSwapMetaPack_ok [OF assms(1,3)] .
  moreover have "storeSwapMetaUnpack (?buf @ rest) h = Some (ts, ?n)"
    using unpack_prefix [OF assms(1,2) refl assms(3) refl] assms(3)
    unfolding storeSwapMetaUnpack_def by (simp del: append_Cons append.simps)
  ultimately show ?thesis
    by simp
qed

definition ex_items :: "tlv list" where
  "ex_items = [\<lparr>tlv_type = 4, tlv_length = 2, tlv_value = [65, 0]\<rparr>,
               \<lparr>tlv_type = 3, tlv_length = 0, tlv_value = []\<rparr>]"

lemma ex_items_ok:
  "\<forall>t\<in>set ex_items. tlv_ok (STORE_META_END + 10) t" "ex_items \<noteq> []"
  "5 + int (length (items_bytes ex_items)) = 17"
  by (simp_all add: ex_items_def tlv_ok_def STORE_META_END_def length_item_bytes)

theorem storeSwapMeta_roundtrip_witness:
  "\<exists>buf. storeSwapMetaPack ex_items = Some (buf, 17) \<and>
     storeSwapMetaUnpack (buf @ [9, 9]) 0 = Some (ex_items, 17)"
  using storeSwapMeta_roundtrip [OF ex_items_ok(1,2), of "[9, 9]" 0] ex_items_ok(3)
    storeSwapMetaPack_ok [OF ex_items_ok(1)]
  by auto

section \<open>Arbitrary bytes\<close>

lemma tlv_unpack_loop_safe:
  assumes "0 \<le> j" "j \<le> buflen" "buflen \<le> int (length buf)" "buflen < 2 ^ 31 - 2 ^ 16" "\<forall>t\<in>set ts. tlv_ok m t"
  shows "\<exists>us. tlv_unpack_loop buf m buflen j ts = Some us \<and> (\<forall>t\<in>set us. tlv_ok m t)"
  using assms
proof (induction buf m buflen j ts rule: tlv_unpack_loop.induct)
  case (1 buf m buflen j ts)
  show ?case
  proof (cases "5 \<le> buflen - j")
    case False
    then show ?thesis
      using "1.prems" by (simp add: tlv_unpack_loop_end)
  next
    case True
    then have more: "size_t (buflen - j) \<ge> 5" "int_range (buflen - j)" "\<not> \<not> int_range (buflen - j)"
      using "1.prems" by (simp_all add: int_range_def)
    obtain ty where ty: "arr_getz buf j = Some ty"
      using "1.prems" True by (simp add: arr_getz_def)
    obtain len where len: "read_int buf (j + 1) = Some len"
      using read_int_in [of "j + 1" buf] "1.prems" True by auto
    show ?thesis
    proof (cases "sint ty \<le> STORE_META_VOID \<or> sint ty > m \<or> len < 0 \<or> len > 65536 \<or> j + 5 + len > buflen")
      case True
      have "int_range (j + (5 + len))" if "0 \<le> len" "len \<le> 65536"
        using that "1.prems" \<open>5 \<le> buflen - j\<close> by (simp add: int_range_def)
      with True show ?thesis
        using more ty len "1.prems" by (subst tlv_unpack_loop.simps) (auto simp: Let_def add.assoc)
    next
      case False
      then have f: "\<not> (sint ty \<le> STORE_META_VOID \<or> sint ty > m)" "\<not> (len < 0 \<or> len > 65536)"
          "\<not> (j + 1 + 4 + len > buflen)"
        by auto
      have fit: "int_range (j + 1 + 4 + len)" "c_assert (int_range (j + 1 + 4 + len)) = Some ()"
        using f "1.prems" by (simp_all add: int_range_def)
      have "int (length (drop (nat (j + 1 + 4)) buf)) \<ge> len"
        using f "1.prems" by (simp add: of_nat_diff nat_le_iff)
      then obtain v where v: "mem_read (drop (nat (j + 1 + 4)) buf) 0 len = Some v" "length v = nat len"
        using mem_read_in [of 0 len "drop (nat (j + 1 + 4)) buf"] f by auto
      let ?ts = "ts @ [\<lparr>tlv_type = ty, tlv_length = len, tlv_value = v\<rparr>]"
      have add: "tlv_add ty (drop (nat (j + 1 + 4)) buf) len ts = Some ?ts"
        unfolding tlv_add_def v(1) by simp
      have "\<forall>t\<in>set ?ts. tlv_ok m t"
        using "1.prems" f v(2) by (auto simp: tlv_ok_def STORE_META_VOID_def nat_le_iff)
      with "1.IH" [OF more(3,1) ty refl f(1) len f(2) refl fit(2) f(3) add] "1.prems" f
      show ?thesis
        using more(1,2) ty len f add fit(1) by (subst tlv_unpack_loop.simps) (simp add: Let_def)
    qed
  qed
qed

text \<open>
  C16. \<open>tlv_unpack\<close> is safe on arbitrary input: given at least the five bytes of the prefix and
  a length \<open>hdr_len\<close> that does not exceed the buffer and is below two gigabytes by more than the
  largest item, no sum overflows; it reads only inside the buffer, ends,
  and returns only items with a type from 1 to \<open>max_metaid\<close> and a value of the stated length
  of at most 65536 bytes, together with a header length that leaves room for the prefix.
\<close>

theorem tlv_unpack_safe:
  assumes "5 \<le> hdr_len" "hdr_len \<le> int (length buf)" "hdr_len < 2 ^ 31 - 2 ^ 16"
  shows "\<exists>ts h. tlv_unpack buf hdr_len max_metaid = Some (ts, h) \<and>
           (\<forall>t\<in>set ts. tlv_ok max_metaid t) \<and> (ts \<noteq> [] \<longrightarrow> 5 < h \<and> h + 5 \<le> hdr_len)"
proof -
  obtain magic where magic: "arr_get buf 0 = Some magic"
    using assms by (cases buf) (auto simp: arr_get_def)
  obtain n where n: "read_int buf 1 = Some n"
    using read_int_in [of 1 buf] assms by auto
  show ?thesis
  proof (cases "magic = STORE_META_OK \<and> \<not> size_t n > size_t (hdr_len - 1 - 4) \<and> \<not> size_t n \<le> 5")
    case True
    obtain w :: u32 where w: "n = sint w"
      using n by (auto simp: read_int_def bind_eq_Some_conv)
    have r: "int_range n"
      using sint_greater_eq [of w] sint_less [of w] by (simp add: int_range_def w)
    have "size_t n = size_t (n + 2 ^ 64)"
      by (simp add: size_t_def)
    then have neg: "size_t n = n + 2 ^ 64" if "n < 0"
      using that r by (simp add: int_range_def)
    have "0 \<le> n" "n + 5 \<le> hdr_len" "5 < n"
      using True r assms neg by (cases "n < 0"; auto simp: int_range_def)+
    with tlv_unpack_loop_safe [of 5 n buf "[]" max_metaid] True assms magic n show ?thesis
      by (auto simp: tlv_unpack_def)
  qed (use magic n in \<open>auto simp: tlv_unpack_def\<close>)
qed

theorem tlv_unpack_safe_witness:
  "\<exists>buf ts h. tlv_unpack buf 22 (STORE_META_END + 10) = Some (ts, h) \<and> ts \<noteq> [] \<and>
     (\<forall>t\<in>set ts. tlv_ok (STORE_META_END + 10) t) \<and> h + 5 \<le> 22"
proof -
  define buf where "buf = (STORE_META_OK # int_bytes 17 @ items_bytes ex_items) @ replicate 5 0"
  note pre = unpack_prefix [OF ex_items_ok(1,2) ex_items_ok(3) [symmetric] _ buf_def]
  have "tlv_unpack buf 22 (STORE_META_END + 10) = Some (ex_items, 17)"
    using pre unfolding tlv_unpack_def by simp
  moreover have "int (length buf) = 22"
    using ex_items_ok(3) by (simp add: buf_def)
  ultimately show ?thesis
    using tlv_unpack_safe [of 22 buf "STORE_META_END + 10"] ex_items_ok(2) by auto
qed

text \<open>
  C23. The length check of \<open>tlv_unpack\<close> counts the five bytes of the prefix twice: a buffer that
  holds exactly one packed header, which \<open>storeSwapMetaUnpack\<close> reads back, is rejected, and so
  is every length up to four bytes larger. With five more bytes the items are returned.
\<close>

theorem tlv_unpack_packed:
  assumes "\<forall>t\<in>set ts. tlv_ok (STORE_META_END + 10) t" "ts \<noteq> []"
    and "storeSwapMetaPack ts = Some (buf, n)" "n + 5 < 2 ^ 31" "5 \<le> hdr_len" "hdr_len < 2 ^ 31"
  shows "tlv_unpack (buf @ rest) hdr_len (STORE_META_END + 10) =
           (if hdr_len < n + 5 then Some ([], hdr_len) else Some (ts, n))"
proof -
  have size: "meta_size 5 ts = Some n"
    using assms(3) by (auto simp: storeSwapMetaPack_def bind_eq_Some_conv)
  have items: "buf = STORE_META_OK # int_bytes n @ items_bytes ts" "n = 5 + int (length (items_bytes ts))"
    using assms(3) pack_items_ok [OF assms(1)]
    by (auto simp: storeSwapMetaPack_def bind_eq_Some_conv)
  have n: "n < 2 ^ 31"
    using assms(4) by simp
  note u = unpack_prefix [OF assms(1,2) items(2) n, of "buf @ rest" rest]
  show ?thesis
    using u assms(4-6) n unfolding tlv_unpack_def by (simp add: items(1))
qed

theorem tlv_unpack_packed_witness:
  "\<exists>buf. storeSwapMetaPack ex_items = Some (buf, 17) \<and>
     tlv_unpack (buf @ []) 17 (STORE_META_END + 10) = Some ([], 17) \<and>
     tlv_unpack (buf @ [0, 0, 0, 0, 0]) 22 (STORE_META_END + 10) = Some (ex_items, 17)"
proof -
  obtain buf where buf: "storeSwapMetaPack ex_items = Some (buf, 17)"
    using storeSwapMetaPack_ok [OF ex_items_ok(1)] ex_items_ok(3) by auto
  from tlv_unpack_packed [OF ex_items_ok(1,2) buf, of 17 "[]"]
    tlv_unpack_packed [OF ex_items_ok(1,2) buf, of 22 "[0, 0, 0, 0, 0]"] buf
  show ?thesis
    by simp
qed

section \<open>The header of an entry\<close>

definition me_ok :: "meta_entry \<Rightarrow> bool" where
  "me_ok e \<longleftrightarrow> me_mem_obj e \<and> me_swapout_writing e \<and> length (me_key e) = 16 \<and>
     length (me_std e) = 44 \<and> length (me_url e) < 65536 \<and> 0 \<notin> set (me_url e) \<and>
     - 1 \<le> me_objsize e \<and> me_objsize e < 2 ^ 63 \<and>
     pred_option (\<lambda>s. length s < 65536) (me_vary e) \<and>
     pred_option (\<lambda>s. length s < 65536) (me_store_url e)"

definition str_item :: "byte \<Rightarrow> byte list \<Rightarrow> tlv" where
  "str_item ty s = \<lparr>tlv_type = ty, tlv_length = int (length s) + 1, tlv_value = s @ [0]\<rparr>"

definition meta_items :: "meta_entry \<Rightarrow> tlv list" where
  "meta_items e =
     [\<lparr>tlv_type = STORE_META_KEY_MD5, tlv_length = 16, tlv_value = me_key e\<rparr>,
      \<lparr>tlv_type = STORE_META_STD, tlv_length = 44, tlv_value = me_std e\<rparr>,
      str_item STORE_META_URL (me_url e)] @
     (if me_objsize e > - 1
      then [\<lparr>tlv_type = STORE_META_OBJSIZE, tlv_length = 8, tlv_value = off_bytes (me_objsize e)\<rparr>]
      else []) @
     (case me_vary e of None \<Rightarrow> [] | Some v \<Rightarrow> [str_item STORE_META_VARY_HEADERS v]) @
     (case me_store_url e of None \<Rightarrow> [] | Some u \<Rightarrow> [str_item STORE_META_STOREURL u])"

lemma length_off_bytes [simp]: "length (off_bytes i) = 8"
  by (simp add: off_bytes_def Let_def le32.length_enc)

lemma tlv_add_str_eq: "tlv_add_str ty s ts = Some (ts @ [str_item ty s])"
  by (simp add: tlv_add_str_def tlv_add_def str_item_def mem_read_def nat_add_distrib)

lemma tlv_add_all: "int (length v) = n \<Longrightarrow>
    tlv_add ty v n ts = Some (ts @ [\<lparr>tlv_type = ty, tlv_length = n, tlv_value = v\<rparr>])"
  by (auto simp: tlv_add_def mem_read_def)

lemma storeSwapMetaBuild_eq: "me_ok e \<Longrightarrow> storeSwapMetaBuild e = Some (meta_items e)"
  by (simp add: storeSwapMetaBuild_def meta_items_def me_ok_def tlv_add_all tlv_add_str_eq
      STORE_HDR_METASIZE_def split: option.splits)

lemma meta_items_ok:
  assumes "me_ok e"
  shows "\<forall>t\<in>set (meta_items e). tlv_ok (STORE_META_END + 10) t"
  using assms
  by (cases "me_vary e"; cases "me_store_url e")
    (auto simp: meta_items_def me_ok_def tlv_ok_def str_item_def meta_consts)

lemma meta_items_size:
  assumes "me_ok e"
  shows "length (items_bytes (meta_items e)) < 300000"
  using assms
  by (cases "me_vary e"; cases "me_store_url e")
    (auto simp: meta_items_def me_ok_def str_item_def length_item_bytes)

lemma off_join: "(push_bit 32 (ucast (ucast (drop_bit 32 w) :: u32)) OR ucast (ucast w :: u32) :: u64) = w"
  by (rule bit_word_eqI) (auto simp: bit_simps)

lemma read_off_bytes: "- (2 ^ 63) \<le> i \<Longrightarrow> i < 2 ^ 63 \<Longrightarrow> read_off (off_bytes i) = Some i"
  by (simp add: read_off_def off_bytes_def Let_def le32.dec_enc le32.dec_enc_self le32.length_enc off_join
      signed_of_int signed_take_bit_int_eq_self)

lemma parse_items_meta:
  assumes "me_ok e"
  shows "parse_header_items (meta_items e) re 0 =
    Some (re\<lparr>re_md5_key := Some (me_key e), re_url := Some (me_url e),
             re_file_size := (if me_objsize e > - 1 then me_objsize e else re_file_size re)\<rparr>,
          if me_objsize e > - 1 then 3 else 2)"
  using assms
  by (simp add: meta_items_def me_ok_def str_item_def meta_consts mem_read_def read_off_bytes
      split: option.splits)

text \<open>
  C17. What the cache writes for an entry can be read back. The header of a valid entry is
  built and packed without failure; \<open>storeSwapMetaUnpack\<close> returns the built items, and
  \<open>parse_header\<close> of the rebuild helpers, given at least five bytes after the header, succeeds with the
  key, the URL, the object size and the header length. It does not return the standard
  metadata: those are written as \<open>STORE_META_STD\<close>, which it ignores, so that the timestamps
  of the rebuilt entry stay zero.
\<close>

theorem entry_header_readback:
  assumes "me_ok e" "5 \<le> length rest" "length rest < 2 ^ 30"
  shows "\<exists>ts buf n re. storeSwapMetaBuild e = Some ts \<and> storeSwapMetaPack ts = Some (buf, n) \<and>
           storeSwapMetaUnpack (buf @ rest) 0 = Some (ts, n) \<and>
           parse_header (buf @ rest) (int (length (buf @ rest))) rebuild_entry_init = Some (re, 1) \<and>
           re_md5_key re = Some (me_key e) \<and> re_url re = Some (me_url e) \<and>
           re_file_size re = me_objsize e \<and> re_hdr_size re = int (length buf) \<and>
           re_mi re = replicate 48 0"
proof -
  let ?ts = "meta_items e"
  let ?n = "5 + int (length (items_bytes ?ts))"
  define buf where "buf = STORE_META_OK # int_bytes ?n @ items_bytes ?ts"
  note ok = meta_items_ok [OF assms(1)]
  have ne: "?ts \<noteq> []"
    by (simp add: meta_items_def)
  have n: "?n < 2 ^ 30"
    using meta_items_size [OF assms(1)] by simp
  have pack: "storeSwapMetaPack ?ts = Some (buf, ?n)"
    using storeSwapMetaPack_ok [OF ok] n by (simp add: buf_def)
  have m: "?n < 2 ^ 31"
    using n by simp
  have len: "?n = int (length buf)"
    by (simp add: buf_def)
  note pre = unpack_prefix [OF ok ne refl m, of "buf @ rest" rest, unfolded buf_def, OF refl, folded buf_def]
  have unp: "storeSwapMetaUnpack (buf @ rest) 0 = Some (?ts, ?n)"
    using pre m unfolding storeSwapMetaUnpack_def by simp
  have "tlv_unpack (buf @ rest) (int (length (buf @ rest))) (STORE_META_END + 10) = Some (?ts, ?n)"
    using pre m assms(2,3) n len unfolding tlv_unpack_def by simp
  then have "parse_header (buf @ rest) (int (length (buf @ rest))) rebuild_entry_init =
      Some (rebuild_entry_init\<lparr>re_hdr_size := ?n, re_md5_key := Some (me_key e),
        re_url := Some (me_url e), re_file_size := me_objsize e\<rparr>, 1)"
    using ne assms(1)
    by (auto simp: parse_header_def parse_items_meta rebuild_entry_init_def me_ok_def)
  then show ?thesis
    using storeSwapMetaBuild_eq [OF assms(1)] pack unp
    by (intro exI conjI) (assumption | simp add: rebuild_entry_init_def len)+
qed

definition ex_entry :: meta_entry where
  "ex_entry = \<lparr>me_mem_obj = True, me_swapout_writing = True, me_key = replicate 16 7,
     me_std = replicate 44 1, me_url = [104, 116], me_objsize = 1000, me_vary = None,
     me_store_url = Some [120]\<rparr>"

theorem entry_header_readback_witness:
  "\<exists>ts buf n re. storeSwapMetaBuild ex_entry = Some ts \<and> storeSwapMetaPack ts = Some (buf, n) \<and>
     parse_header (buf @ replicate 5 0) (int (length (buf @ replicate 5 0))) rebuild_entry_init = Some (re, 1) \<and>
     re_url re = Some [104, 116] \<and> re_file_size re = 1000 \<and> re_mi re = replicate 48 0"
  using entry_header_readback [of ex_entry "replicate 5 0"]
  by (auto simp: ex_entry_def me_ok_def)

text \<open>
  C24. The one-pass \<open>storeSwapMetaAssemble\<close> is not a replacement for building and packing.
  It writes the header prefix as if it were an item, so that the length field holds 4 and
  \<open>storeSwapMetaUnpack\<close> rejects whatever it produces; and for an entry with an object size, a
  vary string and a store URL it writes past the buffer it allocated.
\<close>

theorem storeSwapMetaAssemble_unreadable:
  "(\<forall>buf n. storeSwapMetaAssemble e = Some (buf, n) \<longrightarrow>
      storeSwapMetaUnpack (buf @ rest) h = Some ([], h)) \<and>
   (me_objsize e > - 1 \<and> me_vary e \<noteq> None \<and> me_store_url e \<noteq> None \<longrightarrow>
      storeSwapMetaAssemble e = None)"
proof -
  have part: "storeSwapMetaAssemblePart b t v l = Some b' \<Longrightarrow>
      \<exists>w. b' = b @ t # int_bytes l @ w \<and> int (length w) = l" for b t v l b'
    by (auto simp: storeSwapMetaAssemblePart_def bind_eq_Some_conv mem_read_def split: if_splits)
  have "\<exists>r. buf = STORE_META_OK # int_bytes 4 @ r" if "storeSwapMetaAssemble e = Some (buf, n)" for buf n
    using that unfolding storeSwapMetaAssemble_def
    by (auto simp: bind_eq_Some_conv Let_def dest!: part split: if_splits option.splits)
  moreover have "read_int (STORE_META_OK # int_bytes 4 @ r) 1 = Some 4" for r
    using read_int_append [of 4 "[STORE_META_OK]"] by (simp add: int_range_def)
  ultimately have "storeSwapMetaUnpack (buf @ rest) h = Some ([], h)"
    if "storeSwapMetaAssemble e = Some (buf, n)" for buf n
    using that by (fastforce simp: storeSwapMetaUnpack_def)
  moreover have "storeSwapMetaAssemble e = None"
    if "me_objsize e > - 1" "me_vary e = Some v" "me_store_url e = Some s" for v s
  proof (rule ccontr)
    assume "storeSwapMetaAssemble e \<noteq> None"
    then show False
      using that unfolding storeSwapMetaAssemble_def
      by (auto simp: bind_eq_Some_conv Let_def dest!: part)
  qed
  ultimately show ?thesis
    by auto
qed

theorem storeSwapMetaAssemble_unreadable_witness:
  "storeSwapMetaAssemble (ex_entry\<lparr>me_vary := Some [97]\<rparr>) = None"
  using storeSwapMetaAssemble_unreadable [of "ex_entry\<lparr>me_vary := Some [97]\<rparr>" "[]" 0]
  by (simp add: ex_entry_def)

end
