(* ===== verification/Linked_List.thy ===== *)
theory Linked_List
  imports Lusca_Prelude
begin

text \<open>
  Singly linked lists on the C heap. \<open>nxt a\<close> is the \<open>next\<close> field of the object at address \<open>a\<close>,
  \<open>None\<close> when there is no such object; \<open>lseg nxt p as q\<close> says that following \<open>next\<close> from the
  pointer \<open>p\<close> visits the objects at the addresses \<open>as\<close> and then holds the pointer \<open>q\<close>. The
  predicate is shared by all components that walk a list.
\<close>

fun lseg :: "(addr \<Rightarrow> addr option option) \<Rightarrow> addr option \<Rightarrow> addr list \<Rightarrow> addr option \<Rightarrow> bool" where
  "lseg nxt p [] q \<longleftrightarrow> p = q"
| "lseg nxt p (a # as) q \<longleftrightarrow> p = Some a \<and> (\<exists>r. nxt a = Some r \<and> lseg nxt r as q)"

abbreviation linked :: "(addr \<Rightarrow> addr option option) \<Rightarrow> addr option \<Rightarrow> addr list \<Rightarrow> bool" where
  "linked nxt p as \<equiv> lseg nxt p as None"

lemma lseg_append: "lseg nxt p (as @ bs) q \<longleftrightarrow> (\<exists>r. lseg nxt p as r \<and> lseg nxt r bs q)"
  by (induction as arbitrary: p) auto

lemma lseg_cong:
  "(\<And>a. a \<in> set as \<Longrightarrow> nxt a = nxt' a) \<Longrightarrow> lseg nxt p as q \<longleftrightarrow> lseg nxt' p as q"
  by (induction as arbitrary: p) auto

lemma lseg_upd [simp]: "a \<notin> set as \<Longrightarrow> lseg (nxt(a := x)) p as q \<longleftrightarrow> lseg nxt p as q"
  by (rule lseg_cong) auto

lemma linked_None [simp]: "linked nxt None as \<longleftrightarrow> as = []"
  by (cases as) auto

lemma linked_Some: "linked nxt (Some a) as \<longleftrightarrow>
    (\<exists>bs r. as = a # bs \<and> nxt a = Some r \<and> linked nxt r bs)"
  by (cases as) auto

lemma lseg_in: "lseg nxt p as q \<Longrightarrow> a \<in> set as \<Longrightarrow> nxt a \<noteq> None"
  by (induction as arbitrary: p) auto

lemma linked_unique: "linked nxt p as \<Longrightarrow> linked nxt p bs \<Longrightarrow> as = bs"
proof (induction as arbitrary: p bs)
  case (Cons a as)
  then show ?case
    by (cases bs) auto
qed auto

lemma linked_distinct: "linked nxt p as \<Longrightarrow> distinct as"
proof (induction as arbitrary: p)
  case (Cons a as)
  then obtain r where r: "p = Some a" "nxt a = Some r" "linked nxt r as"
    by auto
  have "a \<notin> set as"
  proof
    assume "a \<in> set as"
    then obtain xs ys where as: "as = xs @ a # ys"
      by (meson split_list)
    with r have "linked nxt (Some a) (a # ys)"
      by (auto simp: lseg_append)
    moreover have "linked nxt (Some a) (a # as)"
      using r by auto
    ultimately have "a # ys = a # as"
      by (rule linked_unique)
    then have "length ys = length as"
      by simp
    then show False
      by (simp add: as)
  qed
  with Cons.IH [OF r(3)] show ?case
    by simp
qed simp

lemma linked_head: "linked nxt p as \<Longrightarrow> p = (case as of [] \<Rightarrow> None | a # _ \<Rightarrow> Some a)"
  by (cases as) auto

lemma linked_last: "linked nxt p as \<Longrightarrow> as \<noteq> [] \<Longrightarrow> nxt (last as) = Some None"
  by (induction as arbitrary: p) (auto split: if_splits)

text \<open>Appending an object: the last one is made to point to it.\<close>

lemma linked_snoc:
  assumes "linked nxt p as" "b \<notin> set as" "as \<noteq> []"
  shows "linked (nxt(last as := Some (Some b), b := Some None)) p (as @ [b])"
proof -
  obtain bs l where as: "as = bs @ [l]"
    using assms(3) by (metis append_butlast_last_id)
  have "distinct as"
    using assms(1) by (rule linked_distinct)
  then show ?thesis
    using assms by (auto simp: as lseg_append)
qed

end
