(* ===== verification/Store_Mem.thy ===== *)
theory Store_Mem
  imports Linked_List
begin

text \<open>
  The in-memory copy of an object, \<^verbatim>\<open>libstmem/stmem.c\<close>: a linked list of pages with a reference
  count, to which data are appended, from whose front pages are dropped, and whose pages are
  lent to readers. Pages live on an explicit heap: using a page that was freed is \<open>None\<close>, and
  so are a failed assertion and a copy outside a page or a caller's buffer. Offsets are
  unbounded integers.
\<close>

definition SM_PAGE_SIZE :: int where "SM_PAGE_SIZE = 4096"

record mem_node =
  mn_data :: "byte list"
  mn_len :: int
  mn_uses :: int
  mn_next :: "addr option"

record mem_hdr =
  mh_head :: "addr option"
  mh_tail :: "addr option"
  origin_offset :: int

record mem_node_ref =
  mr_node :: "addr option"
  mr_offset :: int

text \<open>
  The heap of pages and the global counter. \<open>st_junk a\<close> is what the page allocated at address \<open>a\<close>
  holds before anything is written to it: the pool does not clear pages.
\<close>

record stmem =
  st_nodes :: "addr \<Rightarrow> mem_node option"
  st_brk :: addr
  st_junk :: "addr \<Rightarrow> byte list"
  store_mem_size :: u64

definition st_put :: "addr \<Rightarrow> mem_node \<Rightarrow> stmem \<Rightarrow> stmem" where
  "st_put a n st = st\<lparr>st_nodes := (st_nodes st)(a \<mapsto> n)\<rparr>"

definition mem_node_alloc :: "stmem \<Rightarrow> addr \<times> mem_node \<times> stmem" where
  "mem_node_alloc st = (let a = st_brk st in
     (a, \<lparr>mn_data = st_junk st a, mn_len = 0, mn_uses = 0, mn_next = None\<rparr>, st\<lparr>st_brk := a + 1\<rparr>))"

text \<open>\<open>memcpy (dst + off, src, n)\<close> into a page and \<open>memcpy (dst, src + off, n)\<close> out of one.\<close>

definition page_write :: "byte list \<Rightarrow> int \<Rightarrow> byte list \<Rightarrow> int \<Rightarrow> byte list option" where
  "page_write pg off src n =
     (if 0 \<le> off \<and> 0 \<le> n \<and> off + n \<le> int (length pg) \<and> n \<le> int (length src)
      then Some (take (nat off) pg @ take (nat n) src @ drop (nat (off + n)) pg) else None)"

definition page_read :: "byte list \<Rightarrow> int \<Rightarrow> int \<Rightarrow> byte list option" where
  "page_read pg off n =
     (if 0 \<le> off \<and> 0 \<le> n \<and> off + n \<le> int (length pg)
      then Some (take (nat n) (drop (nat off) pg)) else None)"

section \<open>Reference counts\<close>

definition stmemNodeFree :: "addr \<Rightarrow> stmem \<Rightarrow> stmem option" where
  "stmemNodeFree a st = do {
     p \<leftarrow> st_nodes st a;
     if mn_uses p = 0 then Some (st\<lparr>st_nodes := (st_nodes st)(a := None)\<rparr>)
     else Some (st_put a (p\<lparr>mn_uses := mn_uses p - 1\<rparr>) st)
   }"

definition stmemNodeGet :: "addr \<Rightarrow> stmem \<Rightarrow> (byte list \<times> stmem) option" where
  "stmemNodeGet a st = do {
     p \<leftarrow> st_nodes st a;
     c_assert (int_range (mn_uses p + 1));
     Some (mn_data p, st_put a (p\<lparr>mn_uses := mn_uses p + 1\<rparr>) st)
   }"

section \<open>The page list\<close>

partial_function (option) stmemFree_loop :: "addr option \<Rightarrow> stmem \<Rightarrow> stmem option" where
  "stmemFree_loop h st =
     (case h of
        None \<Rightarrow> Some st
      | Some a \<Rightarrow> do {
          p \<leftarrow> st_nodes st a;
          let st = st\<lparr>store_mem_size := store_mem_size st - 4096\<rparr>;
          st \<leftarrow> stmemNodeFree a st;
          stmemFree_loop (mn_next p) st
        })"

definition stmemFree :: "mem_hdr \<Rightarrow> stmem \<Rightarrow> (mem_hdr \<times> stmem) option" where
  "stmemFree mem st = do {
     st \<leftarrow> stmemFree_loop (mh_head mem) st;
     Some (mem\<lparr>mh_head := None, mh_tail := None, origin_offset := 0\<rparr>, st)
   }"

text \<open>
  The loop of \<open>stmemFreeDataUpto\<close> returns whether it stopped at the last page, and the page and
  the offset it reached.
\<close>

partial_function (option) stmemFreeDataUpto_loop ::
  "addr option \<Rightarrow> int \<Rightarrow> addr option \<Rightarrow> int \<Rightarrow> stmem \<Rightarrow> (bool \<times> addr option \<times> int \<times> stmem) option" where
  "stmemFreeDataUpto_loop t target_offset p current_offset st =
     (case p of
        None \<Rightarrow> Some (False, p, current_offset, st)
      | Some a \<Rightarrow> do {
          n \<leftarrow> st_nodes st a;
          if current_offset + mn_len n \<le> target_offset then
            if p = t then Some (True, p, current_offset, st)
            else do {
              let st = st\<lparr>store_mem_size := store_mem_size st - 4096\<rparr>;
              st \<leftarrow> stmemNodeFree a st;
              stmemFreeDataUpto_loop t target_offset (mn_next n) (current_offset + mn_len n) st
            }
          else Some (False, p, current_offset, st)
        })"

definition stmemFreeDataUpto :: "mem_hdr \<Rightarrow> int \<Rightarrow> stmem \<Rightarrow> (int \<times> mem_hdr \<times> stmem) option" where
  "stmemFreeDataUpto mem target_offset st = do {
     (at_tail, p, current_offset, st) \<leftarrow>
       stmemFreeDataUpto_loop (mh_tail mem) target_offset (mh_head mem) (origin_offset mem) st;
     if at_tail then Some (current_offset, mem\<lparr>mh_head := mh_tail mem, origin_offset := current_offset\<rparr>, st)
     else do {
       let mem = mem\<lparr>mh_head := p, origin_offset := current_offset\<rparr>;
       if current_offset < target_offset then Some (current_offset, mem, st)
       else do {
         c_assert (current_offset = target_offset);
         Some (current_offset, mem, st)
       }
     }
   }"

text \<open>Appending a new page to the chain, the conditional in the loop of \<open>stmemAppend\<close>.\<close>

definition stmem_link :: "mem_hdr \<Rightarrow> addr \<Rightarrow> stmem \<Rightarrow> (mem_hdr \<times> stmem) option" where
  "stmem_link mem p st =
     (if mh_head mem = None then Some (mem\<lparr>mh_head := Some p, mh_tail := Some p\<rparr>, st)
      else do {
        t \<leftarrow> mh_tail mem;
        tn \<leftarrow> st_nodes st t;
        Some (mem\<lparr>mh_tail := Some p\<rparr>, st_put t (tn\<lparr>mn_next := Some p\<rparr>) st)
      })"

text \<open>The allocation loop of \<open>stmemAppend\<close>; \<open>data\<close> is what the source's pointer still points to.\<close>

function stmemAppend_loop :: "mem_hdr \<Rightarrow> byte list \<Rightarrow> int \<Rightarrow> stmem \<Rightarrow> (mem_hdr \<times> stmem) option" where
  "stmemAppend_loop mem data len st =
     (if len > 0 then do {
        let len_to_copy = min len SM_PAGE_SIZE;
        let (p, n, st) = mem_node_alloc st;
        let st = st\<lparr>store_mem_size := store_mem_size st + 4096\<rparr>;
        d \<leftarrow> page_write (mn_data n) 0 data len_to_copy;
        let st = st_put p \<lparr>mn_data = d, mn_len = len_to_copy, mn_uses = 0, mn_next = None\<rparr> st;
        (mem, st) \<leftarrow> stmem_link mem p st;
        stmemAppend_loop mem (drop (nat len_to_copy) data) (len - len_to_copy) st
      }
      else Some (mem, st))"
  by auto
termination
  by (relation "measure (\<lambda>(_, _, len, _). nat len)") (auto simp: SM_PAGE_SIZE_def)

declare stmemAppend_loop.simps [simp del]

definition stmemAppend :: "mem_hdr \<Rightarrow> byte list \<Rightarrow> int \<Rightarrow> stmem \<Rightarrow> (mem_hdr \<times> stmem) option" where
  "stmemAppend mem data len st =
     (case (mh_head mem, mh_tail mem) of
        (Some _, Some t) \<Rightarrow> do {
          tn \<leftarrow> st_nodes st t;
          if mn_len tn < SM_PAGE_SIZE then do {
            let avail_len = SM_PAGE_SIZE - mn_len tn;
            let len_to_copy = min avail_len len;
            d \<leftarrow> page_write (mn_data tn) (mn_len tn) data len_to_copy;
            let st = st_put t (tn\<lparr>mn_data := d, mn_len := mn_len tn + len_to_copy\<rparr>) st;
            stmemAppend_loop mem (drop (nat len_to_copy) data) (len - len_to_copy) st
          }
          else stmemAppend_loop mem data len st
        }
      | _ \<Rightarrow> stmemAppend_loop mem data len st)"

section \<open>Reading\<close>

text \<open>
  The seek loops of \<open>stmemRef\<close> (which skips a page that ends at the offset) and \<open>stmemCopy\<close>
  (which does not): \<open>skip\<close> is the loop's test. The inner option is \<open>None\<close> when the list ends.
\<close>

partial_function (option) stmem_seek ::
  "(int \<Rightarrow> bool) \<Rightarrow> addr \<Rightarrow> int \<Rightarrow> stmem \<Rightarrow> (addr \<times> int) option option" where
  "stmem_seek skip a t_off st = do {
     p \<leftarrow> st_nodes st a;
     if skip (t_off + mn_len p) then
       (case mn_next p of
          None \<Rightarrow> Some None
        | Some b \<Rightarrow> stmem_seek skip b (t_off + mn_len p) st)
     else Some (Some (a, t_off))
   }"

definition stmemRef :: "mem_hdr \<Rightarrow> int \<Rightarrow> mem_node_ref \<Rightarrow> stmem \<Rightarrow> (int \<times> mem_node_ref \<times> stmem) option" where
  "stmemRef mem offset r st =
     (case mh_head mem of
        None \<Rightarrow> Some (0, r, st)
      | Some a \<Rightarrow> do {
          found \<leftarrow> stmem_seek (\<lambda>end_off. end_off \<le> offset) a (origin_offset mem) st;
          (case found of
             None \<Rightarrow> Some (0, r, st)
           | Some (b, t_off) \<Rightarrow> do {
               p \<leftarrow> st_nodes st b;
               c_assert (int_range (mn_uses p + 1));
               let st = st_put b (p\<lparr>mn_uses := mn_uses p + 1\<rparr>) st;
               let r = \<lparr>mr_node = Some b, mr_offset = offset - t_off\<rparr>;
               c_assert (mr_offset r \<ge> 0);
               c_assert (mn_len p + t_off - offset > 0);
               Some (mn_len p + t_off - offset, r, st)
             })
        })"

definition stmemNodeRefCreate :: "mem_node_ref \<Rightarrow> stmem \<Rightarrow> (mem_node_ref \<times> stmem) option" where
  "stmemNodeRefCreate r st = do {
     c_assert (mr_node r = None);
     let (a, n, st) = mem_node_alloc st;
     Some (\<lparr>mr_node = Some a, mr_offset = 0\<rparr>,
           st_put a (n\<lparr>mn_uses := 0, mn_next := None, mn_len := SM_PAGE_SIZE\<rparr>) st)
   }"

definition stmemNodeRef :: "mem_node_ref \<Rightarrow> stmem \<Rightarrow> (mem_node_ref \<times> stmem) option" where
  "stmemNodeRef r st = do {
     a \<leftarrow> mr_node r;
     p \<leftarrow> st_nodes st a;
     c_assert (int_range (mn_uses p + 1));
     Some (r, st_put a (p\<lparr>mn_uses := mn_uses p + 1\<rparr>) st)
   }"

definition stmemNodeUnref :: "mem_node_ref \<Rightarrow> stmem \<Rightarrow> (mem_node_ref \<times> stmem) option" where
  "stmemNodeUnref r st =
     (case mr_node r of
        None \<Rightarrow> Some (r, st)
      | Some a \<Rightarrow> do {
          st \<leftarrow> stmemNodeFree a st;
          Some (\<lparr>mr_node = None, mr_offset = - 1\<rparr>, st)
        })"

text \<open>
  \<open>stmemCopy\<close> returns the bytes it stored into the caller's buffer, which has room for \<open>size\<close>
  bytes, and its return value.
\<close>

partial_function (option) stmemCopy_loop ::
  "addr option \<Rightarrow> byte list \<Rightarrow> int \<Rightarrow> stmem \<Rightarrow> (byte list \<times> int) option" where
  "stmemCopy_loop p out bytes_to_go st =
     (case p of
        None \<Rightarrow> Some (out, bytes_to_go)
      | Some a \<Rightarrow>
          if bytes_to_go > 0 then do {
            n \<leftarrow> st_nodes st a;
            if bytes_to_go > mn_len n then do {
              bs \<leftarrow> page_read (mn_data n) 0 (mn_len n);
              stmemCopy_loop (mn_next n) (out @ bs) (bytes_to_go - mn_len n) st
            }
            else do {
              bs \<leftarrow> page_read (mn_data n) 0 bytes_to_go;
              stmemCopy_loop (mn_next n) (out @ bs) (bytes_to_go - bytes_to_go) st
            }
          }
          else Some (out, bytes_to_go))"

definition stmemCopy :: "mem_hdr \<Rightarrow> int \<Rightarrow> int \<Rightarrow> stmem \<Rightarrow> (byte list \<times> int) option" where
  "stmemCopy mem offset sz st =
     (case mh_head mem of
        None \<Rightarrow> Some ([], 0)
      | Some a \<Rightarrow> do {
          c_assert (sz > 0);
          found \<leftarrow> stmem_seek (\<lambda>end_off. end_off < offset) a (origin_offset mem) st;
          (case found of
             None \<Rightarrow> Some ([], 0)
           | Some (b, t_off) \<Rightarrow> do {
               p \<leftarrow> st_nodes st b;
               let bytes_into_this_packet = offset - t_off;
               let bytes_from_this_packet = min sz (mn_len p - bytes_into_this_packet);
               bs \<leftarrow> page_read (mn_data p) bytes_into_this_packet bytes_from_this_packet;
               (out, bytes_to_go) \<leftarrow> stmemCopy_loop (mn_next p) bs (sz - bytes_from_this_packet) st;
               Some (out, sz - bytes_to_go)
             })
        })"

section \<open>Invariant and abstraction\<close>

text \<open>
  A header with its page addresses \<open>as\<close> stands for the bytes \<open>stored\<close>, the concatenation of the
  used parts of the pages. The multiset \<open>R\<close> holds a page address for every reference that some
  other part of the program has to it: a reader's \<open>mem_node_ref\<close>, or a place in another
  header's list. A page exists exactly as long as it has an owner.
\<close>

definition st_nxt :: "stmem \<Rightarrow> addr \<Rightarrow> addr option option" where
  "st_nxt st a = map_option mn_next (st_nodes st a)"

definition node_bytes :: "mem_node \<Rightarrow> byte list" where
  "node_bytes n = take (nat (mn_len n)) (mn_data n)"

definition node_ok :: "mem_node \<Rightarrow> bool" where
  "node_ok n \<longleftrightarrow> length (mn_data n) = 4096 \<and> 0 < mn_len n \<and> mn_len n \<le> 4096"

definition stored :: "stmem \<Rightarrow> addr list \<Rightarrow> byte list" where
  "stored st as = concat (map (\<lambda>a. node_bytes (the (st_nodes st a))) as)"

definition pages_ok :: "stmem \<Rightarrow> addr list \<Rightarrow> bool" where
  "pages_ok st as \<longleftrightarrow> (\<forall>a\<in>set as. node_ok (the (st_nodes st a)))"

definition owners :: "addr list \<Rightarrow> addr multiset \<Rightarrow> addr \<Rightarrow> int" where
  "owners as R a = int (count R a) + (if a \<in> set as then 1 else 0)"

definition counts_ok :: "stmem \<Rightarrow> addr list \<Rightarrow> addr multiset \<Rightarrow> bool" where
  "counts_ok st as R \<longleftrightarrow>
     (\<forall>a. case st_nodes st a of None \<Rightarrow> owners as R a = 0
          | Some n \<Rightarrow> 0 \<le> mn_uses n \<and> mn_uses n + 1 = owners as R a)"

definition alloc_ok :: "stmem \<Rightarrow> bool" where
  "alloc_ok st \<longleftrightarrow> (\<forall>a\<ge>st_brk st. st_nodes st a = None) \<and> (\<forall>a. length (st_junk st a) = 4096)"

definition sm_inv :: "stmem \<Rightarrow> mem_hdr \<Rightarrow> addr list \<Rightarrow> addr multiset \<Rightarrow> bool" where
  "sm_inv st mem as R \<longleftrightarrow> linked (st_nxt st) (mh_head mem) as \<and>
     mh_tail mem = (if as = [] then None else Some (last as)) \<and>
     pages_ok st as \<and> counts_ok st as R \<and> alloc_ok st"

lemma pages_ok_simps [simp]:
  "pages_ok st []" "pages_ok st (a # as) \<longleftrightarrow> node_ok (the (st_nodes st a)) \<and> pages_ok st as"
  "pages_ok st (as @ bs) \<longleftrightarrow> pages_ok st as \<and> pages_ok st bs"
  by (auto simp: pages_ok_def)

lemma stored_simps [simp]:
  "stored st [] = []" "stored st (a # as) = node_bytes (the (st_nodes st a)) @ stored st as"
  "stored st (as @ bs) = stored st as @ stored st bs"
  by (auto simp: stored_def)

lemma length_node_bytes: "node_ok n \<Longrightarrow> int (length (node_bytes n)) = mn_len n"
  by (auto simp: node_ok_def node_bytes_def min_def)

lemma stored_cong:
  "(\<And>a. a \<in> set as \<Longrightarrow> node_bytes (the (st_nodes st a)) = node_bytes (the (st_nodes st' a))) \<Longrightarrow>
   stored st as = stored st' as"
  by (simp add: stored_def cong: map_cong)

lemma pages_ok_cong:
  "(\<And>a. a \<in> set as \<Longrightarrow> node_ok (the (st_nodes st a)) = node_ok (the (st_nodes st' a))) \<Longrightarrow>
   pages_ok st as = pages_ok st' as"
  by (simp add: pages_ok_def)

lemma linked_dom: "linked (st_nxt st) p as \<Longrightarrow> a \<in> set as \<Longrightarrow> \<exists>n. st_nodes st a = Some n"
  using lseg_in [of "st_nxt st" p as None a] by (auto simp: st_nxt_def)

lemma linked_st_Cons:
  "linked (st_nxt st) p (a # as) \<longleftrightarrow>
     p = Some a \<and> (\<exists>n. st_nodes st a = Some n \<and> linked (st_nxt st) (mn_next n) as)"
  by (auto simp: st_nxt_def)

section \<open>Dropping pages\<close>

text \<open>The heap after the list has given up its ownership of the pages in \<open>S\<close>.\<close>

definition drop_owner :: "(addr \<Rightarrow> mem_node option) \<Rightarrow> addr set \<Rightarrow> addr \<Rightarrow> mem_node option" where
  "drop_owner m S a =
     (if a \<in> S then case m a of None \<Rightarrow> None
        | Some p \<Rightarrow> if mn_uses p = 0 then None else Some (p\<lparr>mn_uses := mn_uses p - 1\<rparr>)
      else m a)"

lemma stmemNodeFree_eq:
  "st_nodes st a \<noteq> None \<Longrightarrow>
     stmemNodeFree a st = Some (st\<lparr>st_nodes := drop_owner (st_nodes st) {a}\<rparr>)"
  by (auto simp: stmemNodeFree_def drop_owner_def st_put_def fun_eq_iff intro!: stmem.equality)

lemma drop_owner_out [simp]: "a \<notin> S \<Longrightarrow> drop_owner m S a = m a"
  by (simp add: drop_owner_def)

lemma drop_owner_insert:
  "a \<notin> S \<Longrightarrow> drop_owner (drop_owner m {a}) S = drop_owner m (insert a S)"
  by (auto simp: drop_owner_def fun_eq_iff split: option.splits)

lemma drop_owner_empty [simp]: "drop_owner m {} = m"
  by (simp add: drop_owner_def fun_eq_iff)

definition dropped :: "addr list \<Rightarrow> stmem \<Rightarrow> stmem" where
  "dropped as st = st\<lparr>st_nodes := drop_owner (st_nodes st) (set as),
     store_mem_size := store_mem_size st - 4096 * of_nat (length as)\<rparr>"

lemma dropped_simps [simp]:
  "st_nodes (dropped as st) = drop_owner (st_nodes st) (set as)"
  "st_brk (dropped as st) = st_brk st" "st_junk (dropped as st) = st_junk st"
  "store_mem_size (dropped as st) = store_mem_size st - 4096 * of_nat (length as)"
  by (simp_all add: dropped_def)

lemma dropped_Nil [simp]: "dropped [] st = st"
  by (simp add: dropped_def)

lemma dropped_Cons: "a \<notin> set as \<Longrightarrow> dropped as (dropped [a] st) = dropped (a # as) st"
  by (simp add: dropped_def drop_owner_insert algebra_simps)

lemma drop_step:
  "st_nodes st a \<noteq> None \<Longrightarrow>
     stmemNodeFree a (st\<lparr>store_mem_size := store_mem_size st - 4096\<rparr>) = Some (dropped [a] st)"
  by (simp add: stmemNodeFree_eq dropped_def)

lemma linked_dropped:
  "set as \<inter> set bs = {} \<Longrightarrow> linked (st_nxt (dropped as st)) p bs \<longleftrightarrow> linked (st_nxt st) p bs"
  by (rule lseg_cong) (auto simp: st_nxt_def drop_owner_def)

lemma stored_dropped: "set as \<inter> set bs = {} \<Longrightarrow> stored (dropped as st) bs = stored st bs"
  by (rule stored_cong) (auto simp: drop_owner_def)

lemma pages_ok_dropped: "set as \<inter> set bs = {} \<Longrightarrow> pages_ok (dropped as st) bs = pages_ok st bs"
  by (auto simp: pages_ok_def drop_owner_def)

lemma counts_ok_dropped:
  assumes "counts_ok st (as @ bs) R" "distinct (as @ bs)"
  shows "counts_ok (dropped as st) bs R"
  unfolding counts_ok_def
proof
  fix a
  have "case st_nodes st a of None \<Rightarrow> owners (as @ bs) R a = 0
      | Some n \<Rightarrow> 0 \<le> mn_uses n \<and> mn_uses n + 1 = owners (as @ bs) R a"
    using assms(1) by (simp add: counts_ok_def)
  then show "case st_nodes (dropped as st) a of None \<Rightarrow> owners bs R a = 0
      | Some n \<Rightarrow> 0 \<le> mn_uses n \<and> mn_uses n + 1 = owners bs R a"
    using assms(2) by (auto simp: owners_def drop_owner_def split: option.splits if_splits)
qed

lemma alloc_ok_dropped: "alloc_ok st \<Longrightarrow> alloc_ok (dropped as st)"
  by (auto simp: alloc_ok_def drop_owner_def)

lemma stmemFree_loop_spec:
  "linked (st_nxt st) h as \<Longrightarrow> stmemFree_loop h st = Some (dropped as st)"
proof (induction as arbitrary: h st)
  case Nil
  then show ?case
    by (simp add: stmemFree_loop.simps)
next
  case (Cons a as)
  then obtain n where n: "h = Some a" "st_nodes st a = Some n" "linked (st_nxt st) (mn_next n) as"
    unfolding linked_st_Cons by blast
  have a: "a \<notin> set as"
    using linked_distinct [OF Cons.prems] by simp
  then have "linked (st_nxt (dropped [a] st)) (mn_next n) as"
    using n(3) by (simp add: linked_dropped)
  from Cons.IH [OF this] show ?case
    using n drop_step [of st a] a
    by (simp add: stmemFree_loop.simps [of "Some a"] dropped_Cons del: dropped_simps)
qed

text \<open>The pages with which \<open>stmemFreeDataUpto\<close> stops: it drops \<open>bs\<close> and keeps \<open>cs\<close>.\<close>

definition stored_len :: "stmem \<Rightarrow> addr list \<Rightarrow> int" where
  "stored_len st as = int (length (stored st as))"

lemma stored_len_simps [simp]:
  "stored_len st [] = 0"
  "node_ok (the (st_nodes st a)) \<Longrightarrow> stored_len st (a # as) = mn_len (the (st_nodes st a)) + stored_len st as"
  by (simp_all add: stored_len_def length_node_bytes)

definition upto_cut :: "stmem \<Rightarrow> int \<Rightarrow> int \<Rightarrow> bool \<Rightarrow> addr list \<Rightarrow> addr list \<Rightarrow> bool" where
  "upto_cut st target cur at_tail bs cs \<longleftrightarrow> cs \<noteq> [] \<and> cur + stored_len st bs \<le> target \<and>
     (if at_tail then length cs = 1 \<and> cur + stored_len st (bs @ cs) \<le> target
      else target < cur + stored_len st (bs @ [hd cs]))"

lemma stmemFreeDataUpto_loop_spec:
  assumes "linked (st_nxt st) p as" "as \<noteq> []" "t = Some (last as)" "pages_ok st as" "cur \<le> target"
  shows "\<exists>bs cs at_tail. as = bs @ cs \<and> upto_cut st target cur at_tail bs cs \<and>
     stmemFreeDataUpto_loop t target p cur st =
       Some (at_tail, Some (hd cs), cur + stored_len st bs, dropped bs st)"
  using assms
proof (induction as arbitrary: p cur st)
  case (Cons a as)
  obtain n where n: "p = Some a" "st_nodes st a = Some n" "linked (st_nxt st) (mn_next n) as"
    using Cons.prems(1) unfolding linked_st_Cons by blast
  have ok: "node_ok n" "pages_ok st as"
    using Cons.prems(4) n(2) by simp_all
  have a: "a \<notin> set as"
    using linked_distinct [OF Cons.prems(1)] by simp
  consider (stop) "target < cur + mn_len n" | (tail) "cur + mn_len n \<le> target" "as = []"
    | (step) "cur + mn_len n \<le> target" "as \<noteq> []"
    by force
  then show ?case
  proof cases
    case stop
    have "upto_cut st target cur False [] (a # as)"
      using stop Cons.prems(5) ok n(2) by (simp add: upto_cut_def)
    with stop n show ?thesis
      by (intro exI [of _ "[]"] exI [of _ "a # as"] exI [of _ False])
        (simp add: stmemFreeDataUpto_loop.simps [of t target "Some a"])
  next
    case tail
    have "upto_cut st target cur True [] [a]"
      using tail Cons.prems(5) ok n(2) by (simp add: upto_cut_def)
    moreover have "stmemFreeDataUpto_loop t target p cur st = Some (True, Some a, cur, st)"
      using tail n Cons.prems(3) by (subst stmemFreeDataUpto_loop.simps) simp
    ultimately show ?thesis
      using tail(2) by (intro exI [of _ "[]"] exI [of _ "[a]"] exI [of _ True]) simp
  next
    case step
    have disj: "set [a] \<inter> set as = {}"
      using a by simp
    have keep: "stored_len (dropped [a] st) xs = stored_len st xs" if "set xs \<subseteq> set as" for xs
    proof -
      have "set [a] \<inter> set xs = {}"
        using that a by auto
      then show ?thesis
        by (simp only: stored_len_def stored_dropped)
    qed
    have "t \<noteq> Some a"
      using Cons.prems(3) step(2) a by auto
    have prem: "linked (st_nxt (dropped [a] st)) (mn_next n) as" "pages_ok (dropped [a] st) as"
      "t = Some (last as)"
      using n(3) ok(2) Cons.prems(3) step(2) linked_dropped [OF disj] pages_ok_dropped [OF disj]
      by simp_all
    obtain bs cs at_tail where cut: "as = bs @ cs"
        "upto_cut (dropped [a] st) target (cur + mn_len n) at_tail bs cs"
        "stmemFreeDataUpto_loop t target (mn_next n) (cur + mn_len n) (dropped [a] st) =
           Some (at_tail, Some (hd cs), cur + mn_len n + stored_len (dropped [a] st) bs,
             dropped bs (dropped [a] st))"
      using Cons.IH [OF prem(1) step(2) prem(3,2) step(1)] by blast
    moreover have "upto_cut st target cur at_tail (a # bs) cs"
    proof -
      have "stored_len (dropped [a] st) bs = stored_len st bs"
        "stored_len (dropped [a] st) (bs @ cs) = stored_len st (bs @ cs)"
        "cs \<noteq> [] \<Longrightarrow> stored_len (dropped [a] st) (bs @ [hd cs]) = stored_len st (bs @ [hd cs])"
        using keep [of bs] keep [of "bs @ cs"] keep [of "bs @ [hd cs]"] cut(1) by auto
      with cut(2) ok n(2) show ?thesis
        by (auto simp: upto_cut_def)
    qed
    ultimately show ?thesis
      using step n drop_step [of st a] a keep [of bs] dropped_Cons [of a bs st] ok(1) \<open>t \<noteq> Some a\<close>
      by (intro exI [of _ "a # bs"] exI [of _ cs] exI [of _ at_tail])
        (simp add: stmemFreeDataUpto_loop.simps [of t target "Some a"] del: dropped_simps)
  qed
qed simp

lemma sm_inv_dropped:
  assumes "sm_inv st mem (bs @ cs) R" "cs \<noteq> []"
  shows "sm_inv (dropped bs st) (mem\<lparr>mh_head := Some (hd cs), origin_offset := x\<rparr>) cs R"
proof -
  have l: "linked (st_nxt st) (mh_head mem) (bs @ cs)"
    using assms(1) by (simp add: sm_inv_def)
  then have d: "distinct (bs @ cs)"
    by (rule linked_distinct)
  have "linked (st_nxt st) (Some (hd cs)) cs"
    using l assms(2) by (cases cs) (auto simp: lseg_append)
  then have "linked (st_nxt (dropped bs st)) (Some (hd cs)) cs"
    using d by (simp add: linked_dropped)
  with assms d show ?thesis
    by (auto simp: sm_inv_def counts_ok_dropped alloc_ok_dropped pages_ok_dropped
        simp del: dropped_simps)
qed

text \<open>The pages that a reader holds are still there, with the bytes they had.\<close>

definition refs_kept :: "addr multiset \<Rightarrow> stmem \<Rightarrow> stmem \<Rightarrow> bool" where
  "refs_kept R st st' \<longleftrightarrow> (\<forall>a\<in>#R. \<exists>n n'. st_nodes st a = Some n \<and> st_nodes st' a = Some n' \<and>
     mn_data n' = mn_data n \<and> mn_len n' = mn_len n)"

lemma refs_kept_dropped:
  assumes "counts_ok st as R" "set bs \<subseteq> set as"
  shows "refs_kept R st (dropped bs st)"
  unfolding refs_kept_def
proof
  fix a
  assume "a \<in># R"
  then have "count R a \<noteq> 0"
    by (simp add: count_eq_zero_iff)
  moreover have "case st_nodes st a of None \<Rightarrow> owners as R a = 0
      | Some n \<Rightarrow> 0 \<le> mn_uses n \<and> mn_uses n + 1 = owners as R a"
    using assms(1) by (simp add: counts_ok_def)
  ultimately show "\<exists>n n'. st_nodes st a = Some n \<and> st_nodes (dropped bs st) a = Some n' \<and>
      mn_data n' = mn_data n \<and> mn_len n' = mn_len n"
    using assms(2)
    by (auto simp: owners_def drop_owner_def count_eq_zero_iff split: option.splits if_splits)
qed

lemma refs_kept_refl: "counts_ok st as R \<Longrightarrow> refs_kept R st st"
  using refs_kept_dropped [of st as R "[]"] by simp

text \<open>
  C13. \<open>stmemFreeDataUpto\<close> with a target at or after the start of the stored data never
  fails. It drops a front part of the pages, so that what is stored is the old bytes from the
  returned offset on; that offset is at most the target, no byte at or after the target is
  lost, and the first page kept is needed, because the target lies inside it, or is the last
  page of the list. Pages that a reader references survive with their bytes.
\<close>

theorem stmemFreeDataUpto_correct:
  assumes "sm_inv st mem as R" "origin_offset mem \<le> target"
  shows "\<exists>off mem' st' cs. stmemFreeDataUpto mem target st = Some (off, mem', st') \<and>
     sm_inv st' mem' cs R \<and> origin_offset mem' = off \<and>
     origin_offset mem \<le> off \<and> off \<le> target \<and>
     stored st' cs = drop (nat (off - origin_offset mem)) (stored st as) \<and>
     (length cs \<le> 1 \<or> target < off + mn_len (the (st_nodes st' (hd cs)))) \<and>
     refs_kept R st st' \<and>
     store_mem_size st' = store_mem_size st - 4096 * of_nat (length as - length cs)"
proof (cases "as = []")
  case True
  then have "mh_head mem = None" "refs_kept R st st"
    using assms(1) refs_kept_refl by (auto simp: sm_inv_def)
  then have "stmemFreeDataUpto mem target st = Some (origin_offset mem, mem, st)"
    using assms(2) by (cases mem) (auto simp: stmemFreeDataUpto_def stmemFreeDataUpto_loop.simps Let_def)
  with assms True \<open>refs_kept R st st\<close> show ?thesis
    by (intro exI [of _ "origin_offset mem"] exI [of _ mem] exI [of _ st] exI [of _ as]) simp
next
  case False
  have inv: "linked (st_nxt st) (mh_head mem) as" "mh_tail mem = Some (last as)" "pages_ok st as"
      "counts_ok st as R"
    using assms(1) False by (simp_all add: sm_inv_def)
  obtain bs cs at_tail where cut: "as = bs @ cs"
      "upto_cut st target (origin_offset mem) at_tail bs cs"
      "stmemFreeDataUpto_loop (mh_tail mem) target (mh_head mem) (origin_offset mem) st =
         Some (at_tail, Some (hd cs), origin_offset mem + stored_len st bs, dropped bs st)"
    using stmemFreeDataUpto_loop_spec [OF inv(1) False inv(2,3) assms(2)] inv(2) by auto
  let ?off = "origin_offset mem + stored_len st bs"
  have cs: "cs \<noteq> []" "?off \<le> target"
    using cut(2) by (simp_all add: upto_cut_def)
  have tl: "mh_tail mem = Some (hd cs)" if at_tail
    using that cut(1,2) inv(2) by (cases cs) (auto simp: upto_cut_def)
  have ret: "stmemFreeDataUpto mem target st =
      Some (?off, mem\<lparr>mh_head := Some (hd cs), origin_offset := ?off\<rparr>, dropped bs st)"
    using cut(3) cs(2) tl by (auto simp: stmemFreeDataUpto_def Let_def)
  have d: "set bs \<inter> set cs = {}"
    using linked_distinct [OF inv(1)] cut(1) by simp
  have st: "stored (dropped bs st) cs = drop (nat (?off - origin_offset mem)) (stored st as)"
    using d by (simp add: stored_dropped cut(1) stored_len_def del: dropped_simps)
  have keep: "length cs \<le> 1 \<or> target < ?off + mn_len (the (st_nodes (dropped bs st) (hd cs)))"
    using cut(2) cs(1) d inv(3) cut(1)
    by (cases cs) (auto simp: upto_cut_def stored_len_def length_node_bytes split: if_splits)
  have "sm_inv (dropped bs st) (mem\<lparr>mh_head := Some (hd cs), origin_offset := ?off\<rparr>) cs R"
    using sm_inv_dropped assms(1) cut(1) cs(1) by blast
  moreover have "0 \<le> stored_len st bs" "refs_kept R st (dropped bs st)"
    using refs_kept_dropped [OF inv(4)] cut(1) by (auto simp: stored_len_def)
  ultimately show ?thesis
    using ret cs(2) st keep cut(1) by auto
qed

section \<open>Appending\<close>

lemma stored_put: "a \<notin> set as \<Longrightarrow> stored (st_put a n st) as = stored st as"
  by (rule stored_cong) (auto simp: st_put_def)

lemma pages_ok_put: "a \<notin> set as \<Longrightarrow> pages_ok (st_put a n st) as = pages_ok st as"
  by (auto simp: pages_ok_def st_put_def)

lemma st_nxt_put: "st_nxt (st_put a n st) = (st_nxt st)(a := Some (mn_next n))"
  by (simp add: st_nxt_def st_put_def fun_eq_iff)

lemma counts_ok_put:
  assumes "counts_ok st as R" "st_nodes st a = Some n" "mn_uses n' = mn_uses n"
  shows "counts_ok (st_put a n' st) as R"
  using assms by (auto simp: counts_ok_def st_put_def split: option.splits)

lemma counts_ok_add:
  assumes "counts_ok st as R" "owners as R a = 0" "st_nodes st' a = Some n" "mn_uses n = 0"
    and "\<And>b. b \<noteq> a \<Longrightarrow> map_option mn_uses (st_nodes st' b) = map_option mn_uses (st_nodes st b)"
  shows "counts_ok st' (as @ [a]) R"
  unfolding counts_ok_def
proof
  fix b
  show "case st_nodes st' b of None \<Rightarrow> owners (as @ [a]) R b = 0
    | Some n \<Rightarrow> 0 \<le> mn_uses n \<and> mn_uses n + 1 = owners (as @ [a]) R b"
  proof (cases "b = a")
    case True
    then show ?thesis
      using assms(2-4) by (auto simp: owners_def split: if_splits)
  next
    case False
    then show ?thesis
      using assms(1) [unfolded counts_ok_def, THEN spec, of b] assms(5) [OF False]
      by (auto simp: owners_def split: option.splits)
  qed
qed

text \<open>Changing the contents of the last page, or its link, one page at a time.\<close>

lemma append_new_page:
  assumes inv: "sm_inv st mem as R" and d: "length d = 4096" and k: "0 < k" "k \<le> 4096"
    and st2: "st2 = st_put (st_brk st) \<lparr>mn_data = d, mn_len = k, mn_uses = 0, mn_next = None\<rparr>
      (st\<lparr>st_brk := st_brk st + 1, store_mem_size := store_mem_size st + 4096\<rparr>)"
  shows "\<exists>mem' st'. stmem_link mem (st_brk st) st2 = Some (mem', st') \<and>
     sm_inv st' mem' (as @ [st_brk st]) R \<and> origin_offset mem' = origin_offset mem \<and>
     stored st' (as @ [st_brk st]) = stored st as @ take (nat k) d \<and>
     store_mem_size st' = store_mem_size st + 4096 \<and> refs_kept R st st'"
proof -
  let ?a = "st_brk st"
  let ?n = "\<lparr>mn_data = d, mn_len = k, mn_uses = 0, mn_next = None\<rparr>"
  have i: "linked (st_nxt st) (mh_head mem) as" "pages_ok st as" "counts_ok st as R" "alloc_ok st"
      "mh_tail mem = (if as = [] then None else Some (last as))"
    using inv by (simp_all add: sm_inv_def)
  have free: "st_nodes st ?a = None"
    using i(4) by (simp add: alloc_ok_def)
  have a: "?a \<notin> set as"
    using linked_dom [OF i(1)] free by force
  have own: "owners as R ?a = 0"
    using i(3) [unfolded counts_ok_def, THEN spec, of ?a] free by simp
  have rk: "refs_kept R st st"
    by (rule refs_kept_refl [OF i(3)])
  have nodes2: "st_nodes st2 = (st_nodes st)(?a \<mapsto> ?n)" "st_brk st2 = Suc ?a" "st_junk st2 = st_junk st"
      "store_mem_size st2 = store_mem_size st + 4096"
    by (simp_all add: st2 st_put_def)
  have bytes: "node_bytes ?n = take (nat k) d"
    by (simp add: node_bytes_def)
  show ?thesis
  proof (cases "as = []")
    case True
    then have "mh_head mem = None"
      using i(1) by simp
    moreover have "counts_ok st2 [?a] R"
      using counts_ok_add [OF i(3) own, of st2 ?n] True by (simp add: nodes2)
    moreover have "alloc_ok st2"
      using i(4) by (simp add: alloc_ok_def nodes2)
    moreover have "refs_kept R st st2"
      using rk free by (fastforce simp: refs_kept_def nodes2)
    ultimately show ?thesis
      using True d k bytes
      by (simp add: stmem_link_def sm_inv_def st_nxt_def nodes2 node_ok_def)
  next
    case False
    let ?t = "last as"
    obtain tn where tn: "st_nodes st ?t = Some tn"
      using linked_dom [OF i(1), of ?t] False by auto
    let ?st' = "st_put ?t (tn\<lparr>mn_next := Some ?a\<rparr>) st2"
    have ta: "?t \<noteq> ?a"
      using a False by (metis last_in_set)
    then have nodes: "st_nodes ?st' = (st_nodes st)(?a \<mapsto> ?n, ?t \<mapsto> tn\<lparr>mn_next := Some ?a\<rparr>)"
      "st_brk ?st' = Suc ?a" "st_junk ?st' = st_junk st" "store_mem_size ?st' = store_mem_size st + 4096"
      by (simp_all add: st_put_def nodes2)
    have hd: "mh_head mem \<noteq> None"
      using i(1) False by (metis linked_None)
    then have link: "stmem_link mem ?a st2 = Some (mem\<lparr>mh_tail := Some ?a\<rparr>, ?st')"
      using False i(5) tn ta by (auto simp: stmem_link_def nodes2)
    have "st_nxt ?st' = (st_nxt st)(?t := Some (Some ?a), ?a := Some None)"
      using ta by (auto simp: st_nxt_def nodes fun_eq_iff)
    then have "linked (st_nxt ?st') (mh_head mem) (as @ [?a])"
      using linked_snoc [OF i(1) a False] by simp
    moreover have same: "node_bytes (the (st_nodes ?st' b)) = node_bytes (the (st_nodes st b))"
        "node_ok (the (st_nodes ?st' b)) = node_ok (the (st_nodes st b))" if "b \<in> set as" for b
      using that a tn ta by (auto simp: nodes node_bytes_def node_ok_def)
    then have "stored ?st' as = stored st as" "pages_ok ?st' as"
      using i(2) stored_cong [of as ?st' st] by (auto simp: pages_ok_def)
    moreover have "counts_ok ?st' (as @ [?a]) R"
      using counts_ok_add [OF i(3) own, of ?st' ?n] tn ta by (simp add: nodes)
    moreover have "alloc_ok ?st'"
      using i(4) tn by (auto simp: alloc_ok_def nodes)
    moreover have "refs_kept R st ?st'"
      using rk free tn by (fastforce simp: refs_kept_def nodes)
    ultimately show ?thesis
      using link d k bytes nodes ta by (simp add: sm_inv_def node_ok_def)
  qed
qed

text \<open>
  Readers see a page they hold only grow: its old bytes stay in place.
\<close>

definition refs_grown :: "addr multiset \<Rightarrow> stmem \<Rightarrow> stmem \<Rightarrow> bool" where
  "refs_grown R st st' \<longleftrightarrow> (\<forall>a\<in>#R. \<exists>n n'. st_nodes st a = Some n \<and> st_nodes st' a = Some n' \<and>
     (\<exists>more. node_bytes n' = node_bytes n @ more))"

lemma refs_kept_grown: "refs_kept R st st' \<Longrightarrow> refs_grown R st st'"
  by (force simp: refs_kept_def refs_grown_def node_bytes_def)

lemma refs_grown_trans: "refs_grown R st st' \<Longrightarrow> refs_grown R st' st'' \<Longrightarrow> refs_grown R st st''"
  unfolding refs_grown_def by (metis append.assoc option.inject)

lemma page_write_new:
  assumes "length pg = 4096" "0 \<le> k" "k \<le> 4096" "k \<le> int (length src)"
  shows "\<exists>d. page_write pg 0 src k = Some d \<and> length d = 4096 \<and> take (nat k) d = take (nat k) src"
  using assms by (auto simp: page_write_def min_def)

lemma take_nat_split:
  "0 \<le> k \<Longrightarrow> k \<le> len \<Longrightarrow> take (nat k) xs @ take (nat (len - k)) (drop (nat k) xs) = take (nat len) xs"
  by (metis append_take_drop_id take_add nat_add_distrib diff_ge_0_iff_ge add.commute diff_add_cancel)

lemma stmemAppend_loop_spec:
  assumes "sm_inv st mem as R" "len \<le> int (length data)"
  shows "\<exists>mem' st' bs. stmemAppend_loop mem data len st = Some (mem', st') \<and>
     sm_inv st' mem' (as @ bs) R \<and> origin_offset mem' = origin_offset mem \<and>
     stored st' (as @ bs) = stored st as @ take (nat len) data \<and>
     store_mem_size st' = store_mem_size st + 4096 * of_nat (length bs) \<and> refs_grown R st st'"
  using assms
proof (induction "nat len" arbitrary: mem data len st as rule: less_induct)
  case less
  show ?case
  proof (cases "0 < len")
    case False
    have "refs_grown R st st"
      using less.prems(1) refs_kept_grown refs_kept_refl by (auto simp: sm_inv_def)
    with False less.prems show ?thesis
      by (intro exI [of _ mem] exI [of _ st] exI [of _ "[]"]) (simp add: stmemAppend_loop.simps)
  next
    case True
    define k where "k = min len SM_PAGE_SIZE"
    have k: "0 < k" "k \<le> 4096" "k \<le> len"
      using True by (auto simp: k_def SM_PAGE_SIZE_def)
    have "length (st_junk st (st_brk st)) = 4096"
      using less.prems(1) by (simp add: sm_inv_def alloc_ok_def)
    then obtain d where d: "page_write (st_junk st (st_brk st)) 0 data k = Some d" "length d = 4096"
        "take (nat k) d = take (nat k) data"
      using page_write_new [of "st_junk st (st_brk st)" k data] k less.prems(2) by auto
    let ?st2 = "st_put (st_brk st) \<lparr>mn_data = d, mn_len = k, mn_uses = 0, mn_next = None\<rparr>
      (st\<lparr>st_brk := st_brk st + 1, store_mem_size := store_mem_size st + 4096\<rparr>)"
    obtain mem1 st1 where one: "stmem_link mem (st_brk st) ?st2 = Some (mem1, st1)"
        "sm_inv st1 mem1 (as @ [st_brk st]) R" "origin_offset mem1 = origin_offset mem"
        "stored st1 (as @ [st_brk st]) = stored st as @ take (nat k) data"
        "store_mem_size st1 = store_mem_size st + 4096" "refs_kept R st st1"
      using append_new_page [OF less.prems(1) d(2) k(1,2) refl] d(3) by auto
    obtain mem' st' bs where rest:
        "stmemAppend_loop mem1 (drop (nat k) data) (len - k) st1 = Some (mem', st')"
        "sm_inv st' mem' ((as @ [st_brk st]) @ bs) R" "origin_offset mem' = origin_offset mem1"
        "stored st' ((as @ [st_brk st]) @ bs) =
           stored st1 (as @ [st_brk st]) @ take (nat (len - k)) (drop (nat k) data)"
        "store_mem_size st' = store_mem_size st1 + 4096 * of_nat (length bs)" "refs_grown R st1 st'"
      using less.hyps [OF _ one(2), of "len - k" "drop (nat k) data"] k less.prems(2) by auto
    have "stmemAppend_loop mem data len st = Some (mem', st')"
      using True d(1) one(1) rest(1)
      by (subst stmemAppend_loop.simps) (simp add: mem_node_alloc_def Let_def flip: k_def)
    moreover have "stored st' (as @ st_brk st # bs) = stored st as @ take (nat len) data"
      using rest(4) take_nat_split [of k len data] k unfolding one(4)
      by (simp only: append_assoc append_Cons append_Nil)
    moreover have "refs_grown R st st'"
      using refs_grown_trans [OF refs_kept_grown [OF one(6)] rest(6)] .
    ultimately show ?thesis
      using rest one(3,5)
      by (intro exI [of _ mem'] exI [of _ st'] exI [of _ "st_brk st # bs"]) (simp add: algebra_simps)
  qed
qed

lemma page_write_more:
  assumes "node_ok n" "0 \<le> k" "mn_len n + k \<le> 4096" "k \<le> int (length src)"
  shows "\<exists>d. page_write (mn_data n) (mn_len n) src k = Some d \<and> length d = 4096 \<and>
           take (nat (mn_len n + k)) d = node_bytes n @ take (nat k) src"
  using assms by (auto simp: page_write_def node_ok_def node_bytes_def nat_add_distrib min_def)

lemma fill_last_page:
  assumes inv: "sm_inv st mem as R" "as \<noteq> []" and tn: "st_nodes st (last as) = Some tn"
    and d: "length d = 4096" "0 \<le> k" "mn_len tn + k \<le> 4096"
      "take (nat (mn_len tn + k)) d = node_bytes tn @ new"
    and st': "st' = st_put (last as) (tn\<lparr>mn_data := d, mn_len := mn_len tn + k\<rparr>) st"
  shows "sm_inv st' mem as R" "stored st' as = stored st as @ new" "refs_grown R st st'"
    "store_mem_size st' = store_mem_size st"
proof -
  let ?t = "last as"
  have i: "linked (st_nxt st) (mh_head mem) as" "pages_ok st as" "counts_ok st as R" "alloc_ok st"
    using inv(1) by (simp_all add: sm_inv_def)
  obtain bs where as: "as = bs @ [?t]"
    using inv(2) by (metis append_butlast_last_id)
  have t: "?t \<notin> set bs"
    using linked_distinct [OF i(1)] as by (metis distinct.simps(2) distinct_append not_distinct_conv_prefix disjoint_insert(1) list.simps(15) insertI1 IntI empty_iff)
  have nodes: "st_nodes st' = (st_nodes st)(?t \<mapsto> tn\<lparr>mn_data := d, mn_len := mn_len tn + k\<rparr>)"
    "st_brk st' = st_brk st" "st_junk st' = st_junk st"
    by (simp_all add: st' st_put_def)
  have "st_nxt st' = st_nxt st"
    using tn by (auto simp: st_nxt_def nodes fun_eq_iff)
  moreover have "node_ok tn"
    using i(2) as tn by (metis pages_ok_simps(2,3) option.sel)
  then have "pages_ok st' as"
    using i(2) d by (auto simp: pages_ok_def nodes node_ok_def)
  moreover have "counts_ok st' as R"
    unfolding st' using i(3) tn by (rule counts_ok_put) simp
  moreover have "alloc_ok st'"
    using i(4) tn by (auto simp: alloc_ok_def nodes)
  ultimately show "sm_inv st' mem as R"
    using inv(1) by (simp add: sm_inv_def)
  show "stored st' as = stored st as @ new"
  proof -
    have "stored st' bs = stored st bs"
      unfolding st' by (rule stored_put [OF t])
    moreover have "stored st' [?t] = stored st [?t] @ new"
      using tn d(4) by (simp add: nodes node_bytes_def)
    ultimately show ?thesis
      by (metis as append.assoc stored_simps(3))
  qed
  show "refs_grown R st st'"
    using refs_kept_grown [OF refs_kept_refl [OF i(3)]] tn d(4)
    by (auto simp: refs_grown_def nodes node_bytes_def)
  show "store_mem_size st' = store_mem_size st"
    by (simp add: st' st_put_def)
qed

text \<open>
  C11. \<open>stmemAppend\<close> appends. For a caller's buffer of at least \<open>len\<close> bytes it never fails, and
  afterwards the list stores the old bytes followed by the first \<open>len\<close> bytes of the buffer, from
  the same start offset; pages are only added at the end, the global counter grows by a page
  size for each of them, reference counts stay exact, and a reader's page keeps its bytes.
\<close>

theorem stmemAppend_correct:
  assumes "sm_inv st mem as R" "0 \<le> len" "len \<le> int (length data)"
  shows "\<exists>mem' st' bs. stmemAppend mem data len st = Some (mem', st') \<and>
     sm_inv st' mem' (as @ bs) R \<and> origin_offset mem' = origin_offset mem \<and>
     stored st' (as @ bs) = stored st as @ take (nat len) data \<and>
     store_mem_size st' = store_mem_size st + 4096 * of_nat (length bs) \<and> refs_grown R st st'"
proof (cases "as = []")
  case True
  then have "mh_head mem = None"
    using assms(1) by (simp add: sm_inv_def)
  then show ?thesis
    using stmemAppend_loop_spec [OF assms(1,3)] by (simp add: stmemAppend_def)
next
  case False
  have i: "linked (st_nxt st) (mh_head mem) as" "pages_ok st as" "mh_tail mem = Some (last as)"
    using assms(1) False by (simp_all add: sm_inv_def)
  obtain h where h: "mh_head mem = Some h"
    using i(1) False by (cases "mh_head mem") simp_all
  obtain tn where tn: "st_nodes st (last as) = Some tn"
    using linked_dom [OF i(1), of "last as"] False by auto
  have ok: "node_ok tn"
    using i(2) False tn by (metis last_in_set option.sel pages_ok_def)
  show ?thesis
  proof (cases "mn_len tn < SM_PAGE_SIZE")
    case False
    with stmemAppend_loop_spec [OF assms(1,3)] h tn i(3) show ?thesis
      by (simp add: stmemAppend_def)
  next
    case True
    define k where "k = min (SM_PAGE_SIZE - mn_len tn) len"
    have k: "0 \<le> k" "mn_len tn + k \<le> 4096" "k \<le> len"
      using True assms(2) by (auto simp: k_def SM_PAGE_SIZE_def)
    obtain d where d: "page_write (mn_data tn) (mn_len tn) data k = Some d" "length d = 4096"
        "take (nat (mn_len tn + k)) d = node_bytes tn @ take (nat k) data"
      using page_write_more [OF ok k(1,2), of data] k(3) assms(3) by auto
    let ?st = "st_put (last as) (tn\<lparr>mn_data := d, mn_len := mn_len tn + k\<rparr>) st"
    note fill = fill_last_page [OF assms(1) \<open>as \<noteq> []\<close> tn d(2) k(1,2) d(3) refl]
    have len: "len - k \<le> int (length (drop (nat k) data))"
      using assms(3) k by (simp add: of_nat_diff nat_le_iff)
    obtain mem' st' bs where rest:
        "stmemAppend_loop mem (drop (nat k) data) (len - k) ?st = Some (mem', st')"
        "sm_inv st' mem' (as @ bs) R" "origin_offset mem' = origin_offset mem"
        "stored st' (as @ bs) = stored ?st as @ take (nat (len - k)) (drop (nat k) data)"
        "store_mem_size st' = store_mem_size ?st + 4096 * of_nat (length bs)" "refs_grown R ?st st'"
      using stmemAppend_loop_spec [OF fill(1) len] by blast
    have "stmemAppend mem data len st = Some (mem', st')"
      using True h tn i(3) d(1) rest(1) by (simp add: stmemAppend_def flip: k_def)
    then show ?thesis
      using rest fill refs_grown_trans [OF fill(3) rest(6)] take_nat_split [of k len data] k by auto
  qed
qed

section \<open>Reading\<close>

lemma stmem_seek_spec:
  assumes "linked (st_nxt st) (Some a) as" "pages_ok st as"
  shows "(stmem_seek skip a t_off st = Some None \<and> skip (t_off + stored_len st as)) \<or>
    (\<exists>bs b cs. as = bs @ b # cs \<and>
       stmem_seek skip a t_off st = Some (Some (b, t_off + stored_len st bs)) \<and>
       (bs \<noteq> [] \<longrightarrow> skip (t_off + stored_len st bs)) \<and>
       \<not> skip (t_off + stored_len st bs + mn_len (the (st_nodes st b))))"
  using assms
proof (induction as arbitrary: a t_off)
  case (Cons a' as)
  then obtain n where n: "a' = a" "st_nodes st a = Some n" "linked (st_nxt st) (mn_next n) as"
    unfolding linked_st_Cons by auto
  have ok: "node_ok (the (st_nodes st a))" "pages_ok st as"
    using Cons.prems(2) n by simp_all
  consider (found) "\<not> skip (t_off + mn_len n)" | (last) "skip (t_off + mn_len n)" "mn_next n = None"
    | (step) c where "skip (t_off + mn_len n)" "mn_next n = Some c"
    by (cases "mn_next n") auto
  then show ?case
  proof cases
    case found
    with n show ?thesis
      by (intro disjI2 exI [of _ "[]"] exI [of _ a] exI [of _ as]) (simp add: stmem_seek.simps [of skip a])
  next
    case last
    with n ok show ?thesis
      by (simp add: stmem_seek.simps [of skip a])
  next
    case step
    have "stmem_seek skip a t_off st = stmem_seek skip c (t_off + mn_len n) st"
      using step n by (simp add: stmem_seek.simps [of skip a])
    moreover have l: "linked (st_nxt st) (Some c) as"
      using n(3) step by simp
    moreover have "stored_len st (a # bs) = mn_len n + stored_len st bs" for bs
      using ok(1) n(2) by simp
    ultimately show ?thesis
      using Cons.IH [OF l ok(2), of "t_off + mn_len n"] n(1)
    proof (elim disjE exE conjE)
      fix bs b cs
      assume *: "as = bs @ b # cs" "stmem_seek skip c (t_off + mn_len n) st =
          Some (Some (b, t_off + mn_len n + stored_len st bs))"
        "bs \<noteq> [] \<longrightarrow> skip (t_off + mn_len n + stored_len st bs)"
        "\<not> skip (t_off + mn_len n + stored_len st bs + mn_len (the (st_nodes st b)))"
        "stmem_seek skip a t_off st = stmem_seek skip c (t_off + mn_len n) st"
        "\<And>bs. stored_len st (a # bs) = mn_len n + stored_len st bs"
      then show ?thesis
        using n(1) step(1) by (intro disjI2 exI [of _ "a # bs"] exI [of _ b] exI [of _ cs])
          (cases "bs = []"; simp add: add.assoc)
    qed (simp add: add.assoc)
  qed
qed simp

lemma stmemCopy_loop_spec:
  assumes "linked (st_nxt st) p as" "pages_ok st as" "0 \<le> go"
  shows "stmemCopy_loop p out go st =
    Some (out @ take (nat go) (stored st as), go - int (length (take (nat go) (stored st as))))"
  using assms
proof (induction as arbitrary: p out go)
  case Nil
  then show ?case
    by (simp add: stmemCopy_loop.simps)
next
  case (Cons a as)
  then obtain n where n: "p = Some a" "st_nodes st a = Some n" "linked (st_nxt st) (mn_next n) as"
    unfolding linked_st_Cons by blast
  have ok: "node_ok n" "pages_ok st as"
    using Cons.prems(2) n by simp_all
  have len: "int (length (node_bytes n)) = mn_len n" "length (mn_data n) = 4096" "0 < mn_len n" "mn_len n \<le> 4096"
    using length_node_bytes [OF ok(1)] ok(1) by (simp_all add: node_ok_def)
  consider (zero) "go = 0" | (more) "go > mn_len n" "go > 0" | (last) "go > 0" "go \<le> mn_len n"
    using Cons.prems(3) by force
  then show ?case
  proof cases
    case zero
    with n show ?thesis
      by (simp add: stmemCopy_loop.simps [of "Some a"])
  next
    case more
    have "page_read (mn_data n) 0 (mn_len n) = Some (node_bytes n)"
      using len by (simp add: page_read_def node_bytes_def)
    moreover have tk: "take (nat go) (stored st (a # as)) =
        node_bytes n @ take (nat (go - mn_len n)) (stored st as)"
    proof -
      have "length (node_bytes n) \<le> nat go" "nat (go - mn_len n) = nat go - length (node_bytes n)"
        using more len(1) by linarith+
      then show ?thesis
        using n(2) by simp
    qed
    moreover have "0 \<le> go - mn_len n"
      using more by simp
    ultimately show ?thesis
      using more n(1,2) Cons.IH [OF n(3) ok(2), of "go - mn_len n" "out @ node_bytes n"] len(1)
      by (simp add: stmemCopy_loop.simps [of "Some a"])
  next
    case last
    have "page_read (mn_data n) 0 go = Some (take (nat go) (node_bytes n))"
      using last len by (simp add: page_read_def node_bytes_def min_def)
    with last n len Cons.IH [OF n(3) ok(2), of 0] show ?thesis
      by (simp add: stmemCopy_loop.simps [of "Some a"])
  qed
qed

lemma length_take_nat: "0 \<le> k \<Longrightarrow> k \<le> int (length xs) \<Longrightarrow> int (length (take (nat k) xs)) = k"
  by (auto simp: min_def)

lemma take_min_append:
  "0 \<le> sz \<Longrightarrow> take (nat (min sz (int (length d)))) d @ take (nat (sz - min sz (int (length d)))) xs =
     take (nat sz) (d @ xs)"
  by (cases "sz \<le> int (length d)") (auto simp: nat_diff_distrib)

text \<open>
  C12. \<open>stmemCopy\<close> from an offset at or after the start of the stored data returns exactly the
  stored bytes from that offset on, as many as fit into the caller's buffer, and their
  number; it reads nothing else, and it returns no bytes when the offset is at or past the end.
\<close>

theorem stmemCopy_correct:
  assumes "sm_inv st mem as R" "origin_offset mem \<le> offset" "0 < sz"
  shows "\<exists>out. stmemCopy mem offset sz st = Some (out, int (length out)) \<and>
    out = take (nat sz) (drop (nat (offset - origin_offset mem)) (stored st as))"
proof (cases as)
  case Nil
  with assms show ?thesis
    by (simp add: stmemCopy_def sm_inv_def)
next
  case (Cons a as')
  have i: "linked (st_nxt st) (Some a) as" "pages_ok st as" "mh_head mem = Some a"
    using assms(1) Cons by (auto simp: sm_inv_def)
  from stmem_seek_spec [OF i(1,2), of "\<lambda>e. e < offset" "origin_offset mem"] show ?thesis
  proof (elim disjE exE conjE)
    assume "stmem_seek (\<lambda>e. e < offset) a (origin_offset mem) st = Some None"
      "origin_offset mem + stored_len st as < offset"
    then show ?thesis
      using assms(3) i(3) by (simp add: stmemCopy_def stored_len_def)
  next
    fix bs b cs
    let ?t = "origin_offset mem + stored_len st bs"
    assume as: "as = bs @ b # cs"
      and seek: "stmem_seek (\<lambda>e. e < offset) a (origin_offset mem) st = Some (Some (b, ?t))"
      and lo: "bs \<noteq> [] \<longrightarrow> ?t < offset"
      and hi: "\<not> ?t + mn_len (the (st_nodes st b)) < offset"
    have t: "?t \<le> offset"
      using lo assms(2) by (cases "bs = []") auto
    have "linked (st_nxt st) (Some b) (b # cs)"
      using i(1) unfolding as lseg_append by auto
    then obtain n where n: "st_nodes st b = Some n" "linked (st_nxt st) (mn_next n) cs"
      unfolding linked_st_Cons by blast
    have ok: "node_ok n" "pages_ok st cs"
      using i(2) n(1) by (simp_all add: as)
    have len: "int (length (node_bytes n)) = mn_len n" "length (mn_data n) = 4096" "mn_len n \<le> 4096"
      using length_node_bytes [OF ok(1)] ok(1) by (simp_all add: node_ok_def)
    define k where "k = min sz (mn_len n - (offset - ?t))"
    have k: "0 \<le> k" "k \<le> sz" "offset - ?t + k \<le> mn_len n"
      using assms(3) hi n(1) by (auto simp: k_def)
    have rd: "page_read (mn_data n) (offset - ?t) k =
        Some (take (nat k) (drop (nat (offset - ?t)) (node_bytes n)))"
      using k t len(2,3) by (auto simp: page_read_def node_bytes_def drop_take min_def nat_diff_distrib)
    have off: "nat (offset - origin_offset mem) = length (stored st bs) + nat (offset - ?t)"
      using t by (simp add: stored_len_def nat_eq_iff)
    define d where "d = drop (nat (offset - ?t)) (node_bytes n)"
    have dlen: "int (length d) = mn_len n - (offset - ?t)"
      using len(1) t hi n(1) by (simp add: d_def of_nat_diff nat_le_iff)
    have full: "take (nat k) d @ take (nat (sz - k)) (stored st cs) = take (nat sz) (d @ stored st cs)"
      unfolding k_def dlen [symmetric] using take_min_append [of sz d "stored st cs"] assms(3) by simp
    have "stmemCopy mem offset sz st =
        Some (take (nat sz) (d @ stored st cs), int (length (take (nat sz) (d @ stored st cs))))"
    proof -
      have "stmemCopy_loop (mn_next n) (take (nat k) d) (sz - k) st =
          Some (take (nat sz) (d @ stored st cs),
            sz - k - int (length (take (nat (sz - k)) (stored st cs))))"
        using stmemCopy_loop_spec [OF n(2) ok(2), of "sz - k" "take (nat k) d"] k(2) full by simp
      moreover have "sz - (sz - k - int (length (take (nat (sz - k)) (stored st cs)))) =
          int (length (take (nat sz) (d @ stored st cs)))"
      proof -
        have "int (length (take (nat k) d)) = k"
          by (rule length_take_nat [OF k(1)]) (use k(3) dlen in linarith)
        then show ?thesis
          unfolding full [symmetric] length_append by linarith
      qed
      ultimately show ?thesis
        using seek n(1) rd assms(3) i(3) by (simp add: stmemCopy_def flip: k_def d_def)
    qed
    moreover have "drop (nat (offset - origin_offset mem)) (stored st as) = d @ stored st cs"
    proof -
      have "nat (offset - ?t) \<le> length (node_bytes n)"
        using len(1) hi n(1) by (simp add: nat_le_iff)
      then show ?thesis
        by (simp add: as n(1) off d_def)
    qed
    ultimately show ?thesis
      by simp
  qed
qed

section \<open>References\<close>

lemma sm_inv_uses:
  assumes inv: "sm_inv st mem as R" and n: "st_nodes st a = Some n"
    and st': "st' = st_put a (n\<lparr>mn_uses := mn_uses n + 1\<rparr>) st"
  shows "sm_inv st' mem as (add_mset a R)" "stored st' bs = stored st bs"
proof -
  have nodes: "st_nodes st' b = (if b = a then Some (n\<lparr>mn_uses := mn_uses n + 1\<rparr>) else st_nodes st b)"
    "st_brk st' = st_brk st" "st_junk st' = st_junk st" for b
    by (simp_all add: st' st_put_def)
  show "stored st' bs = stored st bs"
    by (rule stored_cong) (use n in \<open>simp add: nodes node_bytes_def\<close>)
  have c: "counts_ok st as R" "alloc_ok st"
    using inv by (simp_all add: sm_inv_def)
  have "st_nxt st' = st_nxt st"
    using n by (auto simp: st_nxt_def nodes fun_eq_iff)
  moreover have "pages_ok st' as = pages_ok st as"
    by (rule pages_ok_cong) (use n in \<open>simp add: nodes node_ok_def\<close>)
  moreover have "counts_ok st' as (add_mset a R)"
    unfolding counts_ok_def
  proof
    fix b
    show "case st_nodes st' b of None \<Rightarrow> owners as (add_mset a R) b = 0
      | Some n \<Rightarrow> 0 \<le> mn_uses n \<and> mn_uses n + 1 = owners as (add_mset a R) b"
      using c(1) [unfolded counts_ok_def, THEN spec, of b] n unfolding nodes
      by (cases "b = a") (auto simp: owners_def split: option.splits)
  qed
  moreover have "alloc_ok st'"
    using c(2) n by (auto simp: alloc_ok_def nodes)
  ultimately show "sm_inv st' mem as (add_mset a R)"
    using inv by (simp add: sm_inv_def)
qed

lemma sm_inv_unref:
  assumes "sm_inv st mem as (add_mset a R)"
  shows "\<exists>st'. stmemNodeFree a st = Some st' \<and> sm_inv st' mem as R \<and> stored st' as = stored st as \<and>
    (st_nodes st' a = None \<longleftrightarrow> a \<notin># R \<and> a \<notin> set as) \<and> refs_kept R st st'"
proof -
  have own: "case st_nodes st b of None \<Rightarrow> owners as (add_mset a R) b = 0
      | Some n \<Rightarrow> 0 \<le> mn_uses n \<and> mn_uses n + 1 = owners as (add_mset a R) b" for b
    using assms by (simp add: sm_inv_def counts_ok_def)
  obtain n where n: "st_nodes st a = Some n"
    using own [of a] by (cases "st_nodes st a") (auto simp: owners_def split: if_splits)
  let ?st = "st\<lparr>st_nodes := drop_owner (st_nodes st) {a}\<rparr>"
  have nodes: "st_nodes ?st b = (if b = a then if mn_uses n = 0 then None
      else Some (n\<lparr>mn_uses := mn_uses n - 1\<rparr>) else st_nodes st b)" for b
    using n by (simp add: drop_owner_def)
  have uses: "mn_uses n = int (count R a) + (if a \<in> set as then 1 else 0)"
    using own [of a] n by (simp add: owners_def)
  have same: "st_nodes ?st b \<noteq> None \<and> mn_next (the (st_nodes ?st b)) = mn_next (the (st_nodes st b)) \<and>
      mn_data (the (st_nodes ?st b)) = mn_data (the (st_nodes st b)) \<and>
      mn_len (the (st_nodes ?st b)) = mn_len (the (st_nodes st b)) \<and> st_nodes st b \<noteq> None"
    if "b \<in> set as \<or> b \<in># R" for b
    using that own [of b] n uses unfolding nodes
    by (auto simp: owners_def count_eq_zero_iff split: option.splits if_splits)
  have "linked (st_nxt ?st) (mh_head mem) as = linked (st_nxt st) (mh_head mem) as"
    using same by (intro lseg_cong) (force simp: st_nxt_def)
  moreover have "pages_ok ?st as = pages_ok st as"
    by (rule pages_ok_cong) (use same in \<open>simp add: node_ok_def\<close>)
  moreover have "counts_ok ?st as R"
    unfolding counts_ok_def
  proof
    fix b
    show "case st_nodes ?st b of None \<Rightarrow> owners as R b = 0
      | Some n \<Rightarrow> 0 \<le> mn_uses n \<and> mn_uses n + 1 = owners as R b"
      using own [of b] uses unfolding nodes by (auto simp: owners_def split: option.splits if_splits)
  qed
  moreover have "alloc_ok ?st"
    using assms by (auto simp: sm_inv_def alloc_ok_def drop_owner_def)
  moreover have "stored ?st as = stored st as"
    by (rule stored_cong) (use same in \<open>simp add: node_bytes_def\<close>)
  moreover have "st_nodes ?st a = None \<longleftrightarrow> a \<notin># R \<and> a \<notin> set as"
    unfolding nodes using uses by (auto simp: count_eq_zero_iff split: if_splits)
  moreover have "refs_kept R st ?st"
    unfolding refs_kept_def using same by fastforce
  ultimately show ?thesis
    using assms stmemNodeFree_eq [of st a] n by (simp add: sm_inv_def)
qed

lemma sm_inv_uses_fit:
  assumes "sm_inv st mem as R" "st_nodes st a = Some n" "int_range (int (size R) + 1)"
  shows "int_range (mn_uses n + 1)"
proof -
  have "0 \<le> mn_uses n" "mn_uses n + 1 = owners as R a"
    using assms(1,2) by (auto simp: sm_inv_def counts_ok_def split: option.splits)
  moreover have "owners as R a \<le> int (size R) + 1"
    using count_le_size [of R a] by (simp add: owners_def)
  ultimately show ?thesis
    using assms(3) by (simp add: int_range_def)
qed

lemma stmemRef_spec:
  assumes "sm_inv st mem as R" "origin_offset mem \<le> offset" "int_range (int (size R) + 1)"
  shows "if offset < origin_offset mem + stored_len st as
    then \<exists>k b i st' n. stmemRef mem offset r st = Some (k, \<lparr>mr_node = Some b, mr_offset = i\<rparr>, st') \<and>
      sm_inv st' mem as (add_mset b R) \<and> b \<in> set as \<and> 0 < k \<and> 0 \<le> i \<and> stored st' as = stored st as \<and>
      st_nodes st' b = Some n \<and> i + k = mn_len n \<and> node_ok n \<and>
      drop (nat i) (node_bytes n) = take (nat k) (drop (nat (offset - origin_offset mem)) (stored st as))
    else stmemRef mem offset r st = Some (0, r, st)"
proof (cases as)
  case Nil
  with assms show ?thesis
    by (simp add: stmemRef_def sm_inv_def)
next
  case (Cons a as')
  have i: "linked (st_nxt st) (Some a) as" "pages_ok st as" "mh_head mem = Some a"
    using assms(1) Cons by (auto simp: sm_inv_def)
  from stmem_seek_spec [OF i(1,2), of "\<lambda>e. e \<le> offset" "origin_offset mem"] show ?thesis
  proof (elim disjE exE conjE)
    assume "stmem_seek (\<lambda>e. e \<le> offset) a (origin_offset mem) st = Some None"
      "origin_offset mem + stored_len st as \<le> offset"
    then show ?thesis
      using i(3) by (simp add: stmemRef_def)
  next
    fix bs b cs
    let ?t = "origin_offset mem + stored_len st bs"
    assume as: "as = bs @ b # cs"
      and seek: "stmem_seek (\<lambda>e. e \<le> offset) a (origin_offset mem) st = Some (Some (b, ?t))"
      and lo: "bs \<noteq> [] \<longrightarrow> ?t \<le> offset"
      and hi: "\<not> ?t + mn_len (the (st_nodes st b)) \<le> offset"
    have t: "?t \<le> offset"
      using lo assms(2) by (cases "bs = []") auto
    obtain n where n: "st_nodes st b = Some n"
      using linked_dom [OF i(1), of b] as by auto
    have ok: "node_ok n" "pages_ok st bs"
      using i(2) n by (simp_all add: as)
    have len: "int (length (node_bytes n)) = mn_len n"
      by (rule length_node_bytes [OF ok(1)])
    let ?n = "n\<lparr>mn_uses := mn_uses n + 1\<rparr>"
    let ?st = "st_put b ?n st"
    let ?k = "mn_len n + ?t - offset"
    have k: "0 < ?k"
      using hi n by simp
    have total: "stored_len st as = stored_len st bs + mn_len n + stored_len st cs" "0 \<le> stored_len st cs"
      using len n by (simp_all add: as stored_len_def)
    have ref: "stmemRef mem offset r st = Some (?k, \<lparr>mr_node = Some b, mr_offset = offset - ?t\<rparr>, ?st)"
      using seek n i(3) t k sm_inv_uses_fit [OF assms(1) n assms(3)] by (simp add: stmemRef_def)
    have off: "nat (offset - origin_offset mem) = length (stored st bs) + nat (offset - ?t)"
      using t by (simp add: stored_len_def nat_eq_iff)
    have le: "nat (offset - ?t) \<le> length (node_bytes n)"
      using k len by (simp add: nat_le_iff)
    have "drop (nat (offset - ?t)) (node_bytes n) =
        take (nat ?k) (drop (nat (offset - ?t)) (node_bytes n) @ stored st cs)"
    proof -
      have "length (drop (nat (offset - ?t)) (node_bytes n)) = nat ?k"
        using len t k by (simp add: nat_eq_iff of_nat_diff le)
      then show ?thesis
        by simp
    qed
    moreover have "drop (nat (offset - origin_offset mem)) (stored st as) =
        drop (nat (offset - ?t)) (node_bytes n) @ stored st cs"
      using le by (simp add: as n off)
    moreover have "node_bytes ?n = node_bytes n"
      by (simp add: node_bytes_def)
    ultimately have "drop (nat (offset - ?t)) (node_bytes ?n) =
        take (nat ?k) (drop (nat (offset - origin_offset mem)) (stored st as))"
      by (simp only:)
    moreover have "offset < origin_offset mem + stored_len st as"
      using total k by simp
    moreover have "b \<in> set as" "st_nodes ?st b = Some ?n" "node_ok ?n" "0 \<le> offset - ?t"
        "offset - ?t + ?k = mn_len ?n"
      using ok(1) t by (simp_all add: as st_put_def node_ok_def)
    moreover note ref k sm_inv_uses(1) [OF assms(1) n refl] sm_inv_uses(2) [OF assms(1) n refl, of as]
    ultimately show ?thesis
      by (simp only: if_True) blast
  qed
qed

lemma stmemFree_spec:
  assumes "sm_inv st mem as R"
  shows "\<exists>mem' st'. stmemFree mem st = Some (mem', st') \<and> sm_inv st' mem' [] R \<and> refs_kept R st st' \<and>
    store_mem_size st' = store_mem_size st - 4096 * of_nat (length as)"
proof -
  have i: "linked (st_nxt st) (mh_head mem) as" "counts_ok st as R" "alloc_ok st"
    using assms by (simp_all add: sm_inv_def)
  have "counts_ok (dropped as st) [] R"
    using counts_ok_dropped [of st as "[]" R] i(2) linked_distinct [OF i(1)] by simp
  then show ?thesis
    using stmemFree_loop_spec [OF i(1)] refs_kept_dropped [OF i(2) order_refl] alloc_ok_dropped [OF i(3)]
    by (simp add: stmemFree_def sm_inv_def)
qed

text \<open>
  C14. A reference keeps its page alive, and only as long as it is held. \<open>stmemRef\<close> at an
  offset inside the stored data, when the number of references held fits an \<open>int\<close>, never fails and returns a page, a position in it and the
  number of bytes from there to the end of the page, which are the stored bytes at that offset.
  When the whole list is freed while the reference is held, the page keeps those bytes;
  dropping the reference afterwards frees the page, unless another reader still holds it.
\<close>

theorem stmem_ref_lifetime:
  assumes "sm_inv st mem as R" "origin_offset mem \<le> offset"
    and "offset < origin_offset mem + int (length (stored st as))" "int_range (int (size R) + 1)"
  shows "\<exists>k b i st1 n mem2 st2 n2 st3.
    stmemRef mem offset r st = Some (k, \<lparr>mr_node = Some b, mr_offset = i\<rparr>, st1) \<and>
    0 < k \<and> 0 \<le> i \<and> st_nodes st1 b = Some n \<and> i + k = mn_len n \<and>
    drop (nat i) (node_bytes n) = take (nat k) (drop (nat (offset - origin_offset mem)) (stored st as)) \<and>
    stmemFree mem st1 = Some (mem2, st2) \<and> st_nodes st2 b = Some n2 \<and> node_bytes n2 = node_bytes n \<and>
    stmemNodeUnref \<lparr>mr_node = Some b, mr_offset = i\<rparr> st2 = Some (\<lparr>mr_node = None, mr_offset = - 1\<rparr>, st3) \<and>
    sm_inv st3 mem2 [] R \<and> (st_nodes st3 b = None \<longleftrightarrow> b \<notin># R)"
proof -
  obtain k b i st1 n where ref:
      "stmemRef mem offset r st = Some (k, \<lparr>mr_node = Some b, mr_offset = i\<rparr>, st1)"
      "sm_inv st1 mem as (add_mset b R)" "0 < k" "0 \<le> i" "st_nodes st1 b = Some n" "i + k = mn_len n"
      "drop (nat i) (node_bytes n) = take (nat k) (drop (nat (offset - origin_offset mem)) (stored st as))"
    using stmemRef_spec [OF assms(1,2,4), of r] assms(3) by (auto simp: stored_len_def)
  obtain mem2 st2 where free: "stmemFree mem st1 = Some (mem2, st2)"
      "sm_inv st2 mem2 [] (add_mset b R)" "refs_kept (add_mset b R) st1 st2"
    using stmemFree_spec [OF ref(2)] by blast
  obtain n2 where n2: "st_nodes st2 b = Some n2" "node_bytes n2 = node_bytes n"
    using free(3) ref(5) by (auto simp: refs_kept_def node_bytes_def)
  obtain st3 where unref: "stmemNodeFree b st2 = Some st3" "sm_inv st3 mem2 [] R"
      "st_nodes st3 b = None \<longleftrightarrow> b \<notin># R"
    using sm_inv_unref [OF free(2)] by auto
  show ?thesis
    using ref free(1) n2 unref by (auto simp: stmemNodeUnref_def)
qed

section \<open>An example\<close>

definition ex_mem :: stmem where
  "ex_mem = \<lparr>st_nodes = (\<lambda>_. None), st_brk = 0, st_junk = (\<lambda>_. replicate 4096 0), store_mem_size = 0\<rparr>"

definition ex_hdr :: mem_hdr where
  "ex_hdr = \<lparr>mh_head = None, mh_tail = None, origin_offset = 0\<rparr>"

lemma ex_mem_inv: "sm_inv ex_mem ex_hdr [] {#}"
  by (simp add: sm_inv_def ex_mem_def ex_hdr_def counts_ok_def owners_def alloc_ok_def)

text \<open>The list after three bytes have been appended to an empty one.\<close>

definition ex_page :: mem_node where
  "ex_page = \<lparr>mn_data = [1, 2, 3] @ replicate 4093 0, mn_len = 3, mn_uses = 0, mn_next = None\<rparr>"

definition ex_mem3 :: stmem where
  "ex_mem3 = \<lparr>st_nodes = [0 \<mapsto> ex_page], st_brk = 1, st_junk = (\<lambda>_. replicate 4096 0),
     store_mem_size = 4096\<rparr>"

definition ex_hdr3 :: mem_hdr where
  "ex_hdr3 = \<lparr>mh_head = Some 0, mh_tail = Some 0, origin_offset = 0\<rparr>"

lemma ex_mem3_inv: "sm_inv ex_mem3 ex_hdr3 [0] {#}"
  by (auto simp: sm_inv_def ex_mem3_def ex_hdr3_def ex_page_def counts_ok_def owners_def alloc_ok_def
      st_nxt_def node_ok_def)

lemma ex_mem3_stored: "stored ex_mem3 [0] = [1, 2, 3]"
  by (simp add: stored_def ex_mem3_def ex_page_def node_bytes_def)

theorem stmemAppend_correct_witness:
  "\<exists>mem st as. stmemAppend ex_hdr [1, 2, 3, 4] 3 ex_mem = Some (mem, st) \<and>
     sm_inv st mem as {#} \<and> stored st as = [1, 2, 3]"
  using stmemAppend_correct [OF ex_mem_inv, of 3 "[1, 2, 3, 4]"] by auto

theorem stmemCopy_correct_witness:
  "stmemCopy ex_hdr3 1 10 ex_mem3 = Some ([2, 3], 2)"
  using stmemCopy_correct [OF ex_mem3_inv, of 1 10] unfolding ex_mem3_stored by (simp add: ex_hdr3_def)

theorem stmemFreeDataUpto_correct_witness:
  "\<exists>off mem st cs. stmemFreeDataUpto ex_hdr3 2 ex_mem3 = Some (off, mem, st) \<and>
     off \<le> 2 \<and> stored st cs = drop (nat off) [1, 2, 3] \<and> sm_inv st mem cs {#}"
  using stmemFreeDataUpto_correct [OF ex_mem3_inv, of 2] unfolding ex_mem3_stored
  by (auto simp: ex_hdr3_def)

theorem stmem_ref_lifetime_witness:
  "\<exists>k b i st1 mem2 st2 st3. stmemRef ex_hdr3 1 \<lparr>mr_node = None, mr_offset = 0\<rparr> ex_mem3 =
       Some (k, \<lparr>mr_node = Some b, mr_offset = i\<rparr>, st1) \<and> stmemFree ex_hdr3 st1 = Some (mem2, st2) \<and>
     stmemNodeUnref \<lparr>mr_node = Some b, mr_offset = i\<rparr> st2 = Some (\<lparr>mr_node = None, mr_offset = - 1\<rparr>, st3) \<and>
     st_nodes st3 b = None"
proof -
  have "origin_offset ex_hdr3 \<le> 1" "1 < origin_offset ex_hdr3 + int (length (stored ex_mem3 [0]))"
      "int_range (int (size ({#} :: addr multiset)) + 1)"
    unfolding ex_mem3_stored by (simp_all add: ex_hdr3_def int_range_def)
  from stmem_ref_lifetime [OF ex_mem3_inv this, of "\<lparr>mr_node = None, mr_offset = 0\<rparr>"] show ?thesis
    by auto
qed

end
