(* ===== verification/Base64.thy ===== *)
theory Base64
  imports Lusca_Prelude
begin

unbundle bit_operations_syntax

text \<open>
  The base 64 routines of \<^verbatim>\<open>lib/base64.c\<close> and \<^verbatim>\<open>lib/uudecode.c\<close>. A C string argument is the list
  of its bytes, the end of the list or a zero byte being its terminator; binary data are the bytes
  readable at the pointer. The
  results go to static arrays of \<open>BASE64_RESULT_SZ\<close> bytes or to allocated memory, and a write
  outside them is \<open>None\<close>.
\<close>

section \<open>Tables\<close>

definition BASE64_RESULT_SZ :: nat where "BASE64_RESULT_SZ = 8192"

definition base64_code :: "byte list" where
  "base64_code = bytes_of ''ABCDEFGHIJKLMNOPQRSTUVWXYZabcdefghijklmnopqrstuvwxyz0123456789+/''"

text \<open>The table that \<open>base64_init\<close> fills.\<close>

definition base64_init :: "int list" where
  "base64_init =
     (let t0 = replicate 256 (- 1);
          t1 = fold (\<lambda>i t. t[unat (base64_code ! i) := int i]) [0..<64] t0
      in t1[unat (of_char CHR ''='' :: byte) := 0])"

definition pr2six :: "int list" where
  "pr2six = [
    64, 64, 64, 64, 64, 64, 64, 64, 64, 64, 64, 64, 64, 64, 64, 64, 64, 64, 64, 64, 64, 64, 64, 64,
    64, 64, 64, 64, 64, 64, 64, 64, 64, 64, 64, 64, 64, 64, 64, 64, 64, 64, 64, 62, 64, 64, 64, 63,
    52, 53, 54, 55, 56, 57, 58, 59, 60, 61, 64, 64, 64, 64, 64, 64, 64, 0, 1, 2, 3, 4, 5, 6, 7, 8, 9,
    10, 11, 12, 13, 14, 15, 16, 17, 18, 19, 20, 21, 22, 23, 24, 25, 64, 64, 64, 64, 64, 64, 26, 27,
    28, 29, 30, 31, 32, 33, 34, 35, 36, 37, 38, 39, 40, 41, 42, 43, 44, 45, 46, 47, 48, 49, 50, 51,
    64, 64, 64, 64, 64, 64, 64, 64, 64, 64, 64, 64, 64, 64, 64, 64, 64, 64, 64, 64, 64, 64, 64, 64,
    64, 64, 64, 64, 64, 64, 64, 64, 64, 64, 64, 64, 64, 64, 64, 64, 64, 64, 64, 64, 64, 64, 64, 64,
    64, 64, 64, 64, 64, 64, 64, 64, 64, 64, 64, 64, 64, 64, 64, 64, 64, 64, 64, 64, 64, 64, 64, 64,
    64, 64, 64, 64, 64, 64, 64, 64, 64, 64, 64, 64, 64, 64, 64, 64, 64, 64, 64, 64, 64, 64, 64, 64,
    64, 64, 64, 64, 64, 64, 64, 64, 64, 64, 64, 64, 64, 64, 64, 64, 64, 64, 64, 64, 64, 64, 64, 64,
    64, 64, 64, 64, 64, 64, 64, 64, 64, 64, 64, 64, 64]"

section \<open>Encoding\<close>

definition result_put :: "byte list \<Rightarrow> byte \<Rightarrow> byte list option" where
  "result_put out b = (if length out < BASE64_RESULT_SZ then Some (out @ [b]) else None)"

definition code_at :: "int \<Rightarrow> byte option" where
  "code_at i = arr_getz base64_code i"

text \<open>The four characters of a complete group of three bytes.\<close>

definition base64_group :: "byte list \<Rightarrow> int \<Rightarrow> byte list option" where
  "base64_group out bits = do {
     c \<leftarrow> code_at (drop_bit 18 bits); out \<leftarrow> result_put out c;
     c \<leftarrow> code_at (drop_bit 12 bits AND 0x3f); out \<leftarrow> result_put out c;
     c \<leftarrow> code_at (drop_bit 6 bits AND 0x3f); out \<leftarrow> result_put out c;
     c \<leftarrow> code_at (bits AND 0x3f); result_put out c
   }"

text \<open>The body of the loop, on \<open>bits\<close>, \<open>char_count\<close> and the bytes written so far.\<close>

definition base64_step :: "byte \<Rightarrow> int \<times> nat \<times> byte list \<Rightarrow> (int \<times> nat \<times> byte list) option" where
  "base64_step c st = (case st of (bits, char_count, out) \<Rightarrow>
     let bits = bits + int (unat c); char_count = char_count + 1 in
     if char_count = 3 then do { out \<leftarrow> base64_group out bits; Some (0, 0, out) }
     else Some (push_bit 8 bits, char_count, out))"

fun base64_encode_loop :: "byte list \<Rightarrow> int \<times> nat \<times> byte list \<Rightarrow> (int \<times> nat \<times> byte list) option" where
  "base64_encode_loop [] st = Some st"
| "base64_encode_loop (c # s) st =
     (if c \<noteq> 0 \<and> length (snd (snd st)) < BASE64_RESULT_SZ - 5
      then do { st \<leftarrow> base64_step c st; base64_encode_loop s st }
      else Some st)"

text \<open>The rest of the functions: the incomplete group, and the terminator.\<close>

definition base64_finish :: "int \<times> nat \<times> byte list \<Rightarrow> byte list option" where
  "base64_finish st = (case st of (bits, char_count, out) \<Rightarrow> do {
     out \<leftarrow> (if char_count \<noteq> 0 then do {
        let bits = push_bit (16 - 8 * char_count) bits;
        c \<leftarrow> code_at (drop_bit 18 bits); out \<leftarrow> result_put out c;
        c \<leftarrow> code_at (drop_bit 12 bits AND 0x3f); out \<leftarrow> result_put out c;
        if char_count = 1 then do {
          out \<leftarrow> result_put out (of_char CHR ''='');
          result_put out (of_char CHR ''='')
        } else do {
          c \<leftarrow> code_at (drop_bit 6 bits AND 0x3f); out \<leftarrow> result_put out c;
          result_put out (of_char CHR ''='')
        }
      } else Some out);
     result_put out 0
   })"

definition base64_encode :: "byte list \<Rightarrow> byte list option" where
  "base64_encode decoded_str = do {
     st \<leftarrow> base64_encode_loop decoded_str (0, 0, []);
     base64_finish st
   }"

text \<open>The test \<open>len--\<close> is true for every \<open>len\<close> but zero.\<close>

fun base64_encode_bin_loop ::
  "byte list \<Rightarrow> int \<Rightarrow> int \<times> nat \<times> byte list \<Rightarrow> (int \<times> nat \<times> byte list) option" where
  "base64_encode_bin_loop data len st =
     (if len \<noteq> 0 \<and> length (snd (snd st)) < BASE64_RESULT_SZ - 5
      then (case data of
              [] \<Rightarrow> None
            | c # data \<Rightarrow> do { st \<leftarrow> base64_step c st; base64_encode_bin_loop data (len - 1) st })
      else Some st)"

declare base64_encode_bin_loop.simps [simp del]

definition base64_encode_bin :: "byte list \<Rightarrow> int \<Rightarrow> byte list option" where
  "base64_encode_bin data len = do {
     st \<leftarrow> base64_encode_bin_loop data len (0, 0, []);
     base64_finish st
   }"

section \<open>Decoding\<close>

text \<open>The loop of \<open>base64_decode\<close> on \<open>val\<close>, \<open>c\<close> and the bytes written.\<close>

fun base64_decode_loop :: "byte list \<Rightarrow> int \<Rightarrow> nat \<Rightarrow> byte list \<Rightarrow> byte list option" where
  "base64_decode_loop [] val c out = Some out"
| "base64_decode_loop (p # s) val c out =
     (if p \<noteq> 0 \<and> length out + 4 < BASE64_RESULT_SZ then do {
        v \<leftarrow> arr_get base64_init (unat p mod 256);
        if v < 0 then base64_decode_loop s val c out
        else let val = push_bit 6 val + v; c = c + 1 in
          if c < 4 then base64_decode_loop s val c out
          else do {
            out \<leftarrow> result_put out (word_of_int (drop_bit 16 val));
            out \<leftarrow> result_put out (word_of_int (drop_bit 8 val AND 0xff));
            out \<leftarrow> result_put out (word_of_int (val AND 0xff));
            base64_decode_loop s 0 0 out
          }
      }
      else Some out)"

definition base64_decode :: "byte list \<Rightarrow> byte list option" where
  "base64_decode p = do {
     out \<leftarrow> base64_decode_loop p 0 0 [];
     result_put out 0
   }"

text \<open>
  \<open>uudecode\<close> works on the memory at the pointer, which holds the string, its terminator and
  whatever follows.
\<close>

fun uu_strip :: "byte list \<Rightarrow> byte list" where
  "uu_strip (b # bs) = (if b = of_char CHR '' '' \<or> b = 9 then uu_strip bs else b # bs)"
| "uu_strip [] = []"

fun uu_count :: "byte list \<Rightarrow> int option" where
  "uu_count [] = None"
| "uu_count (b # bs) = do {
     v \<leftarrow> arr_get pr2six (unat b);
     if v \<le> 63 then do { n \<leftarrow> uu_count bs; Some (n + 1) } else Some 0
   }"

definition pr_at :: "byte list \<Rightarrow> nat \<Rightarrow> int option" where
  "pr_at buf i = do { b \<leftarrow> arr_get buf i; arr_get pr2six (unat b) }"

text \<open>\<open>i\<close> is the position of \<open>bufin\<close>; the result also gives its final value and \<open>nprbytes\<close>.\<close>

function uu_loop :: "byte list \<Rightarrow> nat \<Rightarrow> int \<Rightarrow> byte list \<Rightarrow> (nat \<times> int \<times> byte list) option" where
  "uu_loop buf i nprbytes out =
     (if nprbytes > 0 then do {
        p0 \<leftarrow> pr_at buf i;
        p1 \<leftarrow> pr_at buf (i + 1);
        p2 \<leftarrow> pr_at buf (i + 2);
        p3 \<leftarrow> pr_at buf (i + 3);
        uu_loop buf (i + 4) (nprbytes - 4)
          (out @ [word_of_int (push_bit 2 p0 OR drop_bit 4 p1),
                  word_of_int (push_bit 4 p1 OR drop_bit 2 p2),
                  word_of_int (push_bit 6 p2 OR p3)])
      }
      else Some (i, nprbytes, out))"
  by auto
termination
  by (relation "measure (\<lambda>(_, _, n, _). nat n)") auto

declare uu_loop.simps [simp del]

text \<open>
  The allocated result has \<open>nbytesdecoded + 1\<close> bytes, of which the loop writes \<open>out\<close>; the last
  assignment cuts the string at \<open>nbytesdecoded\<close>.
\<close>

definition uudecode :: "byte list \<Rightarrow> byte list option" where
  "uudecode bufcoded = do {
     let buf = uu_strip bufcoded;
     nprbytes \<leftarrow> uu_count buf;
     let nbytesdecoded = ((nprbytes + 3) div 4) * 3;
     (i, rest, out) \<leftarrow> uu_loop buf 0 nprbytes [];
     c_assert (int (length out) \<le> nbytesdecoded + 1);
     n \<leftarrow> (if rest AND 3 \<noteq> 0 then do {
        v \<leftarrow> (if 2 \<le> i then pr_at buf (i - 2) else None);
        Some (if v > 63 then nbytesdecoded - 2 else nbytesdecoded - 1)
      } else Some nbytesdecoded);
     c_assert (0 \<le> n);
     Some (take (nat n) out @ [0])
   }"

section \<open>Reference encoding\<close>

definition code :: "int \<Rightarrow> byte" where
  "code i = base64_code ! nat i"

definition sextets :: "int \<Rightarrow> int list" where
  "sextets n = [n div 2 ^ 18, n div 2 ^ 12 mod 64, n div 2 ^ 6 mod 64, n mod 64]"

definition pad :: byte where
  "pad = of_char CHR ''=''"

fun base64_ref :: "byte list \<Rightarrow> byte list" where
  "base64_ref [] = []"
| "base64_ref [a] = map code (take 2 (sextets (uint a * 65536))) @ [pad, pad]"
| "base64_ref [a, b] = map code (take 3 (sextets (uint a * 65536 + uint b * 256))) @ [pad]"
| "base64_ref (a # b # c # s) =
     map code (sextets (uint a * 65536 + uint b * 256 + uint c)) @ base64_ref s"

text \<open>The steps of either encoder over a given text, as far as the result buffer allows.\<close>

fun encode_steps :: "byte list \<Rightarrow> int \<times> nat \<times> byte list \<Rightarrow> (int \<times> nat \<times> byte list) option" where
  "encode_steps [] st = Some st"
| "encode_steps (c # s) st =
     (if length (snd (snd st)) < BASE64_RESULT_SZ - 5
      then do { st \<leftarrow> base64_step c st; encode_steps s st }
      else Some st)"

lemma base64_encode_loop_steps: "base64_encode_loop s st = encode_steps (takeWhile (\<lambda>c. c \<noteq> 0) s) st"
  by (induction s st rule: base64_encode_loop.induct) (auto cong: Option.bind_cong)

subsection \<open>The tables\<close>

lemma unat_byte_lt [simp]: "unat (b :: byte) < 256"
  using unsigned_less [of b] by simp

lemma base64_code_eq: "base64_code = [65, 66, 67, 68, 69, 70, 71, 72, 73, 74, 75, 76, 77, 78, 79, 80, 81, 82, 83, 84, 85, 86, 87, 88,
 89, 90, 97, 98, 99, 100, 101, 102, 103, 104, 105, 106, 107, 108, 109, 110, 111, 112, 113, 114,
 115, 116, 117, 118, 119, 120, 121, 122, 48, 49, 50, 51, 52, 53, 54, 55, 56, 57, 43, 47]"
  by (simp add: base64_code_def bytes_of_def)

lemma length_base64_code: "length base64_code = 64"
  by (simp add: base64_code_eq)
lemma distinct_base64_code: "distinct base64_code" by (simp add: base64_code_eq)

lemma nth_fold_update:
  assumes "distinct (map f is)" "\<forall>i\<in>set is. f i < length t" "i \<in> set is"
  shows "fold (\<lambda>i t. t[f i := g i]) is t ! f i = g i"
  using assms
proof (induction "is" arbitrary: t rule: rev_induct)
  case (snoc j js)
  have len: "length (fold (\<lambda>i t. t[f i := g i]) js t) = length t" for js t
    by (induction js arbitrary: t) auto
  show ?case
    using snoc by (cases "i = j") (auto simp: len nth_list_update)
qed simp

lemma length_fold_update: "length (fold (\<lambda>i t. t[f i := g i]) js t) = length t"
  by (induction js arbitrary: t) auto

lemma code_not_special: "61 \<notin> set base64_code" "0 \<notin> set base64_code" "9 \<notin> set base64_code" "32 \<notin> set base64_code"
  by (simp_all add: base64_code_eq)

lemma map_code_nth: "map (\<lambda>i. base64_code ! i) [0..<64] = base64_code"
  using map_nth [of base64_code] by (simp add: length_base64_code)

lemma base64_init_code:
  assumes "i < 64"
  shows "base64_init ! unat (base64_code ! i) = int i"
proof -
  let ?f = "\<lambda>i. unat (base64_code ! i)"
  have "map ?f [0..<64] = map unat base64_code"
    by (metis (no_types, lifting) map_code_nth map_map comp_apply map_eq_conv)
  then have d: "distinct (map ?f [0..<64])"
    using distinct_base64_code by (simp only: distinct_map inj_on_def) (auto simp: word_unat_eq_iff)
  have "unat (base64_code ! i) \<noteq> 61"
  proof -
    have "base64_code ! i \<noteq> 61"
      using code_not_special(1) assms length_base64_code by (metis nth_mem)
    then show ?thesis
      by (simp add: word_unat_eq_iff)
  qed
  moreover have "fold (\<lambda>i t. t[?f i := int i]) [0..<64] (replicate 256 (- 1)) ! ?f i = int i"
    by (rule nth_fold_update [OF d]) (use assms in auto)
  ultimately show ?thesis
    by (simp add: base64_init_def Let_def)
qed

lemma length_base64_init: "length base64_init = 256"
  by (simp add: base64_init_def Let_def length_fold_update)

lemma fold_update_other: "\<forall>i\<in>set is. f i \<noteq> k \<Longrightarrow> fold (\<lambda>i t. t[f i := g i]) is t ! k = t ! k"
  by (induction "is" arbitrary: t) auto

lemma base64_init_0: "base64_init ! 0 = - 1"
proof -
  have "unat (base64_code ! i) \<noteq> 0" if "i < 64" for i
    using that code_not_special(2) length_base64_code by (metis nth_mem unat_eq_0)
  then show ?thesis
    by (simp add: base64_init_def Let_def fold_update_other)
qed

lemma base64_init_pad: "base64_init ! 61 = 0"
  by (simp add: base64_init_def Let_def length_fold_update)

lemma map_int_upt: "map int [0..<64] = [0, 1, 2, 3, 4, 5, 6, 7, 8, 9, 10, 11, 12, 13, 14, 15, 16, 17, 18,
  19, 20, 21, 22, 23, 24, 25, 26, 27, 28, 29, 30, 31, 32, 33, 34, 35, 36, 37, 38, 39, 40, 41, 42, 43,
  44, 45, 46, 47, 48, 49, 50, 51, 52, 53, 54, 55, 56, 57, 58, 59, 60, 61, 62, 63]"
  by code_simp

lemma map_pr2six: "map (\<lambda>c. pr2six ! unat c) base64_code = map int [0..<64]"
  unfolding map_int_upt by (simp add: base64_code_eq pr2six_def)
lemma pr2six_special: "pr2six ! 61 = 64" "pr2six ! 0 = 64" "length pr2six = 256"
  by (simp_all add: pr2six_def)

lemma pr2six_code: "i < 64 \<Longrightarrow> pr2six ! unat (base64_code ! i) = int i"
  using arg_cong [OF map_pr2six, of "\<lambda>xs. xs ! i"] by (simp add: length_base64_code)

lemma code_tables:
  assumes "0 \<le> i" "i < 64"
  shows "code_at i = Some (code i)" "base64_init ! unat (code i) = i" "pr2six ! unat (code i) = i"
    "code i \<noteq> 0" "code i \<noteq> 9" "code i \<noteq> 32"
proof -
  have "code i \<in> set base64_code"
    using assms by (simp add: code_def length_base64_code)
  then show "code i \<noteq> 0" "code i \<noteq> 9" "code i \<noteq> 32"
    using code_not_special by auto
  show "base64_init ! unat (code i) = i" "pr2six ! unat (code i) = i"
    using base64_init_code [of "nat i"] pr2six_code [of "nat i"] assms by (simp_all add: code_def)
  show "code_at i = Some (code i)"
    using assms by (simp add: code_at_def arr_getz_def code_def length_base64_code)
qed

lemma pad_eq: "pad = 61" "unat pad = 61"
  by (simp_all add: pad_def)

subsection \<open>Arithmetic of a group\<close>

lemma and_63: "(x::int) AND 63 = x mod 64"
  using take_bit_eq_mask [of 6 x] by (simp add: take_bit_eq_mod mask_eq_exp_minus_1)

lemma and_255: "(x::int) AND 255 = x mod 256"
  using take_bit_eq_mask [of 8 x] by (simp add: take_bit_eq_mod mask_eq_exp_minus_1)

lemmas group_arith = drop_bit_eq_div push_bit_eq_mult and_63 and_255

lemma sextets_range: "0 \<le> n \<Longrightarrow> n < 2 ^ 24 \<Longrightarrow> \<forall>i\<in>set (sextets n). 0 \<le> i \<and> i < 64"
  by (auto simp: sextets_def)

lemma sextets_join:
  "(((n div 2 ^ 18) * 64 + n div 2 ^ 12 mod 64) * 64 + n div 2 ^ 6 mod 64) * 64 + n mod 64 = (n::int)"
proof -
  have e: "n div 2 ^ 6 = n div 64" "n div 2 ^ 12 = n div 64 div 64" "n div 2 ^ 18 = n div 64 div 64 div 64"
    by (simp_all add: zdiv_zmult2_eq [symmetric])
  show ?thesis
    unfolding e by (simp only: div_mult_mod_eq)
qed

lemma uint_byte: "0 \<le> uint (b::byte)" "uint (b::byte) < 256"
  using uint_bounded [of b] by simp_all

lemma group_range:
  "0 \<le> uint (a::byte) * 65536 + uint (b::byte) * 256 + uint (c::byte)"
  "uint (a::byte) * 65536 + uint (b::byte) * 256 + uint (c::byte) < 2 ^ 24"
  using uint_byte [of a] uint_byte [of b] uint_byte [of c] by simp_all

lemma div_mod_256:
  fixes x c :: int
  assumes "0 \<le> c" "c < 256"
  shows "(x * 256 + c) div 256 = x" "(x * 256 + c) mod 256 = c"
  using assms by simp_all

lemma group_bytes:
  fixes a b c :: byte
  defines "n \<equiv> uint a * 65536 + uint b * 256 + uint c"
  shows "n div 65536 = uint a" "n div 256 mod 256 = uint b" "n mod 256 = uint c"
proof -
  have n: "n = (uint a * 256 + uint b) * 256 + uint c"
    by (simp add: n_def)
  have d: "n div 256 = uint a * 256 + uint b"
    unfolding n by (rule div_mod_256 [OF uint_byte])
  show "n mod 256 = uint c"
    unfolding n by (rule div_mod_256 [OF uint_byte])
  show "n div 256 mod 256 = uint b"
    unfolding d by (rule div_mod_256 [OF uint_byte])
  have "n div 65536 = n div 256 div 256"
    by (simp add: zdiv_zmult2_eq [symmetric])
  also have "\<dots> = uint a"
    unfolding d by (rule div_mod_256 [OF uint_byte])
  finally show "n div 65536 = uint a" .
qed

section \<open>Encoding never overflows its buffer\<close>

lemma result_put_ok: "length out < 8192 \<Longrightarrow> result_put out b = Some (out @ [b])"
  by (simp add: result_put_def BASE64_RESULT_SZ_def)

lemma base64_group_eq:
  assumes "0 \<le> n" "n < 2 ^ 24" "length out + 4 \<le> 8192"
  shows "base64_group out n = Some (out @ map code (sextets n))"
proof -
  have "0 \<le> n div 2 ^ 18" "n div 2 ^ 18 < 64"
    using assms by (auto simp: div_less_iff_less_mult)
  then show ?thesis
    using assms(3) code_tables(1) [of "n div 2 ^ 18"] code_tables(1) [of "n div 2 ^ 12 mod 64"]
      code_tables(1) [of "n div 2 ^ 6 mod 64"] code_tables(1) [of "n mod 64"]
    by (simp add: base64_group_def group_arith sextets_def result_put_ok)
qed

lemma int_unat_uint: "int (unat (b :: byte)) = uint b"
  by simp

lemma base64_three:
  assumes "length out + 4 \<le> 8188"
  shows "encode_steps (a # b # c # s) (0, 0, out) =
    encode_steps s (0, 0, out @ map code (sextets (uint a * 65536 + uint b * 256 + uint c)))"
  using assms base64_group_eq [OF group_range [of a b c], of out]
  by (simp add: base64_step_def BASE64_RESULT_SZ_def push_bit_eq_mult algebra_simps)

lemma base64_finish_eq:
  assumes "push_bit (16 - 8 * k) bits = n" "0 \<le> n" "n < 2 ^ 24" "length out + 4 \<le> 8188" "k = 1 \<or> k = 2"
  shows "base64_finish (bits, k, out) =
    Some (out @ map code (take (k + 1) (sextets n)) @ (if k = 1 then [pad, pad] else [pad]) @ [0])"
proof -
  have "0 \<le> n div 2 ^ 18" "n div 2 ^ 18 < 64"
    using assms by (auto simp: div_less_iff_less_mult)
  then show ?thesis
    using assms(4,5) code_tables(1) [of "n div 2 ^ 18"] code_tables(1) [of "n div 2 ^ 12 mod 64"]
      code_tables(1) [of "n div 2 ^ 6 mod 64"]
    by (auto simp: base64_finish_def assms(1) drop_bit_eq_div and_63 sextets_def result_put_ok pad_def
        numeral_2_eq_2 numeral_3_eq_3)
qed

text \<open>What the loop and the rest of the function make of the bytes that still fit.\<close>

lemma encode_steps_fits:
  "length out + 4 * k = 8188 \<Longrightarrow>
     do { st \<leftarrow> encode_steps s (0, 0, out); base64_finish st } =
     Some (out @ base64_ref (take (3 * k) s) @ [0])"
proof (induction k arbitrary: s out)
  case 0
  then have "encode_steps s (0, 0, out) = Some (0, 0, out)"
    by (cases s) (simp_all add: BASE64_RESULT_SZ_def)
  with 0 show ?case
    by (simp add: base64_finish_def result_put_ok)
next
  case (Suc k)
  have room: "length out + 4 \<le> 8188"
    using Suc.prems by simp
  consider "s = []" | a where "s = [a]" | a b where "s = [a, b]" | a b c r where "s = a # b # c # r"
    by (metis list.exhaust)
  then show ?case
  proof cases
    case 1
    with room show ?thesis
      by (simp add: base64_finish_def result_put_ok)
  next
    case (2 a)
    have "encode_steps s (0, 0, out) = Some (push_bit 8 (uint a), 1, out)"
      using room 2 by (simp add: base64_step_def BASE64_RESULT_SZ_def)
    with base64_finish_eq [of 1 "push_bit 8 (uint a)" "uint a * 65536" out] group_range [of a 0 0] room 2
    show ?thesis
      by (simp add: push_bit_eq_mult numeral_2_eq_2)
  next
    case (3 a b)
    have "encode_steps s (0, 0, out) =
        Some (push_bit 8 (push_bit 8 (uint a) + uint b), 2, out)"
      using room 3 by (simp add: base64_step_def BASE64_RESULT_SZ_def numeral_2_eq_2)
    with base64_finish_eq [of 2 "push_bit 8 (push_bit 8 (uint a) + uint b)"
        "uint a * 65536 + uint b * 256" out] group_range [of a b 0] room 3
    show ?thesis
      by (simp add: push_bit_eq_mult numeral_3_eq_3)
  next
    case (4 a b c r)
    let ?g = "map code (sextets (uint a * 65536 + uint b * 256 + uint c))"
    have "length (out @ ?g) + 4 * k = 8188"
      using Suc.prems by (simp add: sextets_def)
    moreover have "take (3 * Suc k) s = a # b # c # take (3 * k) r"
      using 4 by (simp add: numeral_3_eq_3)
    ultimately show ?thesis
      using Suc.IH [of "out @ ?g" r] 4 base64_three [OF room, of a b c r]
      by (simp del: encode_steps.simps)
  qed
qed

lemma base64_encode_eq:
  "base64_encode s = Some (base64_ref (take 6141 (takeWhile (\<lambda>c. c \<noteq> 0) s)) @ [0])"
  using encode_steps_fits [of "[]" 2047 "takeWhile (\<lambda>c. c \<noteq> 0) s"]
  by (simp add: base64_encode_def base64_encode_loop_steps)

lemma base64_encode_eq_text:
  assumes "0 \<notin> set s" "length s \<le> 6141"
  shows "base64_encode s = Some (base64_ref s @ [0])"
proof -
  have "takeWhile (\<lambda>c. c \<noteq> 0) s = s"
    using assms(1) by (auto simp: takeWhile_eq_all_conv)
  then have "base64_encode s = Some (base64_ref (take 6141 s) @ [0])"
    by (simp only: base64_encode_eq)
  then show ?thesis
    using assms(2) by simp
qed

lemma base64_encode_bin_loop_eq:
  "len = int (length s) \<Longrightarrow> base64_encode_bin_loop (s @ more) len st = encode_steps s st"
proof (induction s arbitrary: len st)
  case Nil
  then show ?case
    by (simp add: base64_encode_bin_loop.simps)
next
  case (Cons c s)
  then show ?case
    by (subst base64_encode_bin_loop.simps) (auto cong: Option.bind_cong)
qed

lemma base64_encode_bin_eq:
  "base64_encode_bin (s @ more) (int (length s)) = Some (base64_ref (take 6141 s) @ [0])"
  using encode_steps_fits [of "[]" 2047 s]
  by (simp add: base64_encode_bin_def base64_encode_bin_loop_eq)

text \<open>
  C25. The two encoders compute the same function, the base 64 encoding with padding, of the
  first 6141 bytes of their input; they never write outside the static result buffer, and longer
  input is cut there. The text of \<open>base64_encode\<close> ends at the first zero byte, the data of
  \<open>base64_encode_bin\<close> may have zero bytes.
\<close>

theorem base64_encode_correct:
  "base64_encode s = Some (base64_ref (take 6141 (takeWhile (\<lambda>c. c \<noteq> 0) s)) @ [0]) \<and>
   base64_encode_bin (d @ more) (int (length d)) = Some (base64_ref (take 6141 d) @ [0])"
  using base64_encode_eq [of s] base64_encode_bin_eq [of d more] by simp

section \<open>Decoding what was encoded\<close>

lemma decode_nonzero: "0 \<le> base64_init ! unat p \<Longrightarrow> p \<noteq> 0"
  using base64_init_0 by auto

lemma decode_last:
  assumes "length out + 4 < 8192" "base64_init ! unat p = i" "0 \<le> i" "i < 64"
  shows "base64_decode_loop (p # s) val 3 out =
    base64_decode_loop s 0 0 (out @ [word_of_int ((val * 64 + i) div 65536),
      word_of_int ((val * 64 + i) div 256 mod 256), word_of_int ((val * 64 + i) mod 256)])"
  using assms decode_nonzero [of p]
  by (simp add: BASE64_RESULT_SZ_def length_base64_init push_bit_eq_mult drop_bit_eq_div and_255
      result_put_ok Let_def)

text \<open>A group of four characters with the given values, and the three bytes it becomes.\<close>

lemma decode_group:
  assumes "length out + 4 < 8192"
    and "base64_init ! unat p0 = i0" "base64_init ! unat p1 = i1"
    and "base64_init ! unat p2 = i2" "base64_init ! unat p3 = i3"
    and "0 \<le> i0" "0 \<le> i1" "0 \<le> i2" "0 \<le> i3" "i3 < 64"
    and "((i0 * 64 + i1) * 64 + i2) * 64 + i3 = uint a * 65536 + uint b * 256 + uint c"
  shows "base64_decode_loop (p0 # p1 # p2 # p3 # s) 0 0 out = base64_decode_loop s 0 0 (out @ [a, b, c])"
proof -
  have "base64_decode_loop (p0 # p1 # p2 # p3 # s) 0 0 out =
      base64_decode_loop (p3 # s) ((i0 * 64 + i1) * 64 + i2) 3 out"
    using assms decode_nonzero [of p0] decode_nonzero [of p1] decode_nonzero [of p2] by (simp add: BASE64_RESULT_SZ_def length_base64_init push_bit_eq_mult numeral_3_eq_3
        numeral_2_eq_2 del: base64_decode_loop.simps(2) cong: if_cong)
      (simp add: base64_decode_loop.simps(2) [of p0] base64_decode_loop.simps(2) [of p1]
        base64_decode_loop.simps(2) [of p2] BASE64_RESULT_SZ_def length_base64_init push_bit_eq_mult)
  also have "\<dots> = base64_decode_loop s 0 0 (out @ [a, b, c])"
    using decode_last [OF assms(1,5,9,10)] group_bytes [of a b c] by (simp only: assms(11)) simp
  finally show ?thesis .
qed

lemma decode_sextets:
  fixes n :: int
  assumes "length out + 4 < 8192" "n = uint a * 65536 + uint b * 256 + uint c"
    and "p2 = code (n div 2 ^ 6 mod 64) \<or> p2 = pad \<and> n div 2 ^ 6 mod 64 = 0"
    and "p3 = code (n mod 64) \<or> p3 = pad \<and> n mod 64 = 0"
  shows "base64_decode_loop (code (n div 2 ^ 18) # code (n div 2 ^ 12 mod 64) # p2 # p3 # s) 0 0 out =
    base64_decode_loop s 0 0 (out @ [a, b, c])"
proof -
  have n: "0 \<le> n" "n < 2 ^ 24"
    using group_range [of a b c] assms(2) by simp_all
  then have i0: "0 \<le> n div 2 ^ 18" "n div 2 ^ 18 < 64"
    by (auto simp: div_less_iff_less_mult)
  have p2: "base64_init ! unat p2 = n div 2 ^ 6 mod 64" and p3: "base64_init ! unat p3 = n mod 64"
    using assms(3,4) code_tables(2) [of "n div 2 ^ 6 mod 64"] code_tables(2) [of "n mod 64"]
    by (auto simp: pad_eq base64_init_pad)
  have i1: "0 \<le> n div 2 ^ 12 mod 64" "n div 2 ^ 12 mod 64 < 64"
    by simp_all
  have i23: "0 \<le> n div 2 ^ 6 mod 64" "0 \<le> n mod 64" "n mod 64 < 64"
    by simp_all
  show ?thesis
    by (rule decode_group [OF assms(1) code_tables(2) [OF i0] code_tables(2) [OF i1] p2 p3
          i0(1) i1(1) i23 trans [OF sextets_join assms(2)]])
qed

lemma base64_decode_ref:
  "length out + length s + 4 < 8192 \<Longrightarrow>
     \<exists>z. base64_decode_loop (base64_ref s) 0 0 out = Some (out @ s @ replicate z 0) \<and> z \<le> 2"
proof (induction s arbitrary: out rule: base64_ref.induct)
  case 1
  then show ?case
    by (intro exI [of _ 0]) simp
next
  case (2 a)
  have "base64_decode_loop (base64_ref [a]) 0 0 out = base64_decode_loop [] 0 0 (out @ [a, 0, 0])"
    using decode_sextets [of out "uint a * 65536" a 0 0 pad pad "[]"] 2
    by (simp add: sextets_def numeral_2_eq_2 del: base64_decode_loop.simps)
  then show ?case
    by (intro exI [of _ 2]) (simp add: numeral_2_eq_2)
next
  case (3 a b)
  let ?n = "uint a * 65536 + uint b * 256"
  have "?n mod 64 = 0"
    by presburger
  then have "base64_decode_loop (base64_ref [a, b]) 0 0 out = base64_decode_loop [] 0 0 (out @ [a, b, 0])"
    using decode_sextets [of out ?n a b 0 "code (?n div 2 ^ 6 mod 64)" pad "[]"] 3
    by (simp add: sextets_def numeral_3_eq_3 del: base64_decode_loop.simps)
  then show ?case
    by (intro exI [of _ 1]) simp
next
  case (4 a b c s)
  let ?n = "uint a * 65536 + uint b * 256 + uint c"
  have "base64_decode_loop (base64_ref (a # b # c # s)) 0 0 out =
      base64_decode_loop (base64_ref s) 0 0 (out @ [a, b, c])"
    using decode_sextets [of out ?n a b c "code (?n div 2 ^ 6 mod 64)" "code (?n mod 64)" "base64_ref s"]
      4(2)
    by (simp add: sextets_def del: base64_decode_loop.simps)
  with 4(1) [of "out @ [a, b, c]"] 4(2) show ?case
    by auto
qed

lemma code_chars:
  assumes "0 \<le> n" "n < 2 ^ 24" "x \<in> set (map code (take k (sextets n)))"
  shows "x \<noteq> 0 \<and> x \<noteq> 9 \<and> x \<noteq> 32"
proof -
  obtain i where "i \<in> set (sextets n)" "x = code i"
    using assms(3) by (auto dest: in_set_takeD)
  then show ?thesis
    using sextets_range [OF assms(1,2)] code_tables(4-6) [of i] by auto
qed

lemma base64_ref_chars: "x \<in> set (base64_ref s) \<Longrightarrow> x \<noteq> 0 \<and> x \<noteq> 9 \<and> x \<noteq> 32"
proof (induction s rule: base64_ref.induct)
  case (2 a)
  then show ?case
    using code_chars [of "uint a * 65536" x 2] group_range [of a 0 0] by (auto simp: pad_eq)
next
  case (3 a b)
  then show ?case
    using code_chars [of "uint a * 65536 + uint b * 256" x 3] group_range [of a b 0]
    by (auto simp: pad_eq)
next
  case (4 a b c s)
  then show ?case
    using code_chars [OF group_range [of a b c], of x 4] by (auto simp: sextets_def)
qed simp

lemma c_str_zeroes: "0 \<notin> set s \<Longrightarrow> c_str (s @ replicate z 0 @ [0]) = Some s"
  by (cases z) simp_all

text \<open>
  C26. Decoding inverts encoding: for a string of at most 6141 bytes, \<open>base64_decode\<close> of the result
  of \<open>base64_encode\<close> succeeds and returns a buffer that holds the string.
\<close>

theorem base64_roundtrip:
  assumes "0 \<notin> set s" "length s \<le> 6141"
  shows "\<exists>t buf. base64_encode s = Some (t @ [0]) \<and> 0 \<notin> set t \<and>
           base64_decode t = Some buf \<and> c_str buf = Some s"
proof -
  have "base64_encode s = Some (base64_ref s @ [0])"
    using base64_encode_eq_text [OF assms] .
  moreover obtain z where z: "base64_decode_loop (base64_ref s) 0 0 [] = Some (s @ replicate z 0)" "z \<le> 2"
    using base64_decode_ref [of "[]" s] assms(2) by auto
  then have "base64_decode (base64_ref s) = Some (s @ replicate z 0 @ [0])"
    using assms(2) by (simp add: base64_decode_def result_put_ok)
  ultimately show ?thesis
    using base64_ref_chars [of 0 s] c_str_zeroes [OF assms(1), of z] by blast
qed

theorem base64_roundtrip_witness:
  "\<exists>t buf. base64_encode [115, 113, 117, 105, 100] = Some (t @ [0]) \<and> base64_decode t = Some buf \<and>
     c_str buf = Some [115, 113, 117, 105, 100]"
  using base64_roundtrip [of "[115, 113, 117, 105, 100]"] by auto

section \<open>uudecode\<close>

lemma uu_strip_id: "x \<noteq> 9 \<Longrightarrow> x \<noteq> 32 \<Longrightarrow> uu_strip (x # bs) = x # bs"
  by simp

lemma uu_count_code: "0 \<le> i \<Longrightarrow> i < 64 \<Longrightarrow> uu_count (code i # bs) = map_option ((+) 1) (uu_count bs)"
  using code_tables(3) [of i] by (cases "uu_count bs") (simp_all add: pr2six_special)

lemma uu_count_codes:
  "\<forall>i\<in>set is. 0 \<le> i \<and> i < 64 \<Longrightarrow>
     uu_count (map code is @ bs) = map_option ((+) (int (length is))) (uu_count bs)"
proof (induction "is")
  case Nil
  show ?case
    by (cases "uu_count bs") simp_all
next
  case (Cons i "is")
  then show ?case
    by (simp add: uu_count_code option.map_comp comp_def add.assoc del: uu_count.simps)
qed

lemma uu_count_group:
  assumes "0 \<le> n" "n < 2 ^ 24"
  shows "uu_count (map code (take k (sextets n)) @ bs) =
    map_option ((+) (int (length (take k (sextets n))))) (uu_count bs)"
  using sextets_range [OF assms] by (intro uu_count_codes) (auto dest: in_set_takeD)

lemma uu_count_stop: "b = pad \<or> b = 0 \<Longrightarrow> uu_count (b # bs) = Some 0"
  by (auto simp: pr2six_special pad_eq)

lemma length_sextets: "length (sextets n) = 4"
  by (simp add: sextets_def)

text \<open>The number of characters of the encoding before the padding.\<close>

definition uu_chars :: "nat \<Rightarrow> int" where
  "uu_chars n = int (n div 3 * 4 + (if n mod 3 = 0 then 0 else n mod 3 + 1))"

lemma uu_count_ref: "uu_count (base64_ref s @ 0 # more) = Some (uu_chars (length s))"
proof (induction s rule: base64_ref.induct)
  case 1
  then show ?case
    by (simp add: uu_count_stop uu_chars_def del: uu_count.simps(2))
next
  case (2 a)
  show ?case
    using uu_count_group [of "uint a * 65536" 2 "pad # pad # 0 # more"] group_range [of a 0 0]
    by (simp add: uu_count_stop uu_chars_def length_sextets del: uu_count.simps(2))
next
  case (3 a b)
  show ?case
    using uu_count_group [of "uint a * 65536 + uint b * 256" 3 "pad # 0 # more"] group_range [of a b 0]
    by (simp add: uu_count_stop uu_chars_def length_sextets del: uu_count.simps(2))
next
  case (4 a b c s)
  have "uu_chars (length (a # b # c # s)) = 4 + uu_chars (length s)"
    by (simp add: uu_chars_def div_add_self1)
  with 4 uu_count_group [OF group_range [of a b c], of 4 "base64_ref s @ 0 # more"] show ?case
    by (simp add: length_sextets)
qed

text \<open>The bytes that \<open>uudecode\<close> assembles from the four values of a group.\<close>

lemma word_of_int_byte: "x mod 256 = uint b \<Longrightarrow> word_of_int x = (b :: byte)"
  by (rule word_uint_eqI) (simp add: unsigned_of_int take_bit_eq_mod)

lemma shift_4_16: "(m div 64) * 4 + (m mod 64) div 16 = (m::int) div 16"
proof -
  have "m div 16 = ((m div 64) * 4 * 16 + m mod 64) div 16"
    by simp
  also have "\<dots> = (m div 64) * 4 + (m mod 64) div 16"
    by (simp only: div_mult_self3)
  finally show ?thesis
    by (rule sym)
qed

lemma shift_16_4: "((k div 64) mod 64) * 16 + (k mod 64) div 4 = (k div 4) mod (1024::int)"
proof -
  have "k div 4 = ((k div 64) * 16 * 4 + k mod 64) div 4"
    by simp
  also have "\<dots> = (k div 64) * 16 + (k mod 64) div 4"
    by (simp only: div_mult_self3)
  finally have e: "k div 4 = (k div 64) * 16 + (k mod 64) div 4" .
  have r: "0 \<le> (k mod 64) div 4" "(k mod 64) div 4 < 16"
    by (simp_all add: div_less_iff_less_mult)
  have "(k div 4) mod 16 = (k mod 64) div 4"
    using r by (simp only: e mod_mult_self3 mod_pos_pos_trivial)
  moreover have "k div 4 div 16 = k div 64"
    by (simp add: zdiv_zmult2_eq [symmetric])
  moreover have "(k div 4) mod (16 * 64) = 16 * ((k div 4 div 16) mod 64) + (k div 4) mod 16"
    by (rule zmod_zmult2_eq) simp
  ultimately have "(k div 4) mod (16 * 64) = (k div 64) mod 64 * 16 + (k mod 64) div 4"
    by (simp only: mult.commute)
  moreover have "(16::int) * 64 = 1024"
    by simp
  ultimately show ?thesis
    by (simp only:)
qed

lemma shift_64_1: "((n div 64) mod 64) * 64 + n mod 64 = n mod (4096::int)"
  using zmod_zmult2_eq [of 64 n 64] by simp

lemma mod_mod_256: "x mod 1024 mod 256 = x mod (256::int)" "x mod 4096 mod 256 = x mod (256::int)"
  by (simp_all add: mod_mod_cancel)

lemma or_parts:
  fixes q x :: int
  shows "push_bit 2 q OR drop_bit 4 (x mod 64) = q * 4 + (x mod 64) div 16"
    "push_bit 4 q OR drop_bit 2 (x mod 64) = q * 16 + (x mod 64) div 4"
    "push_bit 6 q OR (x mod 64) = q * 64 + x mod 64"
proof -
  have r: "0 \<le> (x mod 64) div 16" "(x mod 64) div 16 < 4" "0 \<le> (x mod 64) div 4"
    "(x mod 64) div 4 < 16" "0 \<le> x mod 64" "x mod 64 < 64"
    by (simp_all add: div_less_iff_less_mult)
  have d: "drop_bit 4 (x mod 64) = (x mod 64) div 16" "drop_bit 2 (x mod 64) = (x mod 64) div 4"
    by (simp_all add: drop_bit_eq_div)
  show "push_bit 2 q OR drop_bit 4 (x mod 64) = q * 4 + (x mod 64) div 16"
    unfolding d using push_bit_or_low [of "(x mod 64) div 16" 2 q] r(1,2) by simp
  show "push_bit 4 q OR drop_bit 2 (x mod 64) = q * 16 + (x mod 64) div 4"
    unfolding d using push_bit_or_low [of "(x mod 64) div 4" 4 q] r(3,4) by simp
  show "push_bit 6 q OR (x mod 64) = q * 64 + x mod 64"
    using push_bit_or_low [of "x mod 64" 6 q] r(5,6) by simp
qed

lemma uu_bytes:
  fixes a b c :: byte
  defines "n \<equiv> uint a * 65536 + uint b * 256 + uint c"
  shows "word_of_int (push_bit 2 (n div 2 ^ 18) OR drop_bit 4 (n div 2 ^ 12 mod 64)) = a"
    "word_of_int (push_bit 4 (n div 2 ^ 12 mod 64) OR drop_bit 2 (n div 2 ^ 6 mod 64)) = b"
    "word_of_int (push_bit 6 (n div 2 ^ 6 mod 64) OR n mod 64) = c"
proof -
  have e: "n div 2 ^ 6 = n div 64" "n div 2 ^ 12 = n div 64 div 64" "n div 2 ^ 18 = n div 64 div 64 div 64"
    by (simp_all add: zdiv_zmult2_eq [symmetric])
  have "n div 64 div 64 div 16 = n div 65536" "n div 64 div 4 = n div 256"
    by (simp_all add: zdiv_zmult2_eq [symmetric])
  note d = this group_bytes [of a b c, folded n_def]
  show "word_of_int (push_bit 2 (n div 2 ^ 18) OR drop_bit 4 (n div 2 ^ 12 mod 64)) = a"
    unfolding e or_parts shift_4_16 d(1,3) by simp
  show "word_of_int (push_bit 4 (n div 2 ^ 12 mod 64) OR drop_bit 2 (n div 2 ^ 6 mod 64)) = b"
    unfolding e or_parts shift_16_4 d(2) by (rule word_of_int_byte) (simp only: mod_mod_256 d(4))
  show "word_of_int (push_bit 6 (n div 2 ^ 6 mod 64) OR n mod 64) = c"
    unfolding e or_parts shift_64_1 by (rule word_of_int_byte) (simp only: mod_mod_256 d(5))
qed

lemma pr_at_append:
  "k < length xs \<Longrightarrow> pr_at (pre @ xs) (length pre + k) = Some (pr2six ! unat (xs ! k))"
  by (simp add: pr_at_def pr2six_special)

lemma uu_loop_group:
  assumes "buf = pre @ [p0, p1, p2, p3] @ rest" "0 < n"
  shows "uu_loop buf (length pre) n out = uu_loop buf (length pre + 4) (n - 4)
    (out @ [word_of_int (push_bit 2 (pr2six ! unat p0) OR drop_bit 4 (pr2six ! unat p1)),
            word_of_int (push_bit 4 (pr2six ! unat p1) OR drop_bit 2 (pr2six ! unat p2)),
            word_of_int (push_bit 6 (pr2six ! unat p2) OR pr2six ! unat p3)])"
  using assms(2) pr_at_append [of 0 "[p0, p1, p2, p3] @ rest" pre] pr_at_append [of 1 "[p0, p1, p2, p3] @ rest" pre]
    pr_at_append [of 2 "[p0, p1, p2, p3] @ rest" pre] pr_at_append [of 3 "[p0, p1, p2, p3] @ rest" pre]
  unfolding assms(1) by (subst uu_loop.simps) simp

lemma uu_loop_stop: "n \<le> 0 \<Longrightarrow> uu_loop buf i n out = Some (i, n, out)"
  by (subst uu_loop.simps) simp

lemma uu_chars_simps:
  "uu_chars 0 = 0" "uu_chars 1 = 2" "uu_chars (Suc 0) = 2" "uu_chars 2 = 3" "uu_chars (Suc (Suc 0)) = 3"
  "uu_chars (Suc (Suc (Suc n))) = uu_chars n + 4" "0 \<le> uu_chars n"
proof -
  have "Suc (Suc (Suc n)) = 3 + n"
    by simp
  then show "uu_chars (Suc (Suc (Suc n))) = uu_chars n + 4"
    by (simp only: uu_chars_def div_add_self1 mod_add_self1) simp
qed (simp_all add: uu_chars_def)

lemma sextet_ranges:
  fixes a b c :: byte
  defines "n \<equiv> uint a * 65536 + uint b * 256 + uint c"
  shows "pr2six ! unat (code (n div 2 ^ 18)) = n div 2 ^ 18"
    "pr2six ! unat (code (n div 2 ^ 12 mod 64)) = n div 2 ^ 12 mod 64"
    "pr2six ! unat (code (n div 2 ^ 6 mod 64)) = n div 2 ^ 6 mod 64"
    "pr2six ! unat (code (n mod 64)) = n mod 64"
proof -
  have "\<forall>i\<in>set (sextets n). pr2six ! unat (code i) = i"
    using sextets_range [OF group_range [of a b c]] code_tables(3) by (simp add: n_def)
  then show "pr2six ! unat (code (n div 2 ^ 18)) = n div 2 ^ 18"
    "pr2six ! unat (code (n div 2 ^ 12 mod 64)) = n div 2 ^ 12 mod 64"
    "pr2six ! unat (code (n div 2 ^ 6 mod 64)) = n div 2 ^ 6 mod 64"
    "pr2six ! unat (code (n mod 64)) = n mod 64"
    by (simp_all only: sextets_def list.set insert_iff ball_simps)
qed

lemma uu_loop_ref:
  assumes "buf = pre @ base64_ref s @ 0 # more"
  shows "\<exists>junk. uu_loop buf (length pre) (uu_chars (length s)) out =
      Some (length pre + length (base64_ref s), uu_chars (length s) - int (length (base64_ref s)), out @ s @ junk) \<and>
    4 * length (s @ junk) = 3 * length (base64_ref s)"
  using assms
proof (induction s arbitrary: pre out rule: base64_ref.induct)
  case 1
  then show ?case
    by (simp add: uu_loop_stop uu_chars_simps)
next
  case (2 a)
  let ?n = "uint a * 65536 + uint (0::byte) * 256 + uint (0::byte)"
  have "buf = pre @ [code (?n div 2 ^ 18), code (?n div 2 ^ 12 mod 64), pad, pad] @ 0 # more"
    using 2 by (simp add: sextets_def numeral_2_eq_2)
  from uu_loop_group [OF this, of 2 out] show ?case
    unfolding sextet_ranges uu_bytes
    by (simp add: uu_loop_stop uu_chars_simps sextets_def)
next
  case (3 a b)
  let ?n = "uint a * 65536 + uint b * 256 + uint (0::byte)"
  have "buf = pre @ [code (?n div 2 ^ 18), code (?n div 2 ^ 12 mod 64), code (?n div 2 ^ 6 mod 64), pad]
      @ 0 # more"
    using 3 by (simp add: sextets_def numeral_3_eq_3)
  from uu_loop_group [OF this, of 3 out] show ?case
    unfolding sextet_ranges uu_bytes
    by (simp add: uu_loop_stop uu_chars_simps sextets_def)
next
  case (4 a b c s)
  let ?n = "uint a * 65536 + uint b * 256 + uint c"
  let ?g = "[code (?n div 2 ^ 18), code (?n div 2 ^ 12 mod 64), code (?n div 2 ^ 6 mod 64), code (?n mod 64)]"
  have g: "base64_ref (a # b # c # s) = ?g @ base64_ref s"
    by (simp add: sextets_def)
  have buf: "buf = pre @ ?g @ base64_ref s @ 0 # more"
    using 4(2) unfolding g by simp
  have n: "uu_chars (length (a # b # c # s)) = uu_chars (length s) + 4"
    by (simp add: uu_chars_simps)
  have "uu_loop buf (length pre) (uu_chars (length s) + 4) out =
      uu_loop buf (length (pre @ ?g)) (uu_chars (length s)) (out @ [a, b, c])"
    using uu_loop_group [OF buf, of "uu_chars (length s) + 4" out] uu_chars_simps(7) [of "length s"]
    unfolding sextet_ranges uu_bytes by (simp add: numeral_eq_Suc)
  moreover have "buf = (pre @ ?g) @ base64_ref s @ 0 # more"
    using buf by simp
  ultimately show ?case
    using 4(1) [of "pre @ ?g" "out @ [a, b, c]"] unfolding g n by auto
qed

lemma length_base64_ref: "length (base64_ref s) = 4 * ((length s + 2) div 3)"
proof (induction s rule: base64_ref.induct)
  case (4 a b c s)
  have "(length (a # b # c # s) + 2) div 3 = (length s + 2 + 3) div 3"
    by simp
  also have "\<dots> = (length s + 2) div 3 + 1"
    by (simp only: div_add_self2)
  finally show ?case
    using 4 by (simp add: sextets_def)
qed (simp_all add: sextets_def)

lemma base64_ref_tail:
  "length s mod 3 \<noteq> 0 \<Longrightarrow>
     (if length s mod 3 = 1 then pr2six ! unat (base64_ref s ! (length (base64_ref s) - 2)) = 64
      else pr2six ! unat (base64_ref s ! (length (base64_ref s) - 2)) < 64)"
proof (induction s rule: base64_ref.induct)
  case (2 a)
  show ?case
    by (simp add: sextets_def pad_eq(2) pr2six_special)
next
  case (3 a b)
  show ?case
  proof -
    let ?i = "(uint a * 65536 + uint b * 256) div 2 ^ 6 mod 64"
    have "base64_ref [a, b] ! 2 = code ?i" "length (base64_ref [a, b]) = 4"
      by (simp_all add: sextets_def)
    moreover have "0 \<le> ?i" "?i < 64"
      by (rule pos_mod_sign pos_mod_bound, simp)+
    ultimately show ?thesis
      using code_tables(3) [of ?i] by (simp only:) simp
  qed
next
  case (4 a b c s)
  have m: "length (a # b # c # s) mod 3 = length s mod 3"
    by (simp add: numeral_3_eq_3 [symmetric])
  have "2 \<le> length (base64_ref s)"
    using 4(2) unfolding m length_base64_ref by (cases s) auto
  then have idx: "base64_ref (a # b # c # s) ! (length (base64_ref (a # b # c # s)) - 2) =
      base64_ref s ! (length (base64_ref s) - 2)"
    by (simp add: length_sextets nth_append)
  show ?case
    using 4(1) [OF 4(2) [unfolded m]] unfolding m idx .
qed simp

lemma uudecode_eq:
  assumes "uu_strip buf = buf" "uu_count buf = Some n" "uu_loop buf 0 n [] = Some (i, r, out)"
    and "(n + 3) div 4 * 3 = int (length out)"
    and "r AND 3 = 0 \<and> k = length out \<or>
      r AND 3 \<noteq> 0 \<and> 2 \<le> i \<and> pr_at buf (i - 2) = Some v \<and>
        (if v > 63 then length out = k + 2 else length out = k + 1)"
  shows "uudecode buf = Some (take k out @ [0])"
proof -
  have nb: "uudecode buf = do {
      m \<leftarrow> (if r AND 3 \<noteq> 0 then do {
         w \<leftarrow> (if 2 \<le> i then pr_at buf (i - 2) else None);
         Some (if w > 63 then int (length out) - 2 else int (length out) - 1)
       } else Some (int (length out)));
      c_assert (0 \<le> m);
      Some (take (nat m) out @ [0])
    }"
    by (simp only: uudecode_def Let_def assms(1-4) Option.bind.simps prod.case)
      (simp only: c_assert_def Option.bind.simps if_True of_nat_add order_refl zle_add1_eq_le less_imp_le
        add_increasing2 zero_le_one)
  show ?thesis
    using assms(5) unfolding nb by (auto split: if_splits)
qed

text \<open>
  C27. \<open>uudecode\<close>, which reads the credentials of a request, inverts \<open>base64_encode\<close> and
  \<open>base64_encode_bin\<close>: on the encoding of a string, or of data with zero bytes, followed in memory by
  anything, it reads only the encoding and its terminator and returns the bytes.
\<close>

theorem uudecode_encode:
  assumes "length s \<le> 6141"
  shows "\<exists>t. (0 \<notin> set s \<longrightarrow> base64_encode s = Some (t @ [0])) \<and>
           base64_encode_bin (s @ d) (int (length s)) = Some (t @ [0]) \<and>
           uudecode (t @ 0 # more) = Some (s @ [0])"
proof -
  let ?t = "base64_ref s"
  let ?buf = "?t @ 0 # more"
  let ?n = "length s"
  have enc: "0 \<notin> set s \<longrightarrow> base64_encode s = Some (?t @ [0])"
    "base64_encode_bin (s @ d) (int (length s)) = Some (?t @ [0])"
    using base64_encode_eq_text [of s] base64_encode_bin_eq [of s d] assms by simp_all
  have strip: "uu_strip ?buf = ?buf"
  proof (cases ?t)
    case (Cons x xs)
    then have "x \<noteq> 9" "x \<noteq> 32"
      using base64_ref_chars [of x s] by auto
    then show ?thesis
      by (simp add: Cons)
  qed simp
  obtain junk where loop: "uu_loop ?buf 0 (uu_chars ?n) [] =
      Some (length ?t, uu_chars ?n - int (length ?t), s @ junk)"
      "4 * length (s @ junk) = 3 * length ?t"
    using uu_loop_ref [of ?buf "[]" s more "[]"] by auto
  have "?n mod 3 = 0 \<or> ?n mod 3 = 1 \<or> ?n mod 3 = 2"
    by presburger
  then obtain q where "?n = 3 * q \<and> ?n mod 3 = 0 \<or> ?n = 3 * q + 1 \<and> ?n mod 3 = 1 \<or>
      ?n = 3 * q + 2 \<and> ?n mod 3 = 2"
    using mult_div_mod_eq [of 3 ?n] by (metis add_0_right)
  then consider (full) "?n = 3 * q" "?n mod 3 = 0" | (one) "?n = 3 * q + 1" "?n mod 3 = 1"
    | (two) "?n = 3 * q + 2" "?n mod 3 = 2"
    by metis
  then have "uudecode ?buf = Some (take ?n (s @ junk) @ [0])"
  proof cases
    case full
    have t: "uu_chars ?n = 4 * int q" "length ?t = 4 * q"
      unfolding length_base64_ref uu_chars_def full by simp_all
    have "length (s @ junk) = 3 * q"
      using loop(2) unfolding t by simp
    note l = t this
    have "uudecode ?buf = Some (take ?n (s @ junk) @ [0])"
    proof (rule uudecode_eq [OF strip uu_count_ref loop(1)])
      show "(uu_chars ?n + 3) div 4 * 3 = int (length (s @ junk))"
        unfolding l by simp
      have r: "uu_chars ?n - int (length ?t) = 0"
        unfolding l by simp
      show "(uu_chars ?n - int (length ?t)) AND 3 = 0 \<and> ?n = length (s @ junk) \<or>
          (uu_chars ?n - int (length ?t)) AND 3 \<noteq> 0 \<and> 2 \<le> length ?t \<and> pr_at ?buf (length ?t - 2) = Some 0 \<and>
          (if 0 > (63::int) then length (s @ junk) = ?n + 2 else length (s @ junk) = ?n + 1)"
        unfolding r using l(3) full(1) by simp
    qed
    then show ?thesis .
  next
    case one
    have t: "uu_chars ?n = 4 * int q + 2" "length ?t = 4 * q + 4"
      unfolding length_base64_ref uu_chars_def one by simp_all
    have "length (s @ junk) = 3 * q + 3"
      using loop(2) unfolding t by simp
    note l = t this
    have pr: "pr_at ?buf (length ?t - 2) = Some 64"
      using base64_ref_tail [of s] one(2) l(2) by (simp add: pr_at_def pr2six_special nth_append)
    have "uudecode ?buf = Some (take ?n (s @ junk) @ [0])"
    proof (rule uudecode_eq [OF strip uu_count_ref loop(1)])
      show "(uu_chars ?n + 3) div 4 * 3 = int (length (s @ junk))"
        unfolding l by simp
      have r: "uu_chars ?n - int (length ?t) = - 2"
        unfolding l by simp
      show "(uu_chars ?n - int (length ?t)) AND 3 = 0 \<and> ?n = length (s @ junk) \<or>
          (uu_chars ?n - int (length ?t)) AND 3 \<noteq> 0 \<and> 2 \<le> length ?t \<and> pr_at ?buf (length ?t - 2) = Some 64 \<and>
          (if 64 > (63::int) then length (s @ junk) = ?n + 2 else length (s @ junk) = ?n + 1)"
        unfolding r using pr l(2,3) one(1) by simp
    qed
    then show ?thesis .
  next
    case two
    have d: "(3 * q + 2) div 3 = q" "(3 * q + 2) mod 3 = 2" "(3 * q + 2 + 2) div 3 = q + 1"
      by presburger+
    have t: "uu_chars ?n = 4 * int q + 3" "length ?t = 4 * q + 4"
      unfolding length_base64_ref uu_chars_def two(1) d by simp_all
    have "length (s @ junk) = 3 * q + 3"
      using loop(2) unfolding t by simp
    note l = t this
    obtain v where pr: "pr_at ?buf (length ?t - 2) = Some v" "v < 64"
      using base64_ref_tail [of s] two(2) l(2) by (simp add: pr_at_def pr2six_special nth_append)
    have "uudecode ?buf = Some (take ?n (s @ junk) @ [0])"
    proof (rule uudecode_eq [OF strip uu_count_ref loop(1)])
      show "(uu_chars ?n + 3) div 4 * 3 = int (length (s @ junk))"
        unfolding l by simp
      have r: "uu_chars ?n - int (length ?t) = - 1"
        unfolding l by simp
      show "(uu_chars ?n - int (length ?t)) AND 3 = 0 \<and> ?n = length (s @ junk) \<or>
          (uu_chars ?n - int (length ?t)) AND 3 \<noteq> 0 \<and> 2 \<le> length ?t \<and> pr_at ?buf (length ?t - 2) = Some v \<and>
          (if v > (63::int) then length (s @ junk) = ?n + 2 else length (s @ junk) = ?n + 1)"
        unfolding r using pr l(2,3) two(1) by simp
    qed
    then show ?thesis .
  qed
  then have "uudecode ?buf = Some (s @ [0])"
    by auto
  with enc show ?thesis
    by blast
qed

theorem uudecode_encode_witness:
  "\<exists>t. base64_encode [117, 58, 112, 119] = Some (t @ [0]) \<and>
     uudecode (t @ 0 # []) = Some ([117, 58, 112, 119] @ [0])"
  using uudecode_encode [of "[117, 58, 112, 119]" "[]" "[]"] by auto

text \<open>
  An incomplete last group without padding is a different matter: the loop takes four
  characters at a time and reads past the terminator.
\<close>

lemma uudecode_overread: "uudecode (bytes_of ''Q'' @ [0]) = None"
  by (simp add: uudecode_def bytes_of_def uu_loop.simps [of _ 0] pr_at_def pr2six_def)

end
