(* ===== verification/Text_Escape.thy ===== *)
theory Text_Escape
  imports Lusca_Prelude
begin

unbundle bit_operations_syntax

text \<open>
  Escaping of text: \<^verbatim>\<open>lib/rfc1738.c\<close> for URLs and \<^verbatim>\<open>lib/html_quote.c\<close> for generated pages. A C
  string argument is the list of its bytes without the terminator. The results go to static
  buffers that are grown on demand; the size of such a buffer is the state of the function, and
  a write outside it is \<open>None\<close>. So is a read outside a table or past the memory of a string.
\<close>

section \<open>Growing static buffers\<close>

text \<open>
  \<open>None\<close> is a buffer that was never allocated. The functions ask for \<open>k\<close> bytes per character
  and allocate one more for the terminator.
\<close>

definition static_reserve :: "nat \<Rightarrow> nat \<Rightarrow> nat option \<Rightarrow> nat" where
  "static_reserve k len bufsize =
     (case bufsize of
        None \<Rightarrow> len * k + 1
      | Some sz \<Rightarrow> if len * k > sz then len * k + 1 else sz)"

definition buf_put :: "nat \<Rightarrow> byte list \<Rightarrow> byte list \<Rightarrow> byte list option" where
  "buf_put sz out bs = (if length out + length bs \<le> sz then Some (out @ bs) else None)"

text \<open>The sizes that calls leave behind: the buffer is absent or was allocated for some length.\<close>

definition static_ok :: "nat \<Rightarrow> nat option \<Rightarrow> bool" where
  "static_ok k bufsize \<longleftrightarrow> (case bufsize of None \<Rightarrow> True | Some sz \<Rightarrow> \<exists>len. sz = len * k + 1)"

lemma static_reserve_enough:
  assumes "static_ok k bufsize" "2 \<le> k"
  shows "len * k + 1 \<le> static_reserve k len bufsize" "static_ok k (Some (static_reserve k len bufsize))"
proof -
  show "static_ok k (Some (static_reserve k len bufsize))"
    using assms by (auto simp: static_ok_def static_reserve_def split: option.splits)
  show "len * k + 1 \<le> static_reserve k len bufsize"
  proof (cases bufsize)
    case (Some sz)
    then obtain m where m: "sz = m * k + 1"
      using assms(1) by (auto simp: static_ok_def)
    have "len * k \<le> m * k" if "\<not> len * k > sz"
    proof (rule ccontr)
      assume "\<not> len * k \<le> m * k"
      then have "m + 1 \<le> len"
        by (metis Suc_eq_plus1 Suc_leI mult_le_mono1 not_le)
      then have "(m + 1) * k \<le> len * k"
        by (rule mult_le_mono1)
      with that m assms(2) show False
        by simp
    qed
    then show ?thesis
      by (simp add: static_reserve_def Some m)
  qed (simp add: static_reserve_def)
qed

section \<open>rfc1738.c\<close>

definition rfc1738_unsafe_char_map :: "nat list" where
  "rfc1738_unsafe_char_map = [
    1, 1, 1, 1, 1, 1, 1, 1, 1, 1, 1, 1, 1, 1, 1, 1,
    1, 1, 1, 1, 1, 1, 1, 1, 1, 1, 1, 1, 1, 1, 1, 1,
    1, 0, 1, 1, 0, 0, 0, 1, 0, 0, 0, 0, 0, 0, 0, 0,
    0, 0, 0, 0, 0, 0, 0, 0, 0, 0, 0, 0, 1, 0, 1, 0,
    0, 0, 0, 0, 0, 0, 0, 0, 0, 0, 0, 0, 0, 0, 0, 0,
    0, 0, 0, 0, 0, 0, 0, 0, 0, 0, 0, 1, 1, 1, 1, 0,
    1, 0, 0, 0, 0, 0, 0, 0, 0, 0, 0, 0, 0, 0, 0, 0,
    0, 0, 0, 0, 0, 0, 0, 0, 0, 0, 0, 1, 1, 1, 1, 1] @ replicate 128 1"

definition rfc1738_reserved_char_map :: "nat list" where
  "rfc1738_reserved_char_map = [
    0, 0, 0, 0, 0, 0, 0, 0, 0, 0, 0, 0, 0, 0, 0, 0,
    0, 0, 0, 0, 0, 0, 0, 0, 0, 0, 0, 0, 0, 0, 0, 0,
    0, 0, 0, 0, 0, 0, 1, 0, 0, 0, 0, 0, 0, 0, 0, 1,
    0, 0, 0, 0, 0, 0, 0, 0, 0, 0, 1, 1, 0, 1, 0, 1,
    1, 0, 0, 0, 0, 0, 0, 0, 0, 0, 0, 0, 0, 0, 0, 0,
    0, 0, 0, 0, 0, 0, 0, 0, 0, 0, 0, 0, 0, 0, 0, 0,
    0, 0, 0, 0, 0, 0, 0, 0, 0, 0, 0, 0, 0, 0, 0, 0,
    0, 0, 0, 0, 0, 0, 0, 0, 0, 0, 0, 0, 0, 0, 0, 0] @ replicate 128 0"

text \<open>The digits of \<open>sprintf\<close> with \<open>%02X\<close>.\<close>

definition hex_digit :: "nat \<Rightarrow> byte" where
  "hex_digit d = (if d < 10 then 48 + of_nat d else 55 + of_nat d)"

definition percent_02X :: "byte \<Rightarrow> byte list" where
  "percent_02X b = [37, hex_digit (unat b div 16), hex_digit (unat b mod 16)]"

text \<open>
  Whether a character is escaped. The tables are indexed by \<open>(int) *p\<close> where \<open>char\<close> is signed, so
  that a byte from 128 on is an index before the table.
\<close>

definition rfc1738_escape_char :: "int \<Rightarrow> byte \<Rightarrow> bool option" where
  "rfc1738_escape_char encode_reserved p = do {
     u \<leftarrow> arr_getz rfc1738_unsafe_char_map (sint p);
     if u > 0 then Some True
     else if encode_reserved \<ge> 0 \<and> p = 37 then Some True
     else if encode_reserved > 0 then do {
       r \<leftarrow> arr_getz rfc1738_reserved_char_map (sint p);
       Some (r > 0)
     }
     else Some False
   }"

text \<open>\<open>sprintf\<close> also writes a terminator behind the three characters.\<close>

fun rfc1738_escape_loop :: "nat \<Rightarrow> int \<Rightarrow> byte list \<Rightarrow> byte list \<Rightarrow> byte list option" where
  "rfc1738_escape_loop sz encode_reserved [] out = buf_put sz out [0]"
| "rfc1738_escape_loop sz encode_reserved (p # url) out = do {
     do_escape \<leftarrow> rfc1738_escape_char encode_reserved p;
     if do_escape then do {
       _ \<leftarrow> buf_put sz out (percent_02X p @ [0]);
       rfc1738_escape_loop sz encode_reserved url (out @ percent_02X p)
     }
     else do {
       out \<leftarrow> buf_put sz out [p];
       rfc1738_escape_loop sz encode_reserved url out
     }
   }"

definition rfc1738_do_escape :: "byte list \<Rightarrow> int \<Rightarrow> nat option \<Rightarrow> (byte list \<times> nat option) option" where
  "rfc1738_do_escape url encode_reserved bufsize = do {
     let sz = static_reserve 3 (length url) bufsize;
     out \<leftarrow> rfc1738_escape_loop sz encode_reserved url [];
     Some (out, Some sz)
   }"

definition rfc1738_escape :: "byte list \<Rightarrow> nat option \<Rightarrow> (byte list \<times> nat option) option" where
  "rfc1738_escape url = rfc1738_do_escape url 0"

definition rfc1738_escape_unescaped :: "byte list \<Rightarrow> nat option \<Rightarrow> (byte list \<times> nat option) option" where
  "rfc1738_escape_unescaped url = rfc1738_do_escape url (- 1)"

definition rfc1738_escape_part :: "byte list \<Rightarrow> nat option \<Rightarrow> (byte list \<times> nat option) option" where
  "rfc1738_escape_part url = rfc1738_do_escape url 1"

definition fromhex :: "byte \<Rightarrow> int" where
  "fromhex ch =
     (if 48 \<le> ch \<and> ch \<le> 57 then uint ch - 48
      else if 97 \<le> ch \<and> ch \<le> 102 then uint ch - 97 + 10
      else if 65 \<le> ch \<and> ch \<le> 70 then uint ch - 65 + 10
      else - 1)"

text \<open>
  The loop of \<open>rfc1738_unescape\<close> on the memory of the string: \<open>i\<close> is the position written, \<open>j\<close>
  the position read.
\<close>

function rfc1738_unescape_loop :: "byte list \<Rightarrow> nat \<Rightarrow> nat \<Rightarrow> byte list option" where
  "rfc1738_unescape_loop s i j = do {
     c \<leftarrow> arr_get s j;
     if c = 0 then arr_set s i 0
     else do {
       s' \<leftarrow> arr_set s i c;
       if c \<noteq> 37 then rfc1738_unescape_loop s' (i + 1) (j + 1)
       else do {
         c1 \<leftarrow> arr_get s' (j + 1);
         if c1 = 37 then rfc1738_unescape_loop s' (i + 1) (j + 2)
         else do {
           c2 \<leftarrow> arr_get s' (j + 2);
           let x = push_bit 4 (fromhex c1) OR fromhex c2;
           if 0 < x \<and> x \<le> 255 then do {
             s'' \<leftarrow> arr_set s' i (word_of_int x);
             rfc1738_unescape_loop s'' (i + 1) (j + 3)
           }
           else rfc1738_unescape_loop s' (i + 1) (j + 1)
         }
       }
     }
   }"
  by auto
termination
  by (relation "measure (\<lambda>(s, _, j). length s - j)")
    (auto simp: arr_get_eq_Some_iff arr_set_eq_Some_iff)

declare rfc1738_unescape_loop.simps [simp del]

definition rfc1738_unescape :: "byte list \<Rightarrow> byte list option" where
  "rfc1738_unescape s = rfc1738_unescape_loop s 0 0"

section \<open>html\_quote.c\<close>

definition htmlstandardentities :: "(byte \<times> byte list) list" where
  "htmlstandardentities =
     [(of_char CHR ''<'', map of_char ''&lt;''),
      (of_char CHR ''>'', map of_char ''&gt;''),
      (34, map of_char ''&quot;''),
      (of_char CHR ''&'', map of_char ''&amp;''),
      (39, map of_char ''&#39;'')]"

text \<open>\<open>strncpy (dst, escape, 6)\<close> always writes six bytes, filling up with zeroes.\<close>

fun html_quote_loop :: "nat \<Rightarrow> byte list \<Rightarrow> byte list \<Rightarrow> byte list option" where
  "html_quote_loop sz [] out = buf_put sz out [0]"
| "html_quote_loop sz (ch # src) out =
     (case map_of htmlstandardentities ch of
        Some escape \<Rightarrow> do {
          _ \<leftarrow> buf_put sz out (take 6 (escape @ replicate 6 0));
          html_quote_loop sz src (out @ escape)
        }
      | None \<Rightarrow> do {
          out \<leftarrow> buf_put sz out [ch];
          html_quote_loop sz src out
        })"

definition html_quote :: "byte list \<Rightarrow> nat option \<Rightarrow> (byte list \<times> nat option) option" where
  "html_quote str bufsize = do {
     let sz = static_reserve 6 (length str) bufsize;
     out \<leftarrow> html_quote_loop sz str [];
     Some (out, Some sz)
   }"

section \<open>What escaping computes\<close>

definition ascii :: "byte \<Rightarrow> bool" where
  "ascii p \<longleftrightarrow> uint p < 128"

definition must_escape :: "int \<Rightarrow> byte \<Rightarrow> bool" where
  "must_escape encode_reserved p \<longleftrightarrow> rfc1738_unsafe_char_map ! unat p > 0 \<or>
     encode_reserved \<ge> 0 \<and> p = 37 \<or>
     encode_reserved > 0 \<and> rfc1738_reserved_char_map ! unat p > 0"

definition escaped :: "int \<Rightarrow> byte \<Rightarrow> byte list" where
  "escaped encode_reserved p = (if must_escape encode_reserved p then percent_02X p else [p])"

definition escaped_url :: "int \<Rightarrow> byte list \<Rightarrow> byte list" where
  "escaped_url encode_reserved url = concat (map (escaped encode_reserved) url)"

lemma length_maps: "length rfc1738_unsafe_char_map = 256" "length rfc1738_reserved_char_map = 256"
  by (simp_all add: rfc1738_unsafe_char_map_def rfc1738_reserved_char_map_def)

lemma sint_ascii: "ascii p \<Longrightarrow> sint p = uint p" "\<not> ascii p \<Longrightarrow> sint p < 0"
proof -
  have u: "sint p = signed_take_bit 7 (uint p)" "uint p < 256"
    using uint_bounded [of p] by (simp_all add: sint_uint)
  show "sint p = uint p" if "ascii p"
  proof -
    have "0 \<le> uint p"
      by simp
    then have "- (2 ^ 7) \<le> uint p"
      by (rule order_trans [rotated]) simp
    moreover have "uint p < 2 ^ 7"
      using that by (simp add: ascii_def)
    ultimately show ?thesis
      unfolding u(1) by (rule signed_take_bit_int_eq_self)
  qed
  show "sint p < 0" if "\<not> ascii p"
  proof -
    have "uint p div 128 = 1"
      using that u(2) by (simp add: ascii_def)
    then have "odd (uint p div 2 ^ 7)"
      by simp
    then have "bit p 7"
      by (simp only: bit_iff_odd [symmetric] bit_uint_iff)
    then show ?thesis
      using bit_last_iff [of p] by simp
  qed
qed

lemma unat_byte_less: "unat (p::byte) < 256"
  using unsigned_less [of p] by simp

lemma arr_getz_sint: "arr_getz xs (sint (p::byte)) = (if ascii p then arr_get xs (unat p) else None)"
  using sint_ascii [of p] by (cases "ascii p") (simp_all add: arr_getz_def)

lemma rfc1738_escape_char_eq:
  "rfc1738_escape_char r p = (if ascii p then Some (must_escape r p) else None)"
  using unat_byte_less [of p]
  by (auto simp: rfc1738_escape_char_def arr_getz_sint length_maps must_escape_def)

lemma length_escaped: "length (escaped r p) \<le> 3"
  by (simp add: escaped_def percent_02X_def)

lemma rfc1738_escape_loop_eq:
  "length out + 3 * length url + 1 \<le> sz \<Longrightarrow>
     rfc1738_escape_loop sz r url out =
       (if \<forall>p\<in>set url. ascii p then Some (out @ escaped_url r url @ [0]) else None)"
proof (induction url arbitrary: out)
  case (Cons p url)
  show ?case
  proof (cases "ascii p")
    case True
    have "length (out @ escaped r p) + 3 * length url + 1 \<le> sz"
      using Cons.prems length_escaped [of r p] by simp
    from Cons.IH [OF this] True Cons.prems show ?thesis
      by (auto simp: rfc1738_escape_char_eq escaped_url_def escaped_def buf_put_def percent_02X_def)
  qed (simp add: rfc1738_escape_char_eq)
qed (simp add: buf_put_def escaped_url_def)

lemma rfc1738_do_escape_eq:
  assumes "static_ok 3 bufsize"
  shows "rfc1738_do_escape url r bufsize =
    (if \<forall>p\<in>set url. ascii p
     then Some (escaped_url r url @ [0], Some (static_reserve 3 (length url) bufsize)) else None)"
proof -
  have "length [] + 3 * length url + 1 \<le> static_reserve 3 (length url) bufsize"
    using static_reserve_enough(1) [OF assms, of "length url"] by (simp add: mult.commute)
  from rfc1738_escape_loop_eq [OF this, of r] show ?thesis
    by (simp add: rfc1738_do_escape_def Let_def)
qed

section \<open>What unescaping computes\<close>

definition hex_value :: "byte \<Rightarrow> byte \<Rightarrow> int" where
  "hex_value d e = push_bit 4 (fromhex d) OR fromhex e"

fun unescaped :: "byte list \<Rightarrow> byte list" where
  "unescaped [] = []"
| "unescaped (c # t) =
     (if c \<noteq> 37 then c # unescaped t
      else case t of
          [] \<Rightarrow> [37]
        | d # t' \<Rightarrow>
            if d = 37 then 37 # unescaped t'
            else case t' of
                [] \<Rightarrow> 37 # unescaped t
              | e # t'' \<Rightarrow>
                  if 0 < hex_value d e \<and> hex_value d e \<le> 255
                  then word_of_int (hex_value d e) # unescaped t''
                  else 37 # unescaped t)"

lemma fromhex_0: "fromhex 0 = - 1"
  by (simp add: fromhex_def)

lemma or_minus_one: "(x::int) OR - 1 = - 1"
  by simp

lemma hex_value_end: "hex_value d 0 = - 1" "hex_value 0 e < 0"
  by (simp_all add: hex_value_def fromhex_0)

text \<open>One pass of the loop, on the part of the memory before \<open>i\<close> and the part from \<open>j\<close> on.\<close>

lemma unescape_write:
  assumes "i \<le> j" "j < length s" "j < k"
  shows "take (i + 1) (s[i := c]) = take i s @ [c]" "drop k (s[i := c]) = drop k s"
  using assms by (simp_all add: take_Suc_conv_app_nth)

lemma unescape_stop:
  assumes "i \<le> j" "drop j s = 0 # rest"
  shows "\<exists>z. rfc1738_unescape_loop s i j = Some (take i s @ 0 # z)"
  using drop_Cons_nth [OF assms(2)] assms(1)
  by (subst rfc1738_unescape_loop.simps) (simp add: upd_conv_take_nth_drop)

text \<open>The four ways through the body of the loop.\<close>

lemma unescape_copy:
  assumes "i \<le> j" "drop j s = c # t" "c \<noteq> 0" "c \<noteq> 37"
  shows "rfc1738_unescape_loop s i j = rfc1738_unescape_loop (s[i := c]) (i + 1) (j + 1)"
    "take (i + 1) (s[i := c]) = take i s @ [c]" "drop (j + 1) (s[i := c]) = t"
proof -
  have n: "j < length s" "s ! j = c" "drop (j + 1) s = t"
    using drop_Cons_nth [OF assms(2)] by auto
  show "rfc1738_unescape_loop s i j = rfc1738_unescape_loop (s[i := c]) (i + 1) (j + 1)"
    using assms(1,3,4) n(1,2) by (subst rfc1738_unescape_loop.simps) simp
  show "take (i + 1) (s[i := c]) = take i s @ [c]" "drop (j + 1) (s[i := c]) = t"
    using n(1,3) assms(1) by (simp_all add: take_Suc_conv_app_nth)
qed

lemma unescape_percent:
  assumes "i \<le> j" "drop j s = 37 # 37 # t"
  shows "rfc1738_unescape_loop s i j = rfc1738_unescape_loop (s[i := 37]) (i + 1) (j + 2)"
    "take (i + 1) (s[i := 37]) = take i s @ [37]" "drop (j + 2) (s[i := 37]) = t"
proof -
  have n: "j < length s" "s ! j = 37" "j + 1 < length s" "s ! (j + 1) = 37" "drop (j + 2) s = t"
    using drop_Cons_nth [OF assms(2)] drop_Cons_nth [of "j + 1" s 37 t] by auto
  show "rfc1738_unescape_loop s i j = rfc1738_unescape_loop (s[i := 37]) (i + 1) (j + 2)"
    using assms(1) n(1-4) by (subst rfc1738_unescape_loop.simps) simp
  show "take (i + 1) (s[i := 37]) = take i s @ [37]" "drop (j + 2) (s[i := 37]) = t"
    using n(1,5) assms(1) by (simp_all add: take_Suc_conv_app_nth)
qed

lemma unescape_hex:
  assumes "i \<le> j" "drop j s = 37 # d # e # t" "d \<noteq> 37"
  shows "rfc1738_unescape_loop s i j =
      (if 0 < hex_value d e \<and> hex_value d e \<le> 255
       then rfc1738_unescape_loop (s[i := word_of_int (hex_value d e)]) (i + 1) (j + 3)
       else rfc1738_unescape_loop (s[i := 37]) (i + 1) (j + 1))"
    "take (i + 1) (s[i := c]) = take i s @ [c]" "drop (j + 3) (s[i := c]) = t"
    "drop (j + 1) (s[i := c]) = d # e # t"
proof -
  note j = drop_Cons_nth [OF assms(2)]
  note j1 = drop_Cons_nth [of "j + 1" s d "e # t"]
  note j2 = drop_Cons_nth [of "j + 2" s e t]
  have n: "j < length s" "s ! j = 37" "j + 1 < length s" "s ! (j + 1) = d" "j + 2 < length s"
      "s ! (j + 2) = e" "drop (j + 3) s = t" "drop (j + 1) s = d # e # t"
    using j j1 j2 by (auto simp: numeral_3_eq_3)
  then show "rfc1738_unescape_loop s i j =
      (if 0 < hex_value d e \<and> hex_value d e \<le> 255
       then rfc1738_unescape_loop (s[i := word_of_int (hex_value d e)]) (i + 1) (j + 3)
       else rfc1738_unescape_loop (s[i := 37]) (i + 1) (j + 1))"
    using assms(1,3) by (subst rfc1738_unescape_loop.simps) (simp add: hex_value_def Let_def)
  show "take (i + 1) (s[i := c]) = take i s @ [c]" "drop (j + 3) (s[i := c]) = t"
    "drop (j + 1) (s[i := c]) = d # e # t"
    using n assms(1) by (simp_all add: take_Suc_conv_app_nth)
qed

lemma rfc1738_unescape_loop_eq:
  assumes "i \<le> j" "drop j s = t @ 0 # rest" "0 \<notin> set t" "rest \<noteq> [] \<or> t = [] \<or> last t \<noteq> 37"
  shows "\<exists>z. rfc1738_unescape_loop s i j = Some (take i s @ unescaped t @ 0 # z)"
  using assms
proof (induction "length t" arbitrary: s i j t rule: less_induct)
  case less
  show ?case
  proof (cases t)
    case Nil
    with unescape_stop [of i j s rest] less.prems show ?thesis
      by simp
  next
    case (Cons c t1)
    consider (copy) "c \<noteq> 37" | (percent) t2 where "c = 37" "t1 = 37 # t2"
      | (hex) d e t3 where "c = 37" "d \<noteq> 37" "t1 @ 0 # rest = d # e # t3"
    proof (cases "c = 37")
      case True
      then have "t1 @ rest \<noteq> []"
        using less.prems(4) Cons by auto
      obtain d t' where "t1 @ 0 # rest = d # t'"
        by (cases "t1 @ 0 # rest") auto
      moreover obtain e t3 where "t' = e # t3"
        using calculation \<open>t1 @ rest \<noteq> []\<close> by (cases t'; cases t1) auto
      ultimately show ?thesis
        using that by (cases t1) auto
    qed (use that in blast)
    then show ?thesis
    proof cases
      case copy
      note u = unescape_copy [of i j s c "t1 @ 0 # rest"]
      have "\<exists>z. rfc1738_unescape_loop (s[i := c]) (i + 1) (j + 1) =
          Some (take (i + 1) (s[i := c]) @ unescaped t1 @ 0 # z)"
        using less.prems Cons u(3) copy by (intro less.hyps) auto
      with u copy less.prems Cons show ?thesis
        by auto
    next
      case percent
      note u = unescape_percent [of i j s "t2 @ 0 # rest"]
      have "\<exists>z. rfc1738_unescape_loop (s[i := 37]) (i + 1) (j + 2) =
          Some (take (i + 1) (s[i := 37]) @ unescaped t2 @ 0 # z)"
        using less.prems Cons u(3) percent by (intro less.hyps) auto
      with u percent less.prems Cons show ?thesis
        by auto
    next
      case hex
      note u = unescape_hex [of i j s d e t3]
      have dr: "drop j s = 37 # d # e # t3"
        using less.prems(2) Cons hex by simp
      show ?thesis
      proof (cases "0 < hex_value d e \<and> hex_value d e \<le> 255")
        case True
        then obtain t4 where t1: "t1 = d # e # t4" "t3 = t4 @ 0 # rest"
          using hex(3) hex_value_end [of d] hex_value_end(2) [of e] less.prems(3) Cons
          by (cases t1; cases "tl t1") (auto simp: Cons_eq_append_conv)
        have "\<exists>z. rfc1738_unescape_loop (s[i := word_of_int (hex_value d e)]) (i + 1) (j + 3) =
            Some (take (i + 1) (s[i := word_of_int (hex_value d e)]) @ unescaped t4 @ 0 # z)"
          using less.prems Cons u(3) [OF _ dr hex(2)] t1 by (intro less.hyps) auto
        with u dr hex True less.prems Cons t1 show ?thesis
          by auto
      next
        case False
        have un: "unescaped t = 37 # unescaped t1"
          using Cons hex False by (cases t1; cases "tl t1") auto
        have "\<exists>z. rfc1738_unescape_loop (s[i := 37]) (i + 1) (j + 1) =
            Some (take (i + 1) (s[i := 37]) @ unescaped t1 @ 0 # z)"
          using less.prems Cons u(4) [OF _ dr hex(2)] hex(3) by (intro less.hyps) auto
        with u dr hex False less.prems un show ?thesis
          by auto
      qed
    qed
  qed
qed

section \<open>Decoding what was escaped\<close>

lemma all_less_16: "(\<forall>d<16::nat. P d) \<longleftrightarrow> P 0 \<and> P 1 \<and> P 2 \<and> P 3 \<and> P 4 \<and> P 5 \<and> P 6 \<and> P 7 \<and>
    P 8 \<and> P 9 \<and> P 10 \<and> P 11 \<and> P 12 \<and> P 13 \<and> P 14 \<and> P 15"
  by (simp add: numeral_eq_Suc All_less_Suc2)

lemma fromhex_hex_digit: "d < 16 \<Longrightarrow> fromhex (hex_digit d) = int d \<and> hex_digit d \<noteq> 37 \<and> hex_digit d \<noteq> 0"
proof -
  have "\<forall>d<16. fromhex (hex_digit d) = int d \<and> hex_digit d \<noteq> 37 \<and> hex_digit d \<noteq> 0"
    unfolding all_less_16 by (simp add: fromhex_def hex_digit_def)
  then show "d < 16 \<Longrightarrow> fromhex (hex_digit d) = int d \<and> hex_digit d \<noteq> 37 \<and> hex_digit d \<noteq> 0"
    by blast
qed

lemma hex_value_percent:
  "hex_value (hex_digit (unat p div 16)) (hex_digit (unat p mod 16)) = uint (p::byte)"
proof -
  have d: "unat p div 16 < 16" "unat p mod 16 < 16"
    using unat_byte_less [of p] by (simp_all add: less_mult_imp_div_less)
  have "hex_value (hex_digit (unat p div 16)) (hex_digit (unat p mod 16)) =
      push_bit 4 (int (unat p div 16)) OR int (unat p mod 16)"
    by (simp add: hex_value_def fromhex_hex_digit [OF d(1)] fromhex_hex_digit [OF d(2)])
  also have "\<dots> = int (unat p div 16) * 2 ^ 4 + int (unat p mod 16)"
    using d(2) by (intro push_bit_or_low) simp_all
  also have "\<dots> = int (unat p div 16 * 16 + unat p mod 16)"
    by (simp only: of_nat_add of_nat_mult) simp
  also have "\<dots> = int (unat p)"
    by (rule arg_cong [OF div_mult_mod_eq])
  also have "\<dots> = uint p"
    by simp
  finally show ?thesis .
qed

lemma must_escape_percent: "0 \<le> r \<Longrightarrow> must_escape r 37"
  by (simp add: must_escape_def)

lemma unescaped_escaped:
  assumes "0 \<le> r" "p \<noteq> 0"
  shows "unescaped (escaped r p @ t) = p # unescaped t"
proof (cases "must_escape r p")
  case True
  have "unat p div 16 < 16"
    using unat_byte_less [of p] by (simp add: less_mult_imp_div_less)
  moreover have "0 < uint p" "uint p < 256"
    using assms(2) uint_bounded [of p] order_le_neq_trans [of 0 "uint p"] by (auto simp: uint_0_iff)
  ultimately show ?thesis
    using True fromhex_hex_digit [of "unat p div 16"] by (simp add: escaped_def percent_02X_def hex_value_percent)
next
  case False
  with must_escape_percent [OF assms(1)] have "p \<noteq> 37"
    by auto
  with False show ?thesis
    by (simp add: escaped_def)
qed

lemma unescaped_escaped_url:
  assumes "0 \<le> r" "\<forall>p\<in>set url. ascii p \<and> p \<noteq> 0"
  shows "unescaped (escaped_url r url) = url"
  using assms(2) by (induction url) (simp_all add: escaped_url_def unescaped_escaped [OF assms(1)])

lemma escaped_url_no_0: "0 \<notin> set url \<Longrightarrow> 0 \<notin> set (escaped_url r url)"
proof -
  have "hex_digit (unat p div 16) \<noteq> 0 \<and> hex_digit (unat p mod 16) \<noteq> 0" for p :: byte
    using unat_byte_less [of p] by (simp add: fromhex_hex_digit less_mult_imp_div_less)
  then show "0 \<notin> set url \<Longrightarrow> 0 \<notin> set (escaped_url r url)"
    by (auto simp: escaped_url_def escaped_def percent_02X_def split: if_splits)
qed

lemma escaped_url_last:
  assumes "0 \<le> r" "url \<noteq> []"
  shows "last (escaped_url r url) \<noteq> 37"
proof -
  obtain us p where "url = us @ [p]"
    using assms(2) by (cases url rule: rev_cases) auto
  then have "escaped_url r url = escaped_url r us @ escaped r p"
    by (simp add: escaped_url_def)
  moreover have "escaped r p \<noteq> []" "last (escaped r p) \<noteq> 37"
  proof -
    have "hex_digit (unat p mod 16) \<noteq> 37"
      using fromhex_hex_digit [of "unat p mod 16"] by simp
    then show "escaped r p \<noteq> []" "last (escaped r p) \<noteq> 37"
      using must_escape_percent [OF assms(1)] by (auto simp: escaped_def percent_02X_def split: if_splits)
  qed
  ultimately show ?thesis
    by simp
qed

section \<open>Properties\<close>

text \<open>C28.
  URL escaping stays inside its static buffer, whatever calls came before: the call returns the
  escaped text exactly when every character is below 128 and the buffer it leaves is again one
  that later calls can rely on. Other characters index the tables at a negative position.
\<close>

theorem rfc1738_do_escape_safe:
  assumes "static_ok 3 bufsize"
  shows "(case rfc1738_do_escape url r bufsize of
            Some (out, bufsize') \<Rightarrow>
              (\<forall>p\<in>set url. ascii p) \<and> out = escaped_url r url @ [0] \<and> static_ok 3 bufsize' \<and>
              length out \<le> the bufsize'
          | None \<Rightarrow> \<exists>p\<in>set url. \<not> ascii p)"
proof -
  have "length (escaped_url r url) \<le> length url * 3"
    unfolding escaped_url_def
    by (induction url) (auto intro: add_mono length_escaped order_trans [OF add_mono [OF length_escaped]])
  then show ?thesis
    using static_reserve_enough [OF assms, of "length url"] by (auto simp: rfc1738_do_escape_eq [OF assms])
qed

theorem rfc1738_do_escape_safe_witness:
  "rfc1738_do_escape [97, 32] 0 None = Some ([97, 37, 50, 48, 0], Some 7)"
  using rfc1738_do_escape_safe [of None "[97, 32]" 0]
  by (simp add: static_ok_def rfc1738_do_escape_eq ascii_def escaped_url_def escaped_def must_escape_def
      percent_02X_def hex_digit_def static_reserve_def rfc1738_unsafe_char_map_def)

text \<open>C29.
  The in-place decoder writes over the string it reads: on the memory of a terminated string with
  at least one byte after the terminator it succeeds, and the string left is the decoded one.
\<close>

theorem rfc1738_unescape_correct:
  assumes "0 \<notin> set t" "rest \<noteq> []"
  shows "\<exists>z. rfc1738_unescape (t @ 0 # rest) = Some (unescaped t @ 0 # z)"
  using rfc1738_unescape_loop_eq [of 0 0 "t @ 0 # rest" t rest] assms by (simp add: rfc1738_unescape_def)

text \<open>C30.
  Escaping and then decoding gives the text back: for the two modes that escape the percent sign
  and for a text of characters between 1 and 127, the decoder applied to the string that the escaper
  returned, whether or not there is memory behind it, leaves the text in its place.
\<close>

theorem rfc1738_roundtrip:
  assumes "static_ok 3 bufsize" "0 \<le> r" "\<forall>p\<in>set url. ascii p \<and> p \<noteq> 0"
  shows "\<exists>out bufsize' z. rfc1738_do_escape url r bufsize = Some (out, bufsize') \<and>
    rfc1738_unescape (out @ rest) = Some (url @ 0 # z)"
proof -
  have "0 \<notin> set url"
    using assms(3) by auto
  moreover have "escaped_url r url = [] \<or> last (escaped_url r url) \<noteq> 37"
    using escaped_url_last [OF assms(2), of url] by (cases url) (auto simp: escaped_url_def)
  ultimately have "\<exists>z. rfc1738_unescape ((escaped_url r url @ [0]) @ rest) = Some (url @ 0 # z)"
    using rfc1738_unescape_loop_eq [of 0 0 "escaped_url r url @ 0 # rest" "escaped_url r url" rest]
      escaped_url_no_0 [of url r] unescaped_escaped_url [OF assms(2,3)] assms(3)
    by (simp add: rfc1738_unescape_def)
  then show ?thesis
    using assms(3) by (simp add: rfc1738_do_escape_eq [OF assms(1)])
qed

theorem rfc1738_unescape_correct_witness:
  "\<exists>z. rfc1738_unescape [37, 52, 49, 37, 0, 7] = Some (65 # 37 # 0 # z)"
  using rfc1738_unescape_correct [of "[37, 52, 49, 37]" "[7]"]
  by (simp add: hex_value_def fromhex_def push_bit_eq_mult)

theorem rfc1738_roundtrip_witness:
  "\<exists>out bufsize' z. rfc1738_do_escape [97, 37, 32] 1 None = Some (out, bufsize') \<and>
     rfc1738_unescape out = Some (97 # 37 # 32 # 0 # z)"
  using rfc1738_roundtrip [of None 1 "[97, 37, 32]" "[]"] by (simp add: static_ok_def ascii_def)

text \<open>
  A percent sign at the end of a string makes the decoder read behind the terminator: without
  memory there it fails. A byte from 128 on makes the escaper read before its table.
\<close>

lemma rfc1738_unescape_overread: "rfc1738_unescape [37, 0] = None"
  by (simp add: rfc1738_unescape_def rfc1738_unescape_loop.simps)

lemma rfc1738_escape_signed: "rfc1738_escape [200] None = None"
  by (simp add: rfc1738_escape_def rfc1738_do_escape_eq static_ok_def ascii_def)

section \<open>Quoting for HTML\<close>

definition html_quoted :: "byte list \<Rightarrow> byte list" where
  "html_quoted str =
     concat (map (\<lambda>ch. case map_of htmlstandardentities ch of Some e \<Rightarrow> e | None \<Rightarrow> [ch]) str)"

lemma htmlstandardentities_bound:
  "map_of htmlstandardentities ch = Some e \<Longrightarrow>
     length e \<le> 6 \<and> set e \<inter> {60, 62, 34, 39} = {} \<and> hd e = 38 \<and> last e = 59 \<and> e \<noteq> []"
  by (auto simp: htmlstandardentities_def of_char_def horner_sum_simps split: if_splits)

lemma html_quote_loop_eq:
  "length out + 6 * length str + 1 \<le> sz \<Longrightarrow> html_quote_loop sz str out = Some (out @ html_quoted str @ [0])"
proof (induction str arbitrary: out)
  case (Cons ch str)
  show ?case
  proof (cases "map_of htmlstandardentities ch")
    case None
    with Cons show ?thesis
      by (simp add: buf_put_def html_quoted_def)
  next
    case (Some e)
    with Cons htmlstandardentities_bound [OF Some] show ?thesis
      by (simp add: buf_put_def html_quoted_def)
  qed
qed (simp add: buf_put_def html_quoted_def)

lemma html_quoted_clean: "set (html_quoted str) \<inter> {60, 62, 34, 39} = {}"
proof (induction str)
  case (Cons ch str)
  show ?case
  proof (cases "map_of htmlstandardentities ch")
    case None
    then have "ch \<notin> {60, 62, 34, 39}"
      by (auto simp: htmlstandardentities_def of_char_def split: if_splits)
    with None Cons show ?thesis
      by (simp add: html_quoted_def)
  next
    case (Some e)
    with Cons htmlstandardentities_bound [OF Some] show ?thesis
      by (auto simp: html_quoted_def)
  qed
qed (simp add: html_quoted_def)

text \<open>C31.
  Quoting for HTML always succeeds inside its static buffer, although each entity is copied as six
  bytes, and the text it returns has no angle bracket, double quote or apostrophe.
\<close>

theorem html_quote_safe:
  assumes "static_ok 6 bufsize"
  shows "\<exists>bufsize'. html_quote str bufsize = Some (html_quoted str @ [0], bufsize') \<and>
    static_ok 6 bufsize' \<and> set (html_quoted str) \<inter> {60, 62, 34, 39} = {}"
proof -
  have "length [] + 6 * length str + 1 \<le> static_reserve 6 (length str) bufsize"
    using static_reserve_enough(1) [OF assms, of "length str"] by (simp add: mult.commute)
  from html_quote_loop_eq [OF this] show ?thesis
    using static_reserve_enough(2) [OF assms, of "length str"] html_quoted_clean [of str]
    by (simp add: html_quote_def Let_def)
qed

theorem html_quote_safe_witness:
  "\<exists>bufsize'. html_quote [60, 97] (Some 7) = Some ([38, 108, 116, 59, 97, 0], bufsize')"
  using html_quote_safe [of "Some 7" "[60, 97]"]
  by (auto simp: static_ok_def html_quoted_def htmlstandardentities_def of_char_def)

end
