(* ===== verification/C_String.thy ===== *)
theory C_String
  imports Lusca_Prelude
begin

text \<open>
  What the sources use of the C library on strings. A C string is the list of its bytes without
  the terminator; a pointer into it is an index up to its length, where the terminator is read.
\<close>

section \<open>Characters\<close>

definition isspace :: "byte \<Rightarrow> bool" where
  "isspace c \<longleftrightarrow> c = 32 \<or> 9 \<le> c \<and> c \<le> 13"

definition isdigit :: "byte \<Rightarrow> bool" where
  "isdigit c \<longleftrightarrow> 48 \<le> c \<and> c \<le> 57"

definition tolower :: "byte \<Rightarrow> byte" where
  "tolower c = (if 65 \<le> c \<and> c \<le> 90 then c + 32 else c)"

section \<open>Searching and comparing\<close>

definition cs_at :: "byte list \<Rightarrow> nat \<Rightarrow> byte option" where
  "cs_at s i = (if i < length s then Some (s ! i) else if i = length s then Some 0 else None)"

definition strspn :: "byte list \<Rightarrow> byte list \<Rightarrow> nat" where
  "strspn s accept = length (takeWhile (\<lambda>c. c \<in> set accept) s)"

definition strcspn :: "byte list \<Rightarrow> byte list \<Rightarrow> nat" where
  "strcspn s reject = length (takeWhile (\<lambda>c. c \<notin> set reject) s)"

text \<open>The index of the first occurrence, for a character other than the terminator.\<close>

definition strchr :: "byte list \<Rightarrow> byte \<Rightarrow> nat option" where
  "strchr s c = (if c \<in> set s then Some (length (takeWhile (\<lambda>d. d \<noteq> c) s)) else None)"

fun strstr :: "byte list \<Rightarrow> byte list \<Rightarrow> nat option" where
  "strstr [] t = (if t = [] then Some 0 else None)"
| "strstr (c # s) t =
     (if take (length t) (c # s) = t then Some 0 else map_option Suc (strstr s t))"

text \<open>Whether the comparisons give zero.\<close>

definition strncmp_eq :: "byte list \<Rightarrow> byte list \<Rightarrow> nat \<Rightarrow> bool" where
  "strncmp_eq a b n \<longleftrightarrow> take n a = take n b"

definition strncasecmp_eq :: "byte list \<Rightarrow> byte list \<Rightarrow> nat \<Rightarrow> bool" where
  "strncasecmp_eq a b n \<longleftrightarrow> map tolower (take n a) = map tolower (take n b)"

section \<open>Numbers\<close>

definition dec_value :: "byte list \<Rightarrow> int" where
  "dec_value ds = foldl (\<lambda>v d. 10 * v + (uint d - 48)) 0 ds"

definition clamp :: "int \<Rightarrow> int \<Rightarrow> int \<Rightarrow> int" where
  "clamp lo hi v = (if v < lo then lo else if hi < v then hi else v)"

text \<open>
  \<open>strtol\<close> and its relatives in base ten, for a result type with the given bounds: the value, the
  number of characters read and whether \<open>errno\<close> is set.
\<close>

definition strto :: "int \<Rightarrow> int \<Rightarrow> byte list \<Rightarrow> int \<times> nat \<times> bool" where
  "strto lo hi s =
     (let ws = takeWhile isspace s;
          s1 = drop (length ws) s;
          sign = (if s1 \<noteq> [] \<and> (hd s1 = 45 \<or> hd s1 = 43) then 1 else 0 :: nat);
          ds = takeWhile isdigit (drop sign s1);
          v = (if s1 \<noteq> [] \<and> hd s1 = 45 then - dec_value ds else dec_value ds)
      in if ds = [] then (0, 0, False)
         else (clamp lo hi v, length ws + sign + length ds, v < lo \<or> hi < v))"

text \<open>Decimal numerals as \<open>printf\<close> writes them.\<close>

function dec_nat :: "nat \<Rightarrow> byte list" where
  "dec_nat n = (if n < 10 then [48 + of_nat n] else dec_nat (n div 10) @ [48 + of_nat (n mod 10)])"
  by auto
termination
  by (relation "measure id") auto

declare dec_nat.simps [simp del]

definition dec_int :: "int \<Rightarrow> byte list" where
  "dec_int v = (if v < 0 then 45 # dec_nat (nat (- v)) else dec_nat (nat v))"

section \<open>Laws\<close>

lemma cs_at_in [simp]: "i < length s \<Longrightarrow> cs_at s i = Some (s ! i)"
  by (simp add: cs_at_def)

lemma cs_at_end [simp]: "cs_at s (length s) = Some 0"
  by (simp add: cs_at_def)

lemma cs_at_append: "cs_at (a @ b) (length a) = cs_at b 0"
  by (auto simp: cs_at_def nth_append)

lemma dec_value_snoc: "dec_value (ds @ [d]) = 10 * dec_value ds + (uint d - 48)"
  by (simp add: dec_value_def)

lemma uint_digit:
  assumes "n < 10"
  shows "uint (48 + of_nat n :: byte) = 48 + int n" "isdigit (48 + of_nat n)"
proof -
  show "uint (48 + of_nat n :: byte) = 48 + int n"
    using assms by (simp add: uint_word_ariths unsigned_of_nat take_bit_eq_mod)
  then show "isdigit (48 + of_nat n)"
    using assms by (simp add: isdigit_def word_le_def)
qed

lemma dec_nat_value: "dec_value (dec_nat n) = int n"
proof (induction n rule: dec_nat.induct)
  case (1 n)
  have "10 * (int n div 10) + int n mod 10 = int n"
    by (rule mult_div_mod_eq)
  with 1 show ?case
    by (subst dec_nat.simps) (simp add: dec_value_snoc uint_digit zdiv_int zmod_int, simp add: dec_value_def uint_digit)
qed

lemma dec_nat_digits: "list_all isdigit (dec_nat n)" "dec_nat n \<noteq> []"
proof -
  show "list_all isdigit (dec_nat n)"
  proof (induction n rule: dec_nat.induct)
    case (1 n)
    then show ?case
      by (subst dec_nat.simps) (simp add: uint_digit)
  qed
  show "dec_nat n \<noteq> []"
    by (subst dec_nat.simps) simp
qed

lemma isdigit_not:
  assumes "isdigit c"
  shows "\<not> isspace c" "c \<noteq> 45" "c \<noteq> 43" "c \<noteq> 44" "c \<noteq> 34" "c \<noteq> 42" "c \<noteq> 47" "c \<noteq> 0" "c \<noteq> 32"
  using assms by (auto simp: isdigit_def isspace_def word_le_def)

lemma takeWhile_digits:
  "list_all isdigit ds \<Longrightarrow> rest = [] \<or> \<not> isdigit (hd rest) \<Longrightarrow> takeWhile isdigit (ds @ rest) = ds"
  by (induction ds) (cases rest; auto)+

lemma dec_nat_hd: "\<exists>d ds. dec_nat n = d # ds \<and> isdigit d \<and> list_all isdigit ds"
  using dec_nat_digits [of n] by (cases "dec_nat n") auto

text \<open>Reading back a printed number, whatever follows that is not a digit.\<close>

lemma strto_dec_int:
  assumes "lo \<le> v" "v \<le> hi" "rest = [] \<or> \<not> isdigit (hd rest)"
  shows "strto lo hi (dec_int v @ rest) = (v, length (dec_int v), False)"
proof -
  obtain d ds where d: "dec_nat (nat \<bar>v\<bar>) = d # ds" "isdigit d" "list_all isdigit ds"
    using dec_nat_hd by blast
  have v: "dec_value (d # ds) = \<bar>v\<bar>"
    using dec_nat_value [of "nat \<bar>v\<bar>"] d(1) by simp
  have t: "takeWhile isdigit (ds @ rest) = ds"
    using takeWhile_digits [OF d(3) assms(3)] .
  show ?thesis
  proof (cases "v < 0")
    case True
    then have "dec_int v = 45 # d # ds"
      using d(1) by (simp add: dec_int_def)
    with True v t d(2) assms show ?thesis
      by (simp add: strto_def Let_def clamp_def isspace_def)
  next
    case False
    then have "dec_int v = d # ds"
      using d(1) by (simp add: dec_int_def)
    with False v t d(2) assms isdigit_not [OF d(2)] show ?thesis
      by (simp add: strto_def Let_def clamp_def)
  qed
qed

lemma strto_bounds: "lo \<le> 0 \<Longrightarrow> 0 \<le> hi \<Longrightarrow> strto lo hi s = (v, n, e) \<Longrightarrow> lo \<le> v \<and> v \<le> hi"
  by (auto simp: strto_def Let_def clamp_def split: if_splits)

lemma strcspn_le [simp]: "strcspn s r \<le> length s" "strspn s r \<le> length s"
  by (simp_all add: strcspn_def strspn_def length_takeWhile_le)

lemma strchr_append: "c \<notin> set a \<Longrightarrow> strchr (a @ c # b) c = Some (length a)"
proof -
  assume "c \<notin> set a"
  then have "takeWhile (\<lambda>d. d \<noteq> c) (a @ c # b) = a"
    by (subst takeWhile_append2) auto
  then show ?thesis
    by (simp add: strchr_def)
qed

lemma strchr_less:
  assumes "strchr s c = Some i"
  shows "i < length s" "s ! i = c"
proof -
  have i: "c \<in> set s" "i = length (takeWhile (\<lambda>d. d \<noteq> c) s)"
    using assms by (auto simp: strchr_def split: if_splits)
  show "i < length s"
    unfolding i(2) using i(1) by (induction s) auto
  then show "s ! i = c"
    using nth_length_takeWhile [of "\<lambda>d. d \<noteq> c" s] i(2) by simp
qed

end
