(* ===== verification/Lusca_String.thy ===== *)
theory Lusca_String
  imports C_String
begin

text \<open>
  The counted strings of the cache: the pools they are allocated from (\<^verbatim>\<open>libmem/MemStr.c\<close>) and
  their operations (\<^verbatim>\<open>libmem/String.c\<close>). A \<open>String\<close> holds the size of its buffer, a length and the
  buffer; size and length are 16-bit numbers in the source, written out as \<open>mod 65536\<close>. The
  contents of a fresh buffer are not specified: they are a parameter \<open>junk\<close> of the operations
  that allocate. The allocation statistics are left out.
\<close>

section \<open>String pools\<close>

definition StrPoolsAttrs :: "nat list" where
  "StrPoolsAttrs = [36, 128, 512]"

text \<open>The size of the buffer that is allocated for a net size.\<close>

definition memAllocString :: "nat \<Rightarrow> nat option" where
  "memAllocString net_size = do {
     let gross_size = (case find (\<lambda>obj_size. net_size \<le> obj_size) StrPoolsAttrs of
                         Some obj_size \<Rightarrow> obj_size
                       | None \<Rightarrow> net_size);
     c_assert (net_size \<le> gross_size);
     Some gross_size
   }"

definition memFreeString :: "nat \<Rightarrow> unit option" where
  "memFreeString sz = do {
     c_assert (sz \<noteq> 0);
     case find (\<lambda>obj_size. sz \<le> obj_size) StrPoolsAttrs of
       Some obj_size \<Rightarrow> c_assert (sz = obj_size)
     | None \<Rightarrow> Some ()
   }"

section \<open>Strings\<close>

record String =
  s_size :: nat
  s_len :: nat
  s_buf :: "byte list option"

type_synonym junk = "nat \<Rightarrow> byte"

definition StringNull :: String where
  "StringNull = \<lparr>s_size = 0, s_len = 0, s_buf = None\<rparr>"

definition stringInitBuf :: "junk \<Rightarrow> String \<Rightarrow> nat \<Rightarrow> String option" where
  "stringInitBuf junk s sz = do {
     sz \<leftarrow> memAllocString sz;
     c_assert (sz < 65536);
     Some (s\<lparr>s_buf := Some (map junk [0..<sz]), s_size := sz\<rparr>)
   }"

text \<open>
  \<open>str\<close> is the memory the argument points to. A negative length would be a copy of almost the
  whole address space.
\<close>

definition stringLimitInit :: "junk \<Rightarrow> byte list \<Rightarrow> int \<Rightarrow> String option" where
  "stringLimitInit junk str len = do {
     c_assert (0 \<le> len);
     s \<leftarrow> stringInitBuf junk StringNull (nat len + 1);
     let s = s\<lparr>s_len := nat len mod 65536\<rparr>;
     bs \<leftarrow> mem_read str 0 len;
     buf \<leftarrow> s_buf s;
     buf \<leftarrow> mem_write buf 0 bs;
     buf \<leftarrow> arr_set buf (nat len) 0;
     Some (s\<lparr>s_buf := Some buf\<rparr>)
   }"

definition stringInit :: "junk \<Rightarrow> byte list option \<Rightarrow> String option" where
  "stringInit junk str =
     (case str of
        Some str \<Rightarrow> stringLimitInit junk str (int (length str))
      | None \<Rightarrow> Some StringNull)"

definition stringDup :: "junk \<Rightarrow> String \<Rightarrow> String option" where
  "stringDup junk s = do {
     buf \<leftarrow> s_buf s;
     stringLimitInit junk buf (int (s_len s))
   }"

definition stringClean :: "String \<Rightarrow> String option" where
  "stringClean s = do {
     _ \<leftarrow> (if s_buf s \<noteq> None then memFreeString (s_size s) else Some ());
     Some StringNull
   }"

definition stringReset :: "junk \<Rightarrow> String \<Rightarrow> byte list option \<Rightarrow> String option" where
  "stringReset junk s str = do {
     _ \<leftarrow> stringClean s;
     stringInit junk str
   }"

text \<open>
  \<open>strncat\<close> writes behind the terminator of the destination at most \<open>n\<close> bytes of the source, up
  to its terminator, and a new terminator.
\<close>

definition strncat :: "byte list \<Rightarrow> byte list \<Rightarrow> nat \<Rightarrow> byte list option" where
  "strncat dst src n = do {
     d \<leftarrow> c_str dst;
     let bs = takeWhile (\<lambda>b. b \<noteq> 0) (take n src);
     c_assert (n \<le> length src \<or> 0 \<in> set src);
     mem_write dst (length d) (bs @ [0])
   }"

text \<open>The new length is stored in 16 bits before the buffer for it is allocated.\<close>

definition stringAppend :: "junk \<Rightarrow> String \<Rightarrow> byte list \<Rightarrow> int \<Rightarrow> String option" where
  "stringAppend junk s str len = do {
     c_assert (0 \<le> len);
     if s_len s + nat len < s_size s then do {
       buf \<leftarrow> s_buf s;
       buf \<leftarrow> strncat buf str (nat len);
       Some (s\<lparr>s_buf := Some buf, s_len := (s_len s + nat len) mod 65536\<rparr>)
     }
     else do {
       let snew = StringNull\<lparr>s_len := (s_len s + nat len) mod 65536\<rparr>;
       snew \<leftarrow> stringInitBuf junk snew (s_len snew + 1);
       buf \<leftarrow> s_buf snew;
       buf \<leftarrow> (case s_buf s of
                  Some old \<Rightarrow> do { bs \<leftarrow> mem_read old 0 (int (s_len s)); mem_write buf 0 bs }
                | None \<Rightarrow> Some buf);
       buf \<leftarrow> (if len \<noteq> 0 then do { bs \<leftarrow> mem_read str 0 len; mem_write buf (s_len s) bs } else Some buf);
       buf \<leftarrow> arr_set buf (s_len snew) 0;
       _ \<leftarrow> stringClean s;
       Some (snew\<lparr>s_buf := Some buf\<rparr>)
     }
   }"

text \<open>
  The copies to C memory return \<open>None\<close> inside the outer \<open>Some\<close> for a \<open>NULL\<close> result, and otherwise
  the allocated memory.
\<close>

definition stringDupToCRange :: "junk \<Rightarrow> String \<Rightarrow> int \<Rightarrow> int \<Rightarrow> byte list option option" where
  "stringDupToCRange junk s start stop =
     (case s_buf s of
        None \<Rightarrow> Some None
      | Some buf \<Rightarrow>
          if stop < start \<or> start \<ge> int (s_len s) then Some None
          else do {
            c_assert (stop < int (s_len s));
            let d = map junk [0..<nat (stop + 1 - start)];
            bs \<leftarrow> mem_read buf start (stop - start + 1);
            d \<leftarrow> mem_write d 0 bs;
            d \<leftarrow> arr_setz d (stop - start + 1) 0;
            Some (Some d)
          })"

definition stringDupToCOffset :: "junk \<Rightarrow> String \<Rightarrow> int \<Rightarrow> byte list option option" where
  "stringDupToCOffset junk s offset =
     (case s_buf s of
        None \<Rightarrow> Some None
      | Some buf \<Rightarrow> do {
          c_assert (offset \<le> int (s_len s));
          let d = map junk [0..<nat (int (s_len s) + 1 - offset)];
          bs \<leftarrow> mem_read buf offset (int (s_len s) - offset);
          d \<leftarrow> mem_write d 0 bs;
          d \<leftarrow> arr_setz d (int (s_len s) - offset) 0;
          Some (Some d)
        })"

definition stringDupToC :: "junk \<Rightarrow> String \<Rightarrow> byte list option option" where
  "stringDupToC junk s = stringDupToCOffset junk s 0"

definition stringDupSubstrToC :: "junk \<Rightarrow> String \<Rightarrow> int \<Rightarrow> byte list option option" where
  "stringDupSubstrToC junk s len =
     (let l = min len (int (s_len s)) in
      case s_buf s of
        None \<Rightarrow> Some None
      | Some buf \<Rightarrow> do {
          c_assert (len \<le> int (s_len s));
          let d = map junk [0..<nat (l + 1)];
          bs \<leftarrow> mem_read buf 0 (l + 1);
          d \<leftarrow> mem_write d 0 bs;
          d \<leftarrow> arr_setz d l 0;
          Some (Some d)
        })"

fun strChr_loop :: "byte list \<Rightarrow> byte \<Rightarrow> nat \<Rightarrow> nat \<Rightarrow> int option" where
  "strChr_loop buf ch 0 i = Some (- 1)"
| "strChr_loop buf ch (Suc n) i = do {
     c \<leftarrow> arr_get buf i;
     if c = ch then Some (int i) else strChr_loop buf ch n (i + 1)
   }"

definition strChr :: "String \<Rightarrow> byte \<Rightarrow> int option" where
  "strChr s ch = (if s_len s = 0 then Some (- 1) else do { buf \<leftarrow> s_buf s; strChr_loop buf ch (s_len s) 0 })"

text \<open>
  The loop of \<open>strRChr\<close> runs as long as the index is at most zero: it leaves at once for a length
  above one, and otherwise walks down from the index until it leaves the buffer.
\<close>

definition strRChr :: "String \<Rightarrow> byte \<Rightarrow> int option" where
  "strRChr s ch =
     (let i = int (s_len s) - 1 in
      if i \<le> 0 then do {
        buf \<leftarrow> s_buf s;
        c \<leftarrow> arr_getz buf i;
        if c = ch then Some i else do { _ \<leftarrow> arr_getz buf (i - 1); None }
      }
      else Some (- 1))"

definition strCut :: "String \<Rightarrow> int \<Rightarrow> String option" where
  "strCut s offset =
     (if offset \<ge> int (s_len s) then Some s
      else do {
        buf \<leftarrow> s_buf s;
        buf \<leftarrow> arr_setz buf offset 0;
        Some (s\<lparr>s_buf := Some buf, s_len := nat offset\<rparr>)
      })"

text \<open>The sign of the first difference, as \<open>strncmp\<close> gives it.\<close>

fun strncmp :: "byte list \<Rightarrow> byte list \<Rightarrow> nat \<Rightarrow> int" where
  "strncmp a b 0 = 0"
| "strncmp [] [] (Suc n) = 0"
| "strncmp [] (y # b) (Suc n) = - 1"
| "strncmp (x # a) [] (Suc n) = 1"
| "strncmp (x # a) (y # b) (Suc n) = (if x = y then strncmp a b n else if x < y then - 1 else 1)"

definition strNCmpNull :: "String \<Rightarrow> byte list option \<Rightarrow> int \<Rightarrow> int option" where
  "strNCmpNull s b n =
     (case (s_buf s, b) of
        (Some buf, Some b) \<Rightarrow> do {
          a \<leftarrow> c_str buf;
          let k = min (int (s_len s)) n;
          Some (strncmp a b (if k < 0 then length a + length b + 1 else nat k))
        }
      | (Some _, None) \<Rightarrow> Some 1
      | (None, Some _) \<Rightarrow> Some (- 1)
      | (None, None) \<Rightarrow> Some 0)"

section \<open>The invariant\<close>

text \<open>
  A string without a buffer is empty; a buffer is as large as recorded, comes from the pool for
  its size, and the length is that of the C string in it.
\<close>

definition pool_size :: "nat \<Rightarrow> bool" where
  "pool_size sz \<longleftrightarrow> sz \<in> set StrPoolsAttrs \<or> 512 < sz"

definition string_ok :: "String \<Rightarrow> bool" where
  "string_ok s \<longleftrightarrow>
     (case s_buf s of
        None \<Rightarrow> s_size s = 0 \<and> s_len s = 0
      | Some buf \<Rightarrow> length buf = s_size s \<and> s_len s < s_size s \<and> s_size s < 65536 \<and> pool_size (s_size s) \<and>
          buf ! s_len s = 0 \<and> 0 \<notin> set (take (s_len s) buf))"

definition string_val :: "String \<Rightarrow> byte list" where
  "string_val s = (case s_buf s of None \<Rightarrow> [] | Some buf \<Rightarrow> take (s_len s) buf)"

lemma string_okE:
  assumes "string_ok s"
  obtains "s = StringNull"
  | v rest where "s = \<lparr>s_size = length v + 1 + length rest, s_len = length v, s_buf = Some (v @ 0 # rest)\<rparr>"
      "length v + 1 + length rest < 65536" "pool_size (length v + 1 + length rest)" "0 \<notin> set v"
proof (cases "s_buf s")
  case None
  with assms that(1) show ?thesis
    by (cases s) (auto simp: string_ok_def StringNull_def)
next
  case (Some buf)
  then have *: "length buf = s_size s" "s_len s < length buf" "s_size s < 65536" "pool_size (s_size s)"
      "buf ! s_len s = 0" "0 \<notin> set (take (s_len s) buf)"
    using assms by (auto simp: string_ok_def)
  define v where "v = take (s_len s) buf"
  define rest where "rest = drop (Suc (s_len s)) buf"
  have buf: "buf = v @ 0 # rest"
    using id_take_nth_drop [OF *(2)] *(5) by (simp add: v_def rest_def)
  have len: "s_len s = length v" "s_size s = length v + 1 + length rest"
    using *(1,2) by (simp_all add: v_def rest_def)
  have "s = \<lparr>s_size = s_size s, s_len = s_len s, s_buf = s_buf s\<rparr>"
    by simp
  then show ?thesis
    using that(2) [of v rest] *(3,4,6) unfolding Some buf len v_def [symmetric] by simp
qed

lemma string_ok_Some:
  "length v + 1 + length rest < 65536 \<Longrightarrow> pool_size (length v + 1 + length rest) \<Longrightarrow> 0 \<notin> set v \<Longrightarrow>
     string_ok \<lparr>s_size = length v + 1 + length rest, s_len = length v, s_buf = Some (v @ 0 # rest)\<rparr>"
  by (simp add: string_ok_def)

lemma string_ok_Null [simp]: "string_ok StringNull" "string_val StringNull = []"
  by (simp_all add: string_ok_def StringNull_def string_val_def)

lemma string_val_Some [simp]:
  "string_val \<lparr>s_size = n, s_len = length v, s_buf = Some (v @ rest)\<rparr> = v"
  by (simp add: string_val_def)

lemma string_ok_len: "string_ok s \<Longrightarrow> length (string_val s) = s_len s \<and> 0 \<notin> set (string_val s)"
  by (erule string_okE) (auto simp: StringNull_def string_val_def)

lemma memAllocString_eq:
  "\<exists>g. memAllocString n = Some g \<and> n \<le> g \<and> (1 \<le> n \<longrightarrow> pool_size g) \<and> (512 < n \<longrightarrow> g = n) \<and> (n \<le> 512 \<longrightarrow> g \<le> 512)"
  by (simp add: memAllocString_def StrPoolsAttrs_def pool_size_def Let_def)

lemma memFreeString_ok: "pool_size sz \<Longrightarrow> memFreeString sz = Some ()"
  by (auto simp: memFreeString_def StrPoolsAttrs_def pool_size_def)

lemma stringClean_ok: "string_ok s \<Longrightarrow> stringClean s = Some StringNull"
  by (erule string_okE) (simp_all add: stringClean_def memFreeString_ok, simp add: StringNull_def)

section \<open>What the operations do\<close>

text \<open>A fresh buffer, and what it holds once a value and its terminator are written.\<close>

lemma stringInitBuf_ok:
  assumes "n < 65535"
  shows "\<exists>d. stringInitBuf junk s (n + 1) = Some (s\<lparr>s_buf := Some d, s_size := length d\<rparr>) \<and>
    n < length d \<and> length d < 65536 \<and> pool_size (length d)"
proof -
  obtain g where g: "memAllocString (n + 1) = Some g" "n + 1 \<le> g" "pool_size g" "g < 65536"
    using memAllocString_eq [of "n + 1"] assms by force
  then show ?thesis
    by (intro exI [of _ "map junk [0..<g]"]) (simp add: stringInitBuf_def)
qed

lemma fresh_fill:
  assumes "length v < length d"
  shows "\<exists>rest. (v @ drop (length v) d)[length v := 0] = v @ 0 # rest \<and> length d = length v + 1 + length rest"
proof -
  obtain x r where d: "drop (length v) d = x # r"
    using assms by (metis drop_eq_Nil2 leD neq_Nil_conv)
  from arg_cong [OF this, of length] have "length d = length v + 1 + length r"
    using assms by simp
  then show ?thesis
    by (intro exI [of _ r]) (simp add: d)
qed

lemma fresh_string:
  assumes "length v < length d" "length d < 65536" "pool_size (length d)" "0 \<notin> set v"
  shows "string_ok \<lparr>s_size = length d, s_len = length v, s_buf = Some ((v @ drop (length v) d)[length v := 0])\<rparr>"
    "string_val \<lparr>s_size = length d, s_len = length v, s_buf = Some ((v @ drop (length v) d)[length v := 0])\<rparr> = v"
  using fresh_fill [OF assms(1)] assms(2-) string_ok_Some [of v] by auto

lemma stringLimitInit_ok:
  assumes "length v < 65535" "0 \<notin> set v"
  shows "\<exists>s. stringLimitInit junk (v @ rest) (int (length v)) = Some s \<and> string_ok s \<and> string_val s = v"
proof -
  obtain d where d: "stringInitBuf junk StringNull (length v + 1) = Some (StringNull\<lparr>s_buf := Some d, s_size := length d\<rparr>)"
      "length v < length d" "length d < 65536" "pool_size (length d)"
    using stringInitBuf_ok [OF assms(1)] by blast
  have "stringLimitInit junk (v @ rest) (int (length v)) =
      Some \<lparr>s_size = length d, s_len = length v, s_buf = Some ((v @ drop (length v) d)[length v := 0])\<rparr>"
    using d(1,2) assms(1) by (simp add: stringLimitInit_def mem_read_prefix StringNull_def)
  with fresh_string [OF d(2-4) assms(2)] show ?thesis
    by blast
qed

text \<open>Appending, when the bytes fit the buffer and when they do not.\<close>

lemma append_in_place:
  assumes "string_ok s" "0 \<notin> set bs" "s_len s + length bs < s_size s"
  shows "\<exists>s'. stringAppend junk s (bs @ rest) (int (length bs)) = Some s' \<and> string_ok s' \<and>
    string_val s' = string_val s @ bs"
  using assms(1)
proof (cases rule: string_okE)
  case 1
  with assms(3) show ?thesis
    by (simp add: StringNull_def)
next
  case (2 v r)
  define r' where "r' = drop (length bs) r"
  have len: "length bs \<le> length r" "length v + 1 + length r = length (v @ bs) + 1 + length r'"
    using assms(3) 2(1) by (simp_all add: r'_def)
  have tw: "takeWhile (\<lambda>b. b \<noteq> 0) bs = bs"
    using assms(2) by (auto simp: takeWhile_eq_all_conv)
  have "strncat (v @ 0 # r) (bs @ rest) (length bs) = Some ((v @ bs) @ 0 # r')"
    using 2(4) len(1) by (simp add: strncat_def tw r'_def)
  then have "stringAppend junk s (bs @ rest) (int (length bs)) =
      Some \<lparr>s_size = length (v @ bs) + 1 + length r', s_len = length (v @ bs), s_buf = Some ((v @ bs) @ 0 # r')\<rparr>"
    using assms(3) 2(1,2) len(2) by (simp add: stringAppend_def)
  moreover have "string_ok \<lparr>s_size = length (v @ bs) + 1 + length r', s_len = length (v @ bs), s_buf = Some ((v @ bs) @ 0 # r')\<rparr>"
    using 2(2-4) assms(2) unfolding len(2) by (intro string_ok_Some) auto
  moreover have "string_val s = v"
    using 2(1) by simp
  ultimately show ?thesis
    using string_val_Some [of _ "v @ bs" "0 # r'"] by blast
qed

lemma append_moved:
  assumes "string_ok s" "0 \<notin> set bs" "\<not> s_len s + length bs < s_size s" "s_len s + length bs < 65535"
  shows "\<exists>s'. stringAppend junk s (bs @ rest) (int (length bs)) = Some s' \<and> string_ok s' \<and>
    string_val s' = string_val s @ bs"
proof -
  define n where "n = s_len s + length bs"
  obtain d where d: "stringInitBuf junk (StringNull\<lparr>s_len := n\<rparr>) (n + 1) =
      Some (StringNull\<lparr>s_len := n, s_buf := Some d, s_size := length d\<rparr>)"
      "n < length d" "length d < 65536" "pool_size (length d)"
    using stringInitBuf_ok [of n junk "StringNull\<lparr>s_len := n\<rparr>"] assms(4) unfolding n_def by blast
  define v where "v = string_val s"
  have v: "length v = s_len s" "0 \<notin> set v"
    using string_ok_len [OF assms(1)] by (simp_all add: v_def)
  have old: "(case s_buf s of Some old \<Rightarrow> mem_read old 0 (int (s_len s)) \<bind> mem_write d 0 | None \<Rightarrow> Some d) =
      Some (v @ drop (length v) d)"
    using assms(1)
  proof (cases rule: string_okE)
    case (2 w r)
    then show ?thesis
      using d(2) v(1) by (simp add: v_def n_def mem_read_prefix)
  next
    case 1
    then show ?thesis
      by (simp add: v_def) (simp add: StringNull_def)
  qed
  have new: "(if int (length bs) \<noteq> 0 then mem_read (bs @ rest) 0 (int (length bs)) \<bind> mem_write (v @ drop (length v) d) (s_len s)
       else Some (v @ drop (length v) d)) = Some ((v @ bs) @ drop (length (v @ bs)) d)"
    using d(2) v(1) by (simp add: n_def mem_read_prefix add.commute)
  have "stringAppend junk s (bs @ rest) (int (length bs)) =
      Some \<lparr>s_size = length d, s_len = length (v @ bs),
        s_buf = Some (((v @ bs) @ drop (length (v @ bs)) d)[length (v @ bs) := 0])\<rparr>"
  proof -
    have "n mod 65536 = n" "length (v @ bs) = n"
      using assms(4) v(1) by (simp_all add: n_def)
    then show ?thesis
      using assms(3) d(1,2) stringClean_ok [OF assms(1)] old new
      by (simp add: stringAppend_def n_def [symmetric] StringNull_def Let_def)
  qed
  moreover have "length (v @ bs) < length d" "0 \<notin> set (v @ bs)"
    using d(2) v assms(2) by (simp_all add: n_def)
  ultimately show ?thesis
    using fresh_string [of "v @ bs" d] d(3,4) by (auto simp: v_def)
qed

lemma append_too_long:
  assumes "string_ok s" "65535 \<le> s_len s + length bs"
  shows "stringAppend junk s (bs @ rest) (int (length bs)) = None"
proof -
  have size: "s_len s < 65536" "s_size s < 65536" "\<not> s_len s + length bs < s_size s"
    using assms by (auto elim!: string_okE simp: StringNull_def)
  define n where "n = (s_len s + length bs) mod 65536"
  show ?thesis
  proof (cases "s_len s + length bs = 65535")
    case True
    then have "stringInitBuf junk (StringNull\<lparr>s_len := 65535\<rparr>) 65536 = None"
      by (simp add: stringInitBuf_def memAllocString_def StrPoolsAttrs_def)
    with True size show ?thesis
      by (simp add: stringAppend_def Let_def)
  next
    case False
    then have bs: "bs \<noteq> []" "65536 \<le> s_len s + length bs"
      using assms(2) size(1) by auto
    show ?thesis
    proof (rule ccontr)
      assume "stringAppend junk s (bs @ rest) (int (length bs)) \<noteq> None"
      then obtain snew d d' d'' where *: "stringInitBuf junk (StringNull\<lparr>s_len := n\<rparr>) (n + 1) = Some snew" "s_buf snew = Some d"
          "(case s_buf s of Some old \<Rightarrow> mem_read old 0 (int (s_len s)) \<bind> mem_write d 0 | None \<Rightarrow> Some d) = Some d'"
          "mem_write d' (s_len s) bs = Some d''"
        using size(3) bs(1) by (simp add: stringAppend_def Let_def n_def mem_read_prefix) (auto simp: bind_eq_Some_conv)
      have "length d < 65536"
        using *(1,2) by (auto simp: stringInitBuf_def bind_eq_Some_conv)
      moreover have "length d' = length d"
        using *(3) by (auto simp: bind_eq_Some_conv split: option.splits dest: length_mem_write)
      ultimately show False
        using *(4) bs(2) by (auto simp: mem_write_def split: if_splits)
    qed
  qed
qed

lemma append_ok:
  assumes "string_ok s" "0 \<notin> set bs" "s_len s + length bs < 65535"
  shows "\<exists>s'. stringAppend junk s (bs @ rest) (int (length bs)) = Some s' \<and> string_ok s' \<and>
    string_val s' = string_val s @ bs"
  using append_in_place [OF assms(1,2)] append_moved [OF assms(1,2) _ assms(3)] by blast

lemma stringDup_ok:
  assumes "string_ok s" "s_buf s \<noteq> None" "s_len s < 65535"
  shows "\<exists>s'. stringDup junk s = Some s' \<and> string_ok s' \<and> string_val s' = string_val s"
  using assms(1)
proof (cases rule: string_okE)
  case (2 v r)
  with assms(3) stringLimitInit_ok [of v junk "0 # r"] show ?thesis
    by (simp add: stringDup_def)
qed (use assms(2) in \<open>simp add: StringNull_def\<close>)

lemma copy_out:
  assumes "length d = length v + 1"
  shows "mem_write d 0 v \<bind> (\<lambda>d. arr_set d (length v) 0 \<bind> f) = f (v @ [0])"
proof -
  obtain rest where r: "(v @ drop (length v) d)[length v := 0] = v @ 0 # rest" "length d = length v + 1 + length rest"
    using fresh_fill [of v d] assms by auto
  moreover have "rest = []"
    using r(2) assms by simp
  ultimately show ?thesis
    using assms by simp
qed

lemma stringDupToCOffset_ok:
  assumes "string_ok s" "s_buf s \<noteq> None" "offset \<le> s_len s"
  shows "stringDupToCOffset junk s (int offset) = Some (Some (drop offset (string_val s) @ [0]))"
  using assms(1)
proof (cases rule: string_okE)
  case (2 v r)
  define w where "w = drop offset v"
  define d where "d = map junk [0..<nat (int (length v) + 1 - int offset)]"
  have n: "int (length v) - int offset = int (length w)" "length d = length w + 1"
    using assms(3) 2(1) by (auto simp: w_def d_def)
  have "mem_read (v @ 0 # r) (int offset) (int (length w)) = Some w"
    using assms(3) 2(1) by (simp add: mem_read_def w_def)
  then show ?thesis
    using assms(3) 2(1) copy_out [OF n(2)]
    by (simp add: stringDupToCOffset_def Let_def d_def [symmetric] n(1) w_def [symmetric])
qed (use assms(2) in \<open>simp add: StringNull_def\<close>)

lemma strChr_loop_eq:
  "i + n \<le> length buf \<Longrightarrow> strChr_loop buf ch n i =
     Some (case strchr (take n (drop i buf)) ch of Some k \<Rightarrow> int (i + k) | None \<Rightarrow> - 1)"
proof (induction n arbitrary: i)
  case (Suc n)
  have "take (Suc n) (drop i buf) = buf ! i # take n (drop (i + 1) buf)"
    using Suc.prems by (metis Cons_nth_drop_Suc Suc_eq_plus1 add_Suc_right le_add1 le_trans not_less_eq_eq not_le take_Suc_Cons)
  with Suc show ?case
    by (auto simp: strchr_def split: option.splits)
qed (simp add: strchr_def)

lemma strChr_ok:
  assumes "string_ok s"
  shows "strChr s ch = Some (case strchr (string_val s) ch of Some k \<Rightarrow> int k | None \<Rightarrow> - 1)"
  using assms
proof (cases rule: string_okE)
  case (2 v r)
  then show ?thesis
    using strChr_loop_eq [of 0 "length v" "v @ 0 # r" ch] by (auto simp: strChr_def strchr_def)
qed (simp add: strChr_def strchr_def StringNull_def string_val_def)

lemma strCut_ok:
  assumes "string_ok s" "0 \<le> offset"
  shows "\<exists>s'. strCut s offset = Some s' \<and> string_ok s' \<and> string_val s' = take (nat offset) (string_val s)"
proof (cases "offset \<ge> int (s_len s)")
  case True
  then show ?thesis
    using assms string_ok_len [OF assms(1)] by (simp add: strCut_def)
next
  case False
  show ?thesis
    using assms(1)
  proof (cases rule: string_okE)
    case (2 v r)
    define k where "k = nat offset"
    have k: "offset = int k" "k < length v"
      using False assms(2) 2(1) by (auto simp: k_def)
    define w where "w = take k v"
    define r' where "r' = drop (k + 1) (v @ 0 # r)"
    have "(v @ 0 # r)[k := 0] = w @ 0 # r'"
      using k(2) by (simp add: w_def r'_def upd_conv_take_nth_drop)
    moreover have len: "length w = k" "length v + 1 + length r = length w + 1 + length r'"
      using k(2) by (simp_all add: w_def r'_def)
    ultimately have "strCut s offset = Some \<lparr>s_size = length w + 1 + length r', s_len = length w, s_buf = Some (w @ 0 # r')\<rparr>"
      using False 2(1) k by (simp add: strCut_def)
    moreover have "0 \<notin> set w"
      using 2(4) by (auto simp: w_def dest: in_set_takeD)
    moreover have "take (nat offset) (string_val s) = w"
      using 2(1) k by (simp add: w_def)
    ultimately show ?thesis
      using string_ok_Some [of w r'] 2(2,3) unfolding len(2) by simp
  qed (use False assms(2) in \<open>simp add: StringNull_def\<close>)
qed

section \<open>Properties\<close>

text \<open>C20.
  Appending refines concatenation: on a well-formed string and bytes without a terminator it fails
  exactly when the result would not fit the 16-bit sizes, and otherwise gives a well-formed string
  whose value is the concatenation, in the old buffer or in a new one.
\<close>

theorem stringAppend_refines:
  assumes "string_ok s" "0 \<notin> set bs"
  shows "case stringAppend junk s (bs @ rest) (int (length bs)) of
      None \<Rightarrow> 65535 \<le> length (string_val s) + length bs
    | Some s' \<Rightarrow> length (string_val s) + length bs < 65535 \<and> string_ok s' \<and> string_val s' = string_val s @ bs"
proof (cases "s_len s + length bs < 65535")
  case True
  with append_ok [OF assms, of junk rest] string_ok_len [OF assms(1)] show ?thesis
    by auto
next
  case False
  with append_too_long [OF assms(1), of bs junk rest] string_ok_len [OF assms(1)] show ?thesis
    by simp
qed

theorem stringAppend_refines_witness:
  "\<exists>s'. stringAppend (\<lambda>_. 7) StringNull ([97, 98] @ [0]) (int (length [97 :: byte, 98])) = Some s' \<and> string_val s' = [97, 98]"
  using stringAppend_refines [of StringNull "[97, 98]" "\<lambda>_. 7" "[0]"] by (auto split: option.splits)

text \<open>
  A string made from bytes without a terminator, duplicated, cut and copied out to C memory gives
  the prefix of the bytes up to the cut with a terminator; no step fails.
\<close>

lemma string_copy_roundtrip:
  assumes "length v < 65535" "0 \<notin> set v" "0 \<le> offset"
  shows "\<exists>s s' s''. stringInit junk (Some v) = Some s \<and> stringDup junk s = Some s' \<and> strCut s' offset = Some s'' \<and>
    stringDupToC junk s'' = Some (Some (take (nat offset) v @ [0])) \<and>
    stringClean s = Some StringNull \<and> stringClean s'' = Some StringNull"
proof -
  obtain s where s: "stringInit junk (Some v) = Some s" "string_ok s" "string_val s = v"
    using stringLimitInit_ok [OF assms(1,2), of junk "[]"] by (auto simp: stringInit_def)
  have "s_buf s \<noteq> None"
    using s(1) by (auto simp: stringInit_def stringLimitInit_def bind_eq_Some_conv)
  then obtain s' where s': "stringDup junk s = Some s'" "string_ok s'" "string_val s' = v"
    using stringDup_ok [OF s(2), of junk] string_ok_len [OF s(2)] assms(1) s(3) by auto
  then obtain s'' where s'': "strCut s' offset = Some s''" "string_ok s''" "string_val s'' = take (nat offset) v"
    using strCut_ok [OF s'(2) assms(3)] by auto
  have "s_buf s' \<noteq> None"
    using s'(1) by (auto simp: stringDup_def stringLimitInit_def bind_eq_Some_conv)
  then have "s_buf s'' \<noteq> None"
    using s''(1) by (auto simp: strCut_def bind_eq_Some_conv split: if_splits)
  then have "stringDupToC junk s'' = Some (Some (take (nat offset) v @ [0]))"
    using stringDupToCOffset_ok [OF s''(2), of 0 junk] s''(3) by (simp add: stringDupToC_def)
  with s s' s'' show ?thesis
    by (auto simp: stringClean_ok)
qed

text \<open>
  The copy of a range writes its terminator one byte behind the memory it allocated, whenever it
  copies at all; the search from the right finds nothing in a string of two or more bytes, and
  leaves the buffer for a single byte that differs.
\<close>

lemma stringDupToCRange_overflow: "stringDupToCRange junk s i j \<noteq> Some (Some d)"
proof
  assume "stringDupToCRange junk s i j = Some (Some d)"
  then obtain buf bs d' where *: "\<not> j < i" "mem_write (map junk [0..<nat (j + 1 - i)]) 0 bs = Some d'"
      "arr_setz d' (j - i + 1) 0 = Some d"
    by (auto simp: stringDupToCRange_def bind_eq_Some_conv Let_def split: option.splits if_splits)
  have "length d' = nat (j + 1 - i)"
    using length_mem_write [OF *(2)] by simp
  then show False
    using *(1,3) by (auto simp: arr_setz_def arr_set_def split: if_splits)
qed

lemma strRChr_blind: "2 \<le> s_len s \<Longrightarrow> strRChr s ch = Some (- 1)"
  by (simp add: strRChr_def Let_def)

lemma strRChr_overrun: "s_len s = 1 \<Longrightarrow> s_buf s = Some buf \<Longrightarrow> buf ! 0 \<noteq> ch \<Longrightarrow> strRChr s ch = None"
  by (cases "arr_get buf 0") (auto simp: strRChr_def Let_def arr_getz_def arr_get_eq_Some_iff)

text \<open>Concrete strings, for examples.\<close>

definition ex_string :: "byte list \<Rightarrow> String" where
  "ex_string v = \<lparr>s_size = length v + 1 + (35 - length v), s_len = length v, s_buf = Some (v @ 0 # replicate (35 - length v) 0)\<rparr>"

lemma ex_string_ok:
  assumes "length v \<le> 35" "0 \<notin> set v"
  shows "string_ok (ex_string v)" "string_val (ex_string v) = v" "s_buf (ex_string v) \<noteq> None"
  using assms string_ok_Some [of v "replicate (35 - length v) 0"]
  by (simp_all add: ex_string_def pool_size_def StrPoolsAttrs_def)

section \<open>The interface\<close>

text \<open>
  What the users of strings rely on: a value, and an operation that appends to it as long as the
  result stays below a limit. They append several pieces in a row.
\<close>

locale counted_string =
  fixes ok :: "'s \<Rightarrow> bool" and val :: "'s \<Rightarrow> byte list" and app :: "'s \<Rightarrow> byte list \<Rightarrow> 's option"
    and limit :: nat
  assumes app_ok: "ok s \<Longrightarrow> 0 \<notin> set bs \<Longrightarrow> length (val s) + length bs < limit \<Longrightarrow>
      \<exists>s'. app s bs = Some s' \<and> ok s' \<and> val s' = val s @ bs"
begin

lemma app_two:
  assumes "ok s" "0 \<notin> set a" "0 \<notin> set b" "length (val s) + length a + length b < limit"
  shows "\<exists>s'. (app s a \<bind> (\<lambda>s. app s b)) = Some s' \<and> ok s' \<and> val s' = val s @ a @ b"
proof -
  obtain s1 where "app s a = Some s1" "ok s1" "val s1 = val s @ a"
    using app_ok [of s a] assms by auto
  with app_ok [of s1 b] assms(3,4) show ?thesis
    by auto
qed

end

interpretation ls: counted_string string_ok string_val
  "\<lambda>s bs. stringAppend junk s bs (int (length bs))" 65535
  for junk
proof
  fix s :: String and bs :: "byte list"
  assume "string_ok s" "0 \<notin> set bs" "length (string_val s) + length bs < 65535"
  then show "\<exists>s'. stringAppend junk s bs (int (length bs)) = Some s' \<and> string_ok s' \<and> string_val s' = string_val s @ bs"
    using append_ok [of s bs junk "[]"] string_ok_len [of s] by simp
qed

end
