(* ===== verification/Str_List.thy ===== *)
theory Str_List
  imports Lusca_String
begin

text \<open>
  Lists inside strings (\<^verbatim>\<open>libmem/StrList.c\<close>): items separated by a delimiter, with white space and
  double quotes, as in the values of HTTP header fields. A position in the string is an index
  into its buffer, \<open>NULL\<close> is \<open>None\<close>.
\<close>

section \<open>The next item\<close>

text \<open>
  The loop that looks for the end of an item, from a position and with the flag \<open>quoted\<close>. The
  characters are the double quote (34), the backslash (92) and the comma (44), which stays in the
  set of stop characters whatever the delimiter is.
\<close>

partial_function (option) item_end :: "byte list \<Rightarrow> byte \<Rightarrow> bool \<Rightarrow> nat \<Rightarrow> nat option" where
  "item_end s del quoted pos = do {
     let pos = pos + strcspn (drop pos s) (if quoted then [34, 92] else [34, del, 44]);
     c \<leftarrow> cs_at s pos;
     if c = del then Some pos
     else do {
       let quoted = (if c = 34 then \<not> quoted else quoted);
       let pos = (if c = 34 then pos + 1 else pos);
       c \<leftarrow> cs_at s pos;
       pos \<leftarrow> (if quoted \<and> c = 92 then do {
                  c \<leftarrow> cs_at s (pos + 1);
                  Some (if c \<noteq> 0 then pos + 2 else pos + 1)
                }
                else Some pos);
       c \<leftarrow> cs_at s pos;
       if c \<noteq> 0 then item_end s del quoted pos else Some pos
     }
   }"

text \<open>White space at the end of an item does not count.\<close>

definition rtrim :: "byte list \<Rightarrow> byte list" where
  "rtrim bs = rev (dropWhile isspace (rev bs))"

text \<open>The result is whether there is an item, its position and length, and the new position.\<close>

definition strListGetItem :: "String \<Rightarrow> byte \<Rightarrow> nat option \<Rightarrow> (bool \<times> nat \<times> nat \<times> nat option) option" where
  "strListGetItem str del pos =
     (if pos = None \<and> s_buf str = None then Some (False, 0, 0, None)
      else do {
        buf \<leftarrow> s_buf str;
        s \<leftarrow> c_str buf;
        let pos = (case pos of None \<Rightarrow> 0 | Some pos \<Rightarrow> pos);
        c_assert (pos \<le> length s);
        let pos = pos + strspn (drop pos s) [32, del, 44, 9, 13, 10];
        let item = pos;
        pos \<leftarrow> item_end s del False pos;
        let len = length (rtrim (take (pos - item) (drop item s)));
        Some (len > 0, item, len, Some pos)
      })"

section \<open>Lists\<close>

partial_function (option) strListIsMember_loop :: "String \<Rightarrow> byte list \<Rightarrow> byte \<Rightarrow> nat option \<Rightarrow> bool option" where
  "strListIsMember_loop list m del pos = do {
     (found, item, ilen, pos) \<leftarrow> strListGetItem list del pos;
     if found then do {
       buf \<leftarrow> s_buf list;
       s \<leftarrow> c_str buf;
       if length m = ilen \<and> strncasecmp_eq (drop item s) m ilen then Some True
       else strListIsMember_loop list m del pos
     }
     else Some False
   }"

definition strListIsMember :: "String \<Rightarrow> byte list \<Rightarrow> byte \<Rightarrow> bool option" where
  "strListIsMember list m del = strListIsMember_loop list m del None"

definition strIsSubstr :: "String \<Rightarrow> byte list \<Rightarrow> nat option" where
  "strIsSubstr list s = do {
     buf \<leftarrow> s_buf list;
     cs \<leftarrow> c_str buf;
     case strstr cs s of
       None \<Rightarrow> Some 0
     | Some p \<Rightarrow> do {
         c_assert (p + 1 \<le> length cs);
         Some (if strstr (drop (p + 1) cs) s \<noteq> None then 2 else 1)
       }
   }"

definition strListAddStr :: "junk \<Rightarrow> String \<Rightarrow> byte list \<Rightarrow> int \<Rightarrow> byte \<Rightarrow> String option" where
  "strListAddStr junk str item len del = do {
     str \<leftarrow> (if s_len str \<noteq> 0 then stringAppend junk str [del, 32, 0] 2 else Some str);
     stringAppend junk str item len
   }"

definition strListAdd :: "junk \<Rightarrow> String \<Rightarrow> byte list \<Rightarrow> byte \<Rightarrow> String option" where
  "strListAdd junk str item del = strListAddStr junk str (item @ [0]) (int (length item)) del"

definition strListAddUnique :: "junk \<Rightarrow> String \<Rightarrow> byte list \<Rightarrow> byte \<Rightarrow> String option" where
  "strListAddUnique junk str item del = do {
     b \<leftarrow> strListIsMember str item del;
     if b then Some str else strListAdd junk str item del
   }"

text \<open>The loop of the callers: all the items that the calls report, in order.\<close>

partial_function (option) strListItems :: "String \<Rightarrow> byte \<Rightarrow> nat option \<Rightarrow> (nat \<times> nat) list option" where
  "strListItems str del pos = do {
     (found, item, ilen, pos) \<leftarrow> strListGetItem str del pos;
     if found then do { its \<leftarrow> strListItems str del pos; Some ((item, ilen) # its) }
     else Some []
   }"

section \<open>What an item is\<close>

text \<open>The length of an item: up to the delimiter, except inside quotes.\<close>

fun item_len :: "byte \<Rightarrow> bool \<Rightarrow> byte list \<Rightarrow> nat" where
  "item_len del q [] = 0"
| "item_len del False (c # s) = (if c = del then 0 else Suc (item_len del (c = 34) s))"
| "item_len del True (c # s) =
     (if c = 34 then Suc (item_len del False s)
      else if c = 92 then (case s of [] \<Rightarrow> 1 | d # s' \<Rightarrow> Suc (Suc (item_len del True s')))
      else Suc (item_len del True s))"

definition sep :: "byte \<Rightarrow> bool" where
  "sep c \<longleftrightarrow> c \<in> set [32, 44, 44, 9, 13, 10]"

lemma item_len_le: "item_len del q s \<le> length s"
  by (induction del q s rule: item_len.induct) (auto split: list.splits)

lemma item_len_skip:
  assumes "\<forall>c\<in>set a. c \<notin> set (if q then [34, 92] else [34, del])"
  shows "item_len del q (a @ s) = length a + item_len del q s"
  using assms by (induction a) (cases q; auto)+

lemma strcspn_split:
  obtains a b where "s = a @ b" "strcspn s r = length a" "\<forall>c\<in>set a. c \<notin> set r" "b = [] \<or> hd b \<in> set r"
proof
  show "s = takeWhile (\<lambda>c. c \<notin> set r) s @ dropWhile (\<lambda>c. c \<notin> set r) s"
    by simp
  show "strcspn s r = length (takeWhile (\<lambda>c. c \<notin> set r) s)"
    by (simp add: strcspn_def)
  show "\<forall>c\<in>set (takeWhile (\<lambda>c. c \<notin> set r) s). c \<notin> set r"
    by (auto dest: set_takeWhileD)
  show "dropWhile (\<lambda>c. c \<notin> set r) s = [] \<or> hd (dropWhile (\<lambda>c. c \<notin> set r) s) \<in> set r"
    using hd_dropWhile [of "\<lambda>c. c \<notin> set r" s] by auto
qed

text \<open>The second half of a pass of the loop, once \<open>quoted\<close> is updated.\<close>

definition item_tail :: "byte list \<Rightarrow> byte \<Rightarrow> bool \<Rightarrow> nat \<Rightarrow> nat option" where
  "item_tail s del quoted pos = do {
     c \<leftarrow> cs_at s pos;
     pos \<leftarrow> (if quoted \<and> c = 92 then do {
                c \<leftarrow> cs_at s (pos + 1);
                Some (if c \<noteq> 0 then pos + 2 else pos + 1)
              }
              else Some pos);
     c \<leftarrow> cs_at s pos;
     if c \<noteq> 0 then item_end s del quoted pos else Some pos
   }"

lemma item_end_unfold:
  "item_end s del quoted pos = do {
     let pos = pos + strcspn (drop pos s) (if quoted then [34, 92] else [34, del, 44]);
     c \<leftarrow> cs_at s pos;
     if c = del then Some pos
     else if c = 34 then item_tail s del (\<not> quoted) (pos + 1) else item_tail s del quoted pos
   }"
  unfolding item_end.simps [of s del quoted pos] Let_def item_tail_def
  by (cases "cs_at s (pos + strcspn (drop pos s) (if quoted then [34, 92] else [34, del, 44]))") simp_all

lemma drop_nth_Cons: "k < length s \<Longrightarrow> drop k s = s ! k # drop (Suc k) s"
  by (rule Cons_nth_drop_Suc [symmetric])

lemma item_tail_eq:
  assumes "k \<le> length s" "0 \<notin> set s" "pos < k \<or> q \<and> pos \<le> k \<and> k < length s \<and> s ! k = 92"
    and IH: "\<And>k'. pos < k' \<Longrightarrow> k' \<le> length s \<Longrightarrow> item_end s 44 q k' = Some (k' + item_len 44 q (drop k' s))"
  shows "item_tail s 44 q k = Some (k + item_len 44 q (drop k s))"
proof -
  have nz: "s ! i \<noteq> 0" if "i < length s" for i
    using that assms(2) by (metis nth_mem)
  have fin: "(cs_at s k' \<bind> (\<lambda>c. if c \<noteq> 0 then item_end s 44 q k' else Some k')) = Some (k' + item_len 44 q (drop k' s))"
    if "pos < k'" "k' \<le> length s" for k'
    using that IH [of k'] nz [of k'] by (cases "k' = length s") simp_all
  consider (esc) "q" "k < length s" "s ! k = 92" | (plain) "\<not> (q \<and> cs_at s k = Some 92)" "pos < k"
    using assms(1,3) by (cases "k = length s") auto
  then show ?thesis
  proof cases
    case esc
    show ?thesis
    proof (cases "k + 1 < length s")
      case True
      have "item_tail s 44 q k = (cs_at s (k + 2) \<bind> (\<lambda>c. if c \<noteq> 0 then item_end s 44 q (k + 2) else Some (k + 2)))"
        using esc True nz [of "k + 1"] by (simp add: item_tail_def del: add_2_eq_Suc' cong: if_cong)
      also have "\<dots> = Some (k + 2 + item_len 44 q (drop (k + 2) s))"
        using fin [of "k + 2"] True assms(3) by auto
      also have "k + 2 + item_len 44 q (drop (k + 2) s) = k + item_len 44 q (drop k s)"
        using esc True by (simp add: drop_nth_Cons)
      finally show ?thesis .
    next
      case False
      then have "k + 1 = length s"
        using esc(2) by simp
      then show ?thesis
        using esc by (simp add: item_tail_def drop_nth_Cons)
    qed
  next
    case plain
    then have "item_tail s 44 q k = (cs_at s k \<bind> (\<lambda>c. if c \<noteq> 0 then item_end s 44 q k else Some k))"
      using assms(1) by (cases "k = length s") (auto simp: item_tail_def)
    then show ?thesis
      using fin [OF plain(2) assms(1)] by simp
  qed
qed

text \<open>For the comma as delimiter, the loop ends, at the end of the item.\<close>

lemma item_end_eq:
  assumes "pos \<le> length s" "0 \<notin> set s"
  shows "item_end s 44 q pos = Some (pos + item_len 44 q (drop pos s))"
  using assms(1)
proof (induction "length s - pos" arbitrary: pos q rule: less_induct)
  case less
  obtain a b where ab: "drop pos s = a @ b" "strcspn (drop pos s) (if q then [34, 92] else [34, 44, 44]) = length a"
      "\<forall>c\<in>set a. c \<notin> set (if q then [34, 92] else [34, 44, 44])" "b = [] \<or> hd b \<in> set (if q then [34, 92] else [34, 44, 44])"
    by (rule strcspn_split)
  define p where "p = pos + length a"
  have p: "p \<le> length s" "drop p s = b" "pos \<le> p"
  proof -
    have "length s - pos = length a + length b"
      using arg_cong [OF ab(1), of length] by simp
    then show "p \<le> length s" "pos \<le> p"
      using less.prems by (simp_all add: p_def)
    have "drop p s = drop (length a) (drop pos s)"
      by (simp add: p_def add.commute)
    then show "drop p s = b"
      using ab(1) by simp
  qed
  have len: "pos + item_len 44 q (drop pos s) = p + item_len 44 q b"
    using ab(1,3) by (auto simp: item_len_skip p_def split: if_splits)
  have unf: "item_end s 44 q pos = (cs_at s p \<bind> (\<lambda>c. if c = 44 then Some p
      else if c = 34 then item_tail s 44 (\<not> q) (p + 1) else item_tail s 44 q p))"
    by (subst item_end_unfold) (simp only: Let_def ab(2) p_def)
  have tail: "item_tail s 44 q' k = Some (k + item_len 44 q' (drop k s))"
    if "k \<le> length s" "pos < k \<or> q' \<and> pos \<le> k \<and> k < length s \<and> s ! k = 92" for q' k
    using that by (intro item_tail_eq [where pos = pos] assms(2) less.hyps) auto
  show ?case
  proof (cases b)
    case Nil
    then have "p = length s"
      using p(1,2) by simp
    moreover have "item_tail s 44 q p = Some p" if "p = length s"
      using that by (simp add: item_tail_def)
    ultimately show ?thesis
      using Nil unf len by simp
  next
    case (Cons c t)
    then have c: "p < length s" "s ! p = c" "drop (Suc p) s = t" "c \<in> set (if q then [34, 92] else [34, 44, 44])"
      using drop_Cons_nth [of p s c t] p(2) ab(4) by auto
    have "c = 44 \<Longrightarrow> item_len 44 q b = 0" "c = 34 \<Longrightarrow> item_len 44 q b = Suc (item_len 44 (\<not> q) t)"
      using Cons c(4) by (cases q; simp)+
    moreover have "item_tail s 44 (\<not> q) (p + 1) = Some (p + 1 + item_len 44 (\<not> q) t)"
      using tail [of "p + 1"] c(1,3) p(3) by simp
    moreover have "item_tail s 44 q p = Some (p + item_len 44 q b)" if "c \<noteq> 44" "c \<noteq> 34"
      using tail [of p q] c(1,2,4) p that by (cases q) auto
    ultimately show ?thesis
      using unf len c(1,2) by simp
  qed
qed

text \<open>
  For another delimiter, a comma outside quotes before the next delimiter or quote is a position
  where the loop makes no progress.
\<close>

lemma strcspn_comma:
  "c \<notin> set a \<Longrightarrow> d \<notin> set a \<Longrightarrow> e \<notin> set a \<Longrightarrow> strcspn (a @ e # b) [c, d, e] = length a"
proof -
  assume "c \<notin> set a" "d \<notin> set a" "e \<notin> set a"
  then have "takeWhile (\<lambda>x. x \<notin> set [c, d, e]) (a @ e # b) = a"
    by (subst takeWhile_append2) auto
  then show ?thesis
    by (simp only: strcspn_def)
qed

lemma item_end_stuck:
  assumes "34 \<notin> set a" "del \<notin> set a" "44 \<notin> set a" "del \<noteq> 44" "pos \<le> length a"
  shows "item_end (a @ 44 # b) del False pos = None"
proof (rule ccontr)
  assume "item_end (a @ 44 # b) del False pos \<noteq> None"
  then obtain y where "item_end (a @ 44 # b) del False pos = Some y"
    by blast
  moreover have "s = a @ 44 # b \<longrightarrow> d = del \<longrightarrow> \<not> q \<longrightarrow> p \<le> length a \<longrightarrow> False"
    if "item_end s d q p = Some y" for s d q p y
  proof (rule item_end.raw_induct [where P = "\<lambda>s d q p y. s = a @ 44 # b \<longrightarrow> d = del \<longrightarrow> \<not> q \<longrightarrow> p \<le> length a \<longrightarrow> False" and y = y],
      goal_cases)
    case (1 f s d q p y)
    show ?case
    proof (intro impI)
      assume *: "s = a @ 44 # b" "d = del" "\<not> q" "p \<le> length a"
      have "strcspn (drop p s) [34, del, 44] = length a - p"
        using strcspn_comma [of 34 "drop p a" del 44 b] assms(1-3) *(1,4) by (auto dest: in_set_dropD)
      then have "p + strcspn (drop p s) (if q then [34, 92] else [34, d, 44]) = length a"
        using * by simp
      then have "f s del False (length a) = Some y"
        using 1(2) * assms(4) by (simp add: Let_def)
      then show False
        using 1(1) *(1) by blast
    qed
  qed (rule that)
  ultimately show False
    using assms(5) by blast
qed

section \<open>The items of a list\<close>

lemma rtrim_Nil [simp]: "rtrim [] = []"
  by (simp add: rtrim_def)

text \<open>The items of a string, without the white space around them, up to the first empty one.\<close>

function list_items :: "byte list \<Rightarrow> byte list list" where
  "list_items s =
     (let t = dropWhile sep s; n = item_len 44 False t; item = rtrim (take n t)
      in if item = [] then [] else item # list_items (drop n t))"
  by auto
termination
proof (relation "measure length")
  fix s t n and item :: "byte list"
  assume *: "t = dropWhile sep s" "n = item_len 44 False t" "item = rtrim (take n t)" "item \<noteq> []"
  have "length t \<le> length s"
    by (simp add: *(1) length_dropWhile_le)
  moreover have "take n t \<noteq> []"
    using *(3,4) by (metis rtrim_Nil)
  ultimately show "(drop n t, s) \<in> measure length"
    by (cases n; cases t) auto
qed simp

declare list_items.simps [simp del]

lemma strspn_sep: "strspn s [32, 44, 44, 9, 13, 10] = length (takeWhile sep s)"
proof -
  have "sep = (\<lambda>c. c \<in> set [32, 44, 44, 9, 13, 10])"
    by (simp add: sep_def fun_eq_iff)
  then show ?thesis
    by (simp only: strspn_def)
qed

lemma drop_takeWhile: "drop (length (takeWhile P s)) s = dropWhile P s"
  by (metis append_eq_conv_conj takeWhile_dropWhile_id)

lemma strListGetItem_eq:
  assumes "string_ok str" "s_buf str \<noteq> None" "pos \<le> s_len str" "pos = (case p of None \<Rightarrow> 0 | Some p \<Rightarrow> p)"
  defines "t \<equiv> dropWhile sep (drop pos (string_val str))"
  defines "item \<equiv> s_len str - length t" and "n \<equiv> item_len 44 False t"
  shows "strListGetItem str 44 p = Some (rtrim (take n t) \<noteq> [], item, length (rtrim (take n t)), Some (item + n))"
    "item + n \<le> s_len str" "drop item (string_val str) = t"
proof -
  define s where "s = string_val str"
  have s: "length s = s_len str" "0 \<notin> set s"
    using string_ok_len [OF assms(1)] by (simp_all add: s_def)
  obtain buf where buf: "s_buf str = Some buf" "c_str buf = Some s"
    using assms(1,2) by (cases rule: string_okE) (auto simp: StringNull_def s_def)
  have t: "t = drop (length (takeWhile sep (drop pos s))) (drop pos s)"
    unfolding t_def s_def drop_takeWhile ..
  have le: "pos + length (takeWhile sep (drop pos s)) \<le> length s"
    using length_takeWhile_le [of sep "drop pos s"] assms(3) s(1) by simp
  have item: "pos + length (takeWhile sep (drop pos s)) = item" "drop item s = t" "item \<le> length s"
    using le s(1) by (simp_all add: item_def t add.commute)
  then show "drop item (string_val str) = t"
    by (simp add: s_def)
  have "length t = length s - item"
    using item(2) by auto
  then show n: "item + n \<le> s_len str"
    using item_len_le [of 44 False t] item(3) s(1) by (simp add: n_def)
  have "item_end s 44 False item = Some (item + n)"
    using item_end_eq [OF item(3) s(2), of False] item(2) by (simp add: n_def)
  then show "strListGetItem str 44 p = Some (rtrim (take n t) \<noteq> [], item, length (rtrim (take n t)), Some (item + n))"
    using assms(3,4) buf s(1) item by (simp add: strListGetItem_def Let_def strspn_sep)
qed

lemma strListItems_eq:
  assumes "string_ok str" "s_buf str \<noteq> None" "pos \<le> s_len str" "pos = (case p of None \<Rightarrow> 0 | Some p \<Rightarrow> p)"
  shows "\<exists>its. strListItems str 44 p = Some its \<and>
    map (\<lambda>(item, ilen). take ilen (drop item (string_val str))) its = list_items (drop pos (string_val str)) \<and>
    (\<forall>(item, ilen)\<in>set its. item + ilen \<le> s_len str)"
  using assms(3,4)
proof (induction "s_len str - pos" arbitrary: pos p rule: less_induct)
  case less
  define t where "t = dropWhile sep (drop pos (string_val str))"
  define item where "item = s_len str - length t"
  define n where "n = item_len 44 False t"
  define it where "it = rtrim (take n t)"
  note g = strListGetItem_eq [OF assms(1,2) less.prems, folded t_def, folded item_def n_def, folded it_def]
  have pre: "take (length it) t = it" "length it \<le> n"
  proof -
    have "takeWhile isspace (rev (take n t)) @ dropWhile isspace (rev (take n t)) = rev (take n t)"
      by simp
    then have "it @ rev (takeWhile isspace (rev (take n t))) = take n t"
      unfolding it_def rtrim_def by (metis rev_append rev_rev_ident)
    then obtain z where z: "take n t = it @ z"
      by metis
    then show "take (length it) t = it"
      by (metis append_eq_conv_conj append_take_drop_id take_append append.assoc diff_self_eq_0 take_0 append_Nil2 append_take_drop_id length_take min.absorb2 nat_le_linear take_all take_take)
    show "length it \<le> n"
      using arg_cong [OF z, of length] by simp
  qed
  have ref: "list_items (drop pos (string_val str)) = (if it = [] then [] else it # list_items (drop n t))"
    by (subst list_items.simps) (simp add: t_def [symmetric] n_def [symmetric] it_def [symmetric] Let_def)
  show ?case
  proof (cases "it = []")
    case True
    then show ?thesis
      using ref g(1) by (subst strListItems.simps) simp
  next
    case False
    have "length t \<le> s_len str - pos"
      using string_ok_len [OF assms(1)] length_dropWhile_le [of sep "drop pos (string_val str)"] by (simp add: t_def)
    moreover have "0 < n"
      using False by (cases n) (simp_all add: it_def)
    ultimately have "s_len str - (item + n) < s_len str - pos"
      using g(2) less.prems(1) by (simp add: item_def)
    then obtain its where its: "strListItems str 44 (Some (item + n)) = Some its"
        "map (\<lambda>(item, ilen). take ilen (drop item (string_val str))) its = list_items (drop (item + n) (string_val str))"
        "\<forall>(item, ilen)\<in>set its. item + ilen \<le> s_len str"
      using less.hyps [of "item + n" "Some (item + n)"] g(2) by auto
    have "drop (item + n) (string_val str) = drop n t"
      using g(3) by (metis add.commute drop_drop)
    with its False ref g pre show ?thesis
      by (subst strListItems.simps) simp
  qed
qed

lemma strListIsMember_loop_eq:
  assumes "strListItems str del p = Some its" "s_buf str = Some buf" "c_str buf = Some s"
  shows "strListIsMember_loop str m del p =
    Some (\<exists>(item, ilen)\<in>set its. length m = ilen \<and> strncasecmp_eq (drop item s) m ilen)"
  using assms(1)
proof (induction its arbitrary: p)
  case Nil
  then obtain it il q where "strListGetItem str del p = Some (False, it, il, q)"
    by (subst (asm) strListItems.simps) (auto simp: bind_eq_Some_conv split: if_splits prod.splits)
  then show ?case
    by (subst strListIsMember_loop.simps) simp
next
  case (Cons x its)
  then obtain it il q where "strListGetItem str del p = Some (True, it, il, q)" "x = (it, il)" "strListItems str del q = Some its"
    by (subst (asm) (2) strListItems.simps) (auto simp: bind_eq_Some_conv split: if_splits prod.splits)
  with Cons.IH assms(2,3) show ?case
    by (subst strListIsMember_loop.simps) auto
qed

section \<open>Adding an item\<close>

text \<open>
  Strings for which items are easy to see: without quotes, and without the two white space
  characters (vertical tab and form feed) that are trimmed but do not separate.
\<close>

definition plain :: "byte list \<Rightarrow> bool" where
  "plain s \<longleftrightarrow> (\<forall>c\<in>set s. c \<noteq> 34 \<and> c \<noteq> 11 \<and> c \<noteq> 12 \<and> c \<noteq> 0)"

definition plain_item :: "byte list \<Rightarrow> bool" where
  "plain_item s \<longleftrightarrow> plain s \<and> s \<noteq> [] \<and> 44 \<notin> set s \<and> \<not> sep (hd s) \<and> \<not> sep (last s)"

lemma isspace_sep: "isspace c \<Longrightarrow> c \<noteq> 11 \<Longrightarrow> c \<noteq> 12 \<Longrightarrow> sep c"
proof -
  assume *: "isspace c" "c \<noteq> 11" "c \<noteq> 12"
  have "unat c \<in> {9, 10, 11, 12, 13, 32}" if "isspace c"
    using that by (auto simp: isspace_def word_le_nat_alt)
  with * show "sep c"
    by (auto simp: sep_def word_unat_eq_iff)
qed

lemma item_len_plain:
  "plain s \<Longrightarrow> item_len 44 False (s @ w) = length (takeWhile (\<lambda>c. c \<noteq> 44) s) + (if 44 \<in> set s then 0 else item_len 44 False w)"
  by (induction s) (auto simp: plain_def)

lemma rtrim_ne: "c \<in> set s \<Longrightarrow> \<not> isspace c \<Longrightarrow> rtrim s \<noteq> []"
  by (auto simp: rtrim_def)

lemma list_items_sep: "list_items (44 # w) = list_items w"
  by (subst (1 2) list_items.simps) (simp add: sep_def)

lemma list_items_split:
  "plain v \<Longrightarrow> list_items (v @ 44 # w) = list_items v @ list_items w"
proof (induction v rule: list_items.induct)
  case (1 v)
  define t where "t = dropWhile sep v"
  define n where "n = item_len 44 False t"
  have pt: "plain t"
    using 1(2) by (auto simp: plain_def t_def dest: set_dropWhileD)
  show ?case
  proof (cases t)
    case Nil
    then have d: "dropWhile sep v = []"
      using t_def by simp
    then have "dropWhile sep (v @ 44 # w) = dropWhile sep w"
      by (simp add: dropWhile_append dropWhile_eq_Nil_conv sep_def)
    moreover have "list_items v = []"
      by (simp add: list_items.simps [of v] d)
    ultimately show ?thesis
      by (simp add: list_items.simps [of "v @ 44 # w"] list_items.simps [of w])
  next
    case (Cons c t')
    then have c: "\<not> sep c" "\<not> isspace c" "c \<noteq> 44"
      using hd_dropWhile [of sep v] pt isspace_sep [of c] by (auto simp: t_def plain_def sep_def)
    have n: "item_len 44 False (t @ 44 # w) = n" "n \<le> length t"
      using item_len_plain [OF pt, of "44 # w"] item_len_plain [OF pt, of "[]"] item_len_le [of 44 False t] by (simp_all add: n_def)
    have "0 < n"
      using Cons c(3) by (simp add: n_def)
    then have "c \<in> set (take n t)"
      using Cons by (cases n) auto
    then have it: "rtrim (take n t) \<noteq> []"
      using c(2) by (rule rtrim_ne)
    have "dropWhile sep (v @ 44 # w) = t @ 44 # w"
      using Cons c(1) set_dropWhileD [of c sep v] by (simp add: t_def dropWhile_append1 [of c v])
    moreover have "list_items (drop n t @ 44 # w) = list_items (drop n t) @ list_items w"
      using it pt by (intro 1(1) [OF t_def n_def refl]) (auto simp: plain_def dest: in_set_dropD)
    ultimately show ?thesis
      using n it by (simp add: list_items.simps [of "v @ 44 # w"] list_items.simps [of v] t_def [symmetric] n_def [symmetric])
  qed
qed

lemma plain_item_trim:
  assumes "plain_item s"
  shows "dropWhile sep (s @ w) = s @ w" "rtrim s = s" "takeWhile (\<lambda>c. c \<noteq> 44) s = s"
proof -
  show "dropWhile sep (s @ w) = s @ w"
    using assms by (cases s) (simp_all add: plain_item_def)
  have "\<not> isspace (last s)"
    using assms isspace_sep [of "last s"] by (auto simp: plain_item_def plain_def dest: last_in_set)
  then show "rtrim s = s"
    using assms by (cases s rule: rev_cases) (auto simp: rtrim_def plain_item_def)
  show "takeWhile (\<lambda>c. c \<noteq> 44) s = s"
    using assms by (auto simp: plain_item_def takeWhile_eq_all_conv)
qed

lemma plain_item_len:
  assumes "plain_item s" "w = [] \<or> hd w = 44"
  shows "item_len 44 False (s @ w) = length s"
  using item_len_plain [of s w] assms plain_item_trim(3) [OF assms(1)]
  by (cases w) (auto simp: plain_item_def)

lemma list_items_single:
  assumes "plain_item s"
  shows "list_items (32 # s) = [s]" "list_items s = [s]"
proof -
  note d = plain_item_trim(1) [OF assms, of "[]", simplified] and r = plain_item_trim(2) [OF assms]
  have d': "dropWhile sep (32 # s) = s"
    using d by (simp add: sep_def)
  have n: "item_len 44 False s = length s"
    using plain_item_len [OF assms, of "[]"] by simp
  have e: "list_items [] = []"
    by (simp add: list_items.simps)
  show "list_items (32 # s) = [s]" "list_items s = [s]"
    using assms by (simp_all add: list_items.simps [of s] list_items.simps [of "32 # s"] d d' n r e plain_item_def del: dropWhile.simps)
qed

lemma list_items_add:
  assumes "plain v" "plain_item item"
  shows "list_items (if v = [] then item else v @ [44, 32] @ item) = list_items v @ [item]"
  using list_items_split [OF assms(1), of "32 # item"] list_items_single [OF assms(2)]
  by (simp add: list_items.simps [of "[]"])

section \<open>Properties\<close>

text \<open>C32.
  Iterating over a comma-separated list always ends: the positions and lengths reported are inside
  the string and are exactly its items, and \<open>strListIsMember\<close> is membership up to case.
\<close>

theorem strList_iteration:
  assumes "string_ok str" "s_buf str \<noteq> None"
  shows "\<exists>its. strListItems str 44 None = Some its \<and> (\<forall>(item, ilen)\<in>set its. item + ilen \<le> s_len str) \<and>
    map (\<lambda>(item, ilen). take ilen (drop item (string_val str))) its = list_items (string_val str) \<and>
    strListIsMember str m 44 = Some (map tolower m \<in> map tolower ` set (list_items (string_val str)))"
proof -
  obtain its where its: "strListItems str 44 None = Some its" "\<forall>(item, ilen)\<in>set its. item + ilen \<le> s_len str"
      "map (\<lambda>(item, ilen). take ilen (drop item (string_val str))) its = list_items (string_val str)"
    using strListItems_eq [OF assms, of 0 None] by auto
  obtain buf where buf: "s_buf str = Some buf" "c_str buf = Some (string_val str)"
    using assms by (cases rule: string_okE) (auto simp: StringNull_def)
  have len: "length (string_val str) = s_len str"
    using string_ok_len [OF assms(1)] by simp
  have "(\<exists>(item, ilen)\<in>set its. length m = ilen \<and> strncasecmp_eq (drop item (string_val str)) m ilen) \<longleftrightarrow>
      (\<exists>(item, ilen)\<in>set its. map tolower m = map tolower (take ilen (drop item (string_val str))))"
  proof (intro bex_cong refl, clarify)
    fix item ilen
    assume "(item, ilen) \<in> set its"
    then have "item + ilen \<le> length (string_val str)"
      using its(2) len by auto
    then have "length (take ilen (drop item (string_val str))) = ilen"
      by simp
    then show "(length m = ilen \<and> strncasecmp_eq (drop item (string_val str)) m ilen) \<longleftrightarrow>
        (map tolower m = map tolower (take ilen (drop item (string_val str))))"
      unfolding strncasecmp_eq_def by (metis length_map order_refl take_all)
  qed
  also have "\<dots> \<longleftrightarrow> map tolower m \<in> map tolower ` set (list_items (string_val str))"
    by (force simp: its(3) [symmetric])
  finally show ?thesis
    using its strListIsMember_loop_eq [OF its(1) buf, of m] by (auto simp: strListIsMember_def)
qed

text \<open>C33.
  Adding an item to a list of plain items: the string is extended, and iterating over it gives the
  items there were and the new one last.
\<close>

theorem strListAdd_correct:
  assumes "string_ok str" "plain (string_val str)" "plain_item item"
    "length (string_val str) + 2 + length item < 65535"
  shows "\<exists>str'. strListAdd junk str item 44 = Some str' \<and> string_ok str' \<and>
    list_items (string_val str') = list_items (string_val str) @ [item]"
proof -
  have i: "0 \<notin> set item"
    using assms(3) by (auto simp: plain_item_def plain_def)
  have len: "length (string_val str) = s_len str"
    using string_ok_len [OF assms(1)] by simp
  have add: "\<exists>str'. stringAppend junk s (item @ [0]) (int (length item)) = Some str' \<and> string_ok str' \<and>
      string_val str' = string_val s @ item"
    if "string_ok s" "length (string_val s) + length item < 65535" for s
    using append_ok [OF that(1) i, of junk "[0]"] that(2) string_ok_len [OF that(1)] by simp
  show ?thesis
  proof (cases "s_len str = 0")
    case True
    then have "string_val str = []"
      using len by simp
    then show ?thesis
      using True add [OF assms(1)] assms(4) list_items_add [OF assms(2,3)]
      by (auto simp: strListAdd_def strListAddStr_def)
  next
    case False
    obtain s1 where s1: "stringAppend junk str [44, 32, 0] 2 = Some s1" "string_ok s1" "string_val s1 = string_val str @ [44, 32]"
      using append_ok [OF assms(1), of "[44, 32]" junk "[0]"] assms(4) len by auto
    then show ?thesis
      using False add [OF s1(2)] assms(4) len list_items_add [OF assms(2,3)]
      by (cases "string_val str = []") (auto simp: strListAdd_def strListAddStr_def)
  qed
qed

text \<open>C34.
  With a delimiter other than the comma, the double quote and the terminator, a comma outside quotes
  can stop the search without ending it: the call never returns on a string that starts with a
  non-empty text without the delimiter, commas and quotes and not beginning with white space,
  followed by a comma.
\<close>

theorem strListGetItem_diverges:
  assumes "string_ok str" "string_val str = a @ 44 # b" "a \<noteq> []" "hd a \<notin> {32, 9, 13, 10}"
    "34 \<notin> set a" "del \<notin> set a" "44 \<notin> set a" "del \<noteq> 44" "del \<noteq> 34" "del \<noteq> 0"
  shows "strListGetItem str del None = None"
proof -
  obtain buf where buf: "s_buf str = Some buf" "c_str buf = Some (a @ 44 # b)"
    using assms(1-3) by (cases rule: string_okE) (auto simp: StringNull_def string_val_def)
  have "\<not> hd a = del" "\<not> hd a = 44"
    using assms(3,6,7) hd_in_set [of a] by metis+
  then have "strspn (a @ 44 # b) [32, del, 44, 9, 13, 10] = 0"
    using assms(3,4) by (cases a) (auto simp: strspn_def)
  moreover have "item_end (a @ 44 # b) del False 0 = None"
    using item_end_stuck [of a del 0 b] assms by simp
  ultimately show ?thesis
    using buf by (simp add: strListGetItem_def Let_def)
qed

definition ex_list :: String where
  "ex_list = ex_string [97, 44, 98]"

lemma ex_list_ok: "string_ok ex_list" "s_buf ex_list \<noteq> None" "string_val ex_list = [97, 44, 98]"
  using ex_string_ok [of "[97, 44, 98]"] by (simp_all add: ex_list_def)

theorem strList_iteration_witness:
  "\<exists>its. strListItems ex_list 44 None = Some its \<and> strListIsMember ex_list [66] 44 = Some True"
  using strList_iteration [OF ex_list_ok(1,2), of "[66]"]
  by (auto simp: ex_list_ok(3) list_items.simps sep_def rtrim_def isspace_def tolower_def)

theorem strListAdd_correct_witness:
  "\<exists>str'. strListAdd (\<lambda>_. 0) ex_list [99] 44 = Some str' \<and> list_items (string_val str') = list_items [97, 44, 98] @ [[99]]"
  using strListAdd_correct [OF ex_list_ok(1), of "[99]" "\<lambda>_. 0"]
  by (auto simp: ex_list_ok(3) plain_def plain_item_def sep_def)

theorem strListGetItem_diverges_witness: "strListGetItem ex_list 59 None = None"
  using strListGetItem_diverges [OF ex_list_ok(1), of "[97]" "[98]" 59] by (simp add: ex_list_ok(3))

end
