(* ===== verification/Http_Range.thy ===== *)
theory Http_Range
  imports Str_List
begin

text \<open>
  The \<open>Range\<close> and \<open>Content-Range\<close> header fields: parsing, canonization and queries
  (\<^verbatim>\<open>libhttp/HttpHdrRange.c\<close>, \<^verbatim>\<open>libhttp/HttpHdrContRange.c\<close>, the number parser of
  \<^verbatim>\<open>libhttp/HttpHeaderParse.c\<close>) and printing (\<^verbatim>\<open>src/HttpHdrRange.c\<close>, \<^verbatim>\<open>src/HttpHdrContRange.c\<close>).
  Offsets are 64-bit signed integers: an arithmetic result outside that range is a failure. A
  stack of specifications is a list whose last element is the top; the output of a packer is the
  list of bytes that is appended.
\<close>

section \<open>Offsets\<close>

definition off_range :: "int \<Rightarrow> bool" where
  "off_range v \<longleftrightarrow> - (2 ^ 63) \<le> v \<and> v < 2 ^ 63"

definition off_t :: "int \<Rightarrow> int option" where
  "off_t v = (if off_range v then Some v else None)"

definition range_spec_unknown :: int where
  "range_spec_unknown = - 1"

definition known_spec :: "int \<Rightarrow> bool" where
  "known_spec s \<longleftrightarrow> s \<noteq> range_spec_unknown"

definition size_min :: "int \<Rightarrow> int \<Rightarrow> int" where
  "size_min a b = (if a \<le> b then a else b)"

definition size_diff :: "int \<Rightarrow> int \<Rightarrow> int option" where
  "size_diff a b = (if a \<ge> b then off_t (a - b) else Some 0)"

text \<open>Whether a number was read, and the value stored.\<close>

definition httpHeaderParseSize :: "byte list \<Rightarrow> bool \<times> int" where
  "httpHeaderParseSize start =
     (case strto (- (2 ^ 63)) (2 ^ 63 - 1) start of
        (v, n, erange) \<Rightarrow> if n = 0 \<or> erange then (False, - 1) else (True, v))"

section \<open>One specification\<close>

record HttpHdrRangeSpec =
  rs_offset :: int
  rs_length :: int

text \<open>
  \<open>field\<close> is the rest of the header value from the item on and \<open>flen\<close> the length of the item. The
  second half of the condition on the hyphen is only evaluated when there is none; the difference
  of a null pointer and \<open>field\<close> is negative then and the item is refused.
\<close>

definition range_spec_check :: "HttpHdrRangeSpec \<Rightarrow> HttpHdrRangeSpec option" where
  "range_spec_check spec = (if known_spec (rs_length spec) \<and> rs_length spec = 0 then None else Some spec)"

definition httpHdrRangeSpecParseCreate :: "byte list \<Rightarrow> int \<Rightarrow> HttpHdrRangeSpec option option" where
  "httpHdrRangeSpecParseCreate field flen =
     (if flen < 2 then Some None
      else do {
        c \<leftarrow> cs_at field 0;
        if c = 45 then
          (case httpHeaderParseSize (drop 1 field) of
             (ok, len) \<Rightarrow>
               Some (if ok then range_spec_check \<lparr>rs_offset = range_spec_unknown, rs_length = len\<rparr> else None))
        else case strchr field 45 of
            None \<Rightarrow> Some None
          | Some p \<Rightarrow>
              (case httpHeaderParseSize field of
                 (ok, offset) \<Rightarrow>
                   if \<not> ok then Some None
                   else if int (p + 1) < flen then
                     (case httpHeaderParseSize (drop (p + 1) field) of
                        (ok, last_pos) \<Rightarrow>
                          if \<not> ok then Some None
                          else do {
                            e \<leftarrow> off_t (last_pos + 1);
                            len \<leftarrow> size_diff e offset;
                            Some (range_spec_check \<lparr>rs_offset = offset, rs_length = len\<rparr>)
                          })
                   else Some (range_spec_check \<lparr>rs_offset = offset, rs_length = range_spec_unknown\<rparr>))
      })"

definition httpHdrRangeSpecDup :: "HttpHdrRangeSpec \<Rightarrow> HttpHdrRangeSpec" where
  "httpHdrRangeSpecDup spec = \<lparr>rs_offset = rs_offset spec, rs_length = rs_length spec\<rparr>"

definition httpHdrRangeSpecCanonize :: "HttpHdrRangeSpec \<Rightarrow> int \<Rightarrow> (HttpHdrRangeSpec \<times> bool) option" where
  "httpHdrRangeSpecCanonize spec clen = do {
     spec \<leftarrow> (if \<not> known_spec (rs_offset spec) then do {
                 offset \<leftarrow> size_diff clen (rs_length spec);
                 Some (spec\<lparr>rs_offset := offset\<rparr>)
               }
               else if \<not> known_spec (rs_length spec) then do {
                 len \<leftarrow> size_diff clen (rs_offset spec);
                 Some (spec\<lparr>rs_length := len\<rparr>)
               }
               else Some spec);
     c_assert (known_spec (rs_length spec));
     c_assert (known_spec (rs_offset spec));
     d \<leftarrow> size_diff clen (rs_offset spec);
     let spec = spec\<lparr>rs_length := size_min d (rs_length spec)\<rparr>;
     Some (spec, rs_length spec > 0)
   }"

text \<open>
  The flag \<open>merging\<close> stands for the preprocessor symbol \<open>MERGING_BREAKS_NOTHING\<close>, without which the
  function never merges.
\<close>

definition httpHdrRangeSpecMergeWith ::
  "bool \<Rightarrow> HttpHdrRangeSpec \<Rightarrow> HttpHdrRangeSpec \<Rightarrow> (HttpHdrRangeSpec \<times> bool) option" where
  "httpHdrRangeSpecMergeWith merging recep donor =
     (if \<not> merging then Some (recep, False)
      else do {
        rhs \<leftarrow> off_t (rs_offset recep + rs_length recep);
        donor_rhs \<leftarrow> off_t (rs_offset donor + rs_length donor);
        c_assert (known_spec (rs_offset recep));
        c_assert (known_spec (rs_offset donor));
        c_assert (rs_length recep > 0);
        c_assert (rs_length donor > 0);
        let left = (rs_offset donor < rs_offset recep \<and> rs_offset recep \<le> donor_rhs);
        let offset = (if left then rs_offset donor else rs_offset recep);
        let right = (rs_offset donor \<le> rhs \<and> rhs < donor_rhs);
        let rhs' = (if right then donor_rhs else rhs);
        if left \<or> right then do {
          c_assert (rhs' > offset);
          Some (recep\<lparr>rs_offset := offset, rs_length := rhs' - offset\<rparr>, True)
        }
        else Some (recep, rs_offset recep \<le> rs_offset donor \<and> rs_offset donor < rhs)
      })"

section \<open>Sets of specifications\<close>

type_synonym HttpHdrRange = "HttpHdrRangeSpec list"

partial_function (option) httpHdrRangeParse_loop :: "String \<Rightarrow> nat option \<Rightarrow> HttpHdrRange \<Rightarrow> HttpHdrRange option" where
  "httpHdrRangeParse_loop str pos specs = do {
     (found, item, ilen, pos) \<leftarrow> strListGetItem str 44 pos;
     if found then do {
       buf \<leftarrow> s_buf str;
       s \<leftarrow> c_str buf;
       spec \<leftarrow> httpHdrRangeSpecParseCreate (drop item s) (int ilen);
       httpHdrRangeParse_loop str pos (case spec of Some spec \<Rightarrow> specs @ [spec] | None \<Rightarrow> specs)
     }
     else Some specs
   }"

definition httpHdrRangeParseInit :: "String \<Rightarrow> (HttpHdrRange \<times> bool) option" where
  "httpHdrRangeParseInit str = do {
     buf \<leftarrow> s_buf str;
     s \<leftarrow> c_str buf;
     if \<not> strncasecmp_eq s (bytes_of ''bytes='') 6 then Some ([], False)
     else do {
       specs \<leftarrow> httpHdrRangeParse_loop str (Some 6) [];
       Some (specs, specs \<noteq> [])
     }
   }"

definition httpHdrRangeParseCreate :: "String \<Rightarrow> HttpHdrRange option option" where
  "httpHdrRangeParseCreate str = do {
     (r, ok) \<leftarrow> httpHdrRangeParseInit str;
     Some (if ok then Some r else None)
   }"

definition httpHdrRangeDup :: "HttpHdrRange \<Rightarrow> HttpHdrRange" where
  "httpHdrRangeDup rng = map httpHdrRangeSpecDup rng"

text \<open>The iterator: a position starts at \<open>-1\<close>, and a loop runs until there is no next one.\<close>

definition httpHdrRangeGetSpec :: "HttpHdrRange \<Rightarrow> int \<Rightarrow> (int \<times> HttpHdrRangeSpec option) option" where
  "httpHdrRangeGetSpec rng pos = do {
     c_assert (pos \<ge> - 1 \<and> pos < int (length rng));
     let pos = pos + 1;
     Some (pos, if pos < int (length rng) then Some (rng ! nat pos) else None)
   }"

fun canonize_specs :: "HttpHdrRange \<Rightarrow> int \<Rightarrow> HttpHdrRange option" where
  "canonize_specs [] clen = Some []"
| "canonize_specs (spec # rng) clen = do {
     (spec, valid) \<leftarrow> httpHdrRangeSpecCanonize spec clen;
     goods \<leftarrow> canonize_specs rng clen;
     Some (if valid then spec # goods else goods)
   }"

function canonize_merge :: "bool \<Rightarrow> HttpHdrRange \<Rightarrow> HttpHdrRange \<Rightarrow> HttpHdrRange option" where
  "canonize_merge merging [] specs = Some specs"
| "canonize_merge merging (spec # goods) specs =
     (if specs = [] then canonize_merge merging goods [spec]
      else do {
        (spec, merged) \<leftarrow> httpHdrRangeSpecMergeWith merging spec (last specs);
        if merged then canonize_merge merging (spec # goods) (butlast specs)
        else canonize_merge merging goods (specs @ [spec])
      })"
  by pat_completeness auto
termination
  by (relation "measures [\<lambda>(_, goods, _). length goods, \<lambda>(_, _, specs). length specs]") auto

definition httpHdrRangeCanonize :: "bool \<Rightarrow> HttpHdrRange \<Rightarrow> int \<Rightarrow> (HttpHdrRange \<times> bool) option" where
  "httpHdrRangeCanonize merging rng clen = do {
     c_assert (clen \<ge> 0);
     goods \<leftarrow> canonize_specs rng clen;
     specs \<leftarrow> canonize_merge merging goods [];
     Some (specs, specs \<noteq> [])
   }"

fun httpHdrRangeIsComplex_loop :: "int \<Rightarrow> HttpHdrRange \<Rightarrow> bool option" where
  "httpHdrRangeIsComplex_loop offset [] = Some False"
| "httpHdrRangeIsComplex_loop offset (spec # rng) =
     (if rs_offset spec < offset then Some True
      else do {
        offset \<leftarrow> off_t (rs_offset spec + rs_length spec);
        httpHdrRangeIsComplex_loop offset rng
      })"

definition httpHdrRangeIsComplex :: "HttpHdrRange \<Rightarrow> bool option" where
  "httpHdrRangeIsComplex rng = httpHdrRangeIsComplex_loop 0 rng"

fun httpHdrRangeWillBeComplex_loop :: "int \<Rightarrow> HttpHdrRange \<Rightarrow> bool option" where
  "httpHdrRangeWillBeComplex_loop offset [] = Some False"
| "httpHdrRangeWillBeComplex_loop offset (spec # rng) =
     (if \<not> known_spec (rs_offset spec) then httpHdrRangeWillBeComplex_loop offset rng
      else if rs_offset spec < offset then Some True
      else do {
        offset \<leftarrow> (if known_spec (rs_length spec) then off_t (rs_offset spec + rs_length spec)
                    else Some (rs_offset spec));
        httpHdrRangeWillBeComplex_loop offset rng
      })"

definition httpHdrRangeWillBeComplex :: "HttpHdrRange \<Rightarrow> bool option" where
  "httpHdrRangeWillBeComplex rng = httpHdrRangeWillBeComplex_loop 0 rng"

fun httpHdrRangeFirstOffset_loop :: "int \<Rightarrow> HttpHdrRange \<Rightarrow> int" where
  "httpHdrRangeFirstOffset_loop offset [] = offset"
| "httpHdrRangeFirstOffset_loop offset (spec # rng) =
     httpHdrRangeFirstOffset_loop
       (if rs_offset spec < offset \<or> \<not> known_spec offset then rs_offset spec else offset) rng"

definition httpHdrRangeFirstOffset :: "HttpHdrRange \<Rightarrow> int" where
  "httpHdrRangeFirstOffset rng = httpHdrRangeFirstOffset_loop range_spec_unknown rng"

fun httpHdrRangeLowestOffset_loop :: "int \<Rightarrow> int \<Rightarrow> HttpHdrRange \<Rightarrow> int option" where
  "httpHdrRangeLowestOffset_loop sz offset [] = Some (if known_spec offset then offset else 0)"
| "httpHdrRangeLowestOffset_loop sz offset (spec # rng) =
     (if \<not> known_spec (rs_offset spec) \<and> (rs_length spec > sz \<or> \<not> known_spec (rs_length spec)) then Some 0
      else do {
        current \<leftarrow> (if \<not> known_spec (rs_offset spec) then off_t (sz - rs_length spec) else Some (rs_offset spec));
        httpHdrRangeLowestOffset_loop sz
          (if current < offset \<or> \<not> known_spec offset then current else offset) rng
      })"

definition httpHdrRangeLowestOffset :: "HttpHdrRange \<Rightarrow> int \<Rightarrow> int option" where
  "httpHdrRangeLowestOffset rng sz = httpHdrRangeLowestOffset_loop sz range_spec_unknown rng"

text \<open>\<open>cfg_range_offset_limit\<close> is a setting of the administrator.\<close>

definition httpHdrRangeOffsetLimit :: "int \<Rightarrow> HttpHdrRange option \<Rightarrow> bool" where
  "httpHdrRangeOffsetLimit cfg_range_offset_limit rng =
     (case rng of
        None \<Rightarrow> False
      | Some rng \<Rightarrow>
          if cfg_range_offset_limit = 0 then True
          else if cfg_range_offset_limit = - 1 then False
          else \<not> cfg_range_offset_limit \<ge> httpHdrRangeFirstOffset rng)"

section \<open>Printing\<close>

definition httpHdrRangeSpecPackInto :: "HttpHdrRangeSpec \<Rightarrow> byte list option" where
  "httpHdrRangeSpecPackInto spec =
     (if \<not> known_spec (rs_offset spec) then Some (45 # dec_int (rs_length spec))
      else if \<not> known_spec (rs_length spec) then Some (dec_int (rs_offset spec) @ [45])
      else do {
        e \<leftarrow> off_t (rs_offset spec + rs_length spec);
        last_pos \<leftarrow> off_t (e - 1);
        Some (dec_int (rs_offset spec) @ [45] @ dec_int last_pos)
      })"

text \<open>The position has left its initial value whenever the loop compares it.\<close>

fun httpHdrRangePackInto :: "HttpHdrRange \<Rightarrow> byte list option" where
  "httpHdrRangePackInto [] = Some []"
| "httpHdrRangePackInto (spec # rng) = do {
     s \<leftarrow> httpHdrRangeSpecPackInto spec;
     rest \<leftarrow> httpHdrRangePackInto rng;
     Some ([44] @ s @ rest)
   }"

section \<open>Content ranges\<close>

record HttpHdrContRange =
  cr_spec :: HttpHdrRangeSpec
  cr_elength :: int

text \<open>The specification as it is left, and whether it was accepted.\<close>

definition httpHdrRangeRespSpecParseInit :: "byte list \<Rightarrow> int \<Rightarrow> (HttpHdrRangeSpec \<times> bool) option" where
  "httpHdrRangeRespSpecParseInit field flen =
     (let spec = \<lparr>rs_offset = range_spec_unknown, rs_length = range_spec_unknown\<rparr> in
      if flen < 2 then Some (spec, False)
      else do {
        c \<leftarrow> cs_at field 0;
        if c = 42 then Some (spec, True)
        else case strchr field 45 of
            None \<Rightarrow> Some (spec, False)
          | Some p \<Rightarrow>
              if \<not> int p < flen then Some (spec, False)
              else (case httpHeaderParseSize field of
                 (ok, offset) \<Rightarrow>
                   let spec = spec\<lparr>rs_offset := offset\<rparr> in
                   if \<not> ok then Some (spec, False)
                   else if int (p + 1) < flen then
                     (case httpHeaderParseSize (drop (p + 1) field) of
                        (ok, last_pos) \<Rightarrow>
                          if \<not> ok then Some (spec, False)
                          else do {
                            e \<leftarrow> off_t (last_pos + 1);
                            len \<leftarrow> size_diff e offset;
                            let spec = spec\<lparr>rs_length := len\<rparr>;
                            Some (spec, \<not> (known_spec len \<and> len = 0))
                          })
                   else Some (spec, True))
      })"

definition httpHdrContRangeCreate :: HttpHdrContRange where
  "httpHdrContRangeCreate =
     \<lparr>cr_spec = \<lparr>rs_offset = range_spec_unknown, rs_length = range_spec_unknown\<rparr>, cr_elength = range_spec_unknown\<rparr>"

definition httpHdrContRangeParseInit :: "HttpHdrContRange \<Rightarrow> byte list \<Rightarrow> (HttpHdrContRange \<times> bool) option" where
  "httpHdrContRangeParseInit rng str =
     (if \<not> strncasecmp_eq str (bytes_of ''bytes '') 6 then Some (rng, False)
      else let str = drop 6 str in
        case strchr str 47 of
          None \<Rightarrow> Some (rng, False)
        | Some p \<Rightarrow> do {
            c \<leftarrow> cs_at str 0;
            (spec, ok) \<leftarrow> (if c = 42
               then Some (\<lparr>rs_offset = range_spec_unknown, rs_length = range_spec_unknown\<rparr>, True)
               else httpHdrRangeRespSpecParseInit str (int p));
            let rng = rng\<lparr>cr_spec := spec\<rparr>;
            if \<not> ok then Some (rng, False)
            else do {
              c \<leftarrow> cs_at str (p + 1);
              if c = 42 then Some (rng\<lparr>cr_elength := range_spec_unknown\<rparr>, True)
              else (case httpHeaderParseSize (drop (p + 1) str) of
                 (ok, elength) \<Rightarrow> Some (rng\<lparr>cr_elength := elength\<rparr>, ok))
            }
          })"

definition httpHdrContRangeParseCreate :: "byte list \<Rightarrow> HttpHdrContRange option option" where
  "httpHdrContRangeParseCreate str = do {
     (r, ok) \<leftarrow> httpHdrContRangeParseInit httpHdrContRangeCreate str;
     Some (if ok then Some r else None)
   }"

definition httpHdrContRangeDup :: "HttpHdrContRange \<Rightarrow> HttpHdrContRange" where
  "httpHdrContRangeDup rng = rng"

definition httpHdrContRangeSet :: "HttpHdrContRange \<Rightarrow> HttpHdrRangeSpec \<Rightarrow> int \<Rightarrow> HttpHdrContRange option" where
  "httpHdrContRangeSet cr spec ent_len = do {
     c_assert (ent_len \<ge> 0);
     Some (cr\<lparr>cr_spec := spec, cr_elength := ent_len\<rparr>)
   }"

definition httpHdrRangeRespSpecPackInto :: "HttpHdrRangeSpec \<Rightarrow> byte list option" where
  "httpHdrRangeRespSpecPackInto spec =
     (if \<not> known_spec (rs_offset spec) \<or> \<not> known_spec (rs_length spec) then Some [42]
      else do {
        e \<leftarrow> off_t (rs_offset spec + rs_length spec);
        last_pos \<leftarrow> off_t (e - 1);
        Some (bytes_of ''bytes '' @ dec_int (rs_offset spec) @ [45] @ dec_int last_pos)
      })"

definition httpHdrContRangePackInto :: "HttpHdrContRange \<Rightarrow> byte list option" where
  "httpHdrContRangePackInto rng = do {
     s \<leftarrow> httpHdrRangeRespSpecPackInto (cr_spec rng);
     Some (s @ [47] @ (if known_spec (cr_elength rng) then dec_int (cr_elength rng) else [42]))
   }"

section \<open>What a specification asks for\<close>

text \<open>
  The specifications a client may send: a suffix of positive length, a position to the end, or a
  non-empty range. The bytes a specification asks for of a body of length \<open>clen\<close>.
\<close>

definition spec_ok :: "HttpHdrRangeSpec \<Rightarrow> bool" where
  "spec_ok s \<longleftrightarrow>
     (if known_spec (rs_offset s)
      then 0 \<le> rs_offset s \<and> off_range (rs_offset s) \<and>
        (known_spec (rs_length s) \<longrightarrow> 0 < rs_length s \<and> off_range (rs_offset s + rs_length s))
      else 0 < rs_length s \<and> off_range (rs_length s))"

definition requested :: "int \<Rightarrow> HttpHdrRangeSpec \<Rightarrow> int set" where
  "requested clen s =
     (if \<not> known_spec (rs_offset s) then {max 0 (clen - rs_length s)..<clen}
      else if \<not> known_spec (rs_length s) then {rs_offset s..<clen}
      else {rs_offset s..<min (rs_offset s + rs_length s) clen})"

definition spec_bytes :: "HttpHdrRangeSpec \<Rightarrow> int set" where
  "spec_bytes s = {rs_offset s..<rs_offset s + rs_length s}"

definition in_body :: "int \<Rightarrow> HttpHdrRangeSpec \<Rightarrow> bool" where
  "in_body clen s \<longleftrightarrow> 0 \<le> rs_offset s \<and> 0 < rs_length s \<and> rs_offset s + rs_length s \<le> clen"

lemmas spec_defs = known_spec_def range_spec_unknown_def off_t_def off_range_def size_diff_def size_min_def

lemma httpHdrRangeSpecCanonize_ok:
  assumes "spec_ok s" "0 \<le> clen" "off_range clen"
  shows "\<exists>s'. httpHdrRangeSpecCanonize s clen = Some (s', requested clen s \<noteq> {}) \<and>
    (requested clen s \<noteq> {} \<longrightarrow> in_body clen s' \<and> spec_bytes s' = requested clen s)"
proof -
  consider (suffix) "\<not> known_spec (rs_offset s)" "0 < rs_length s" "off_range (rs_length s)"
    | (trailer) "known_spec (rs_offset s)" "\<not> known_spec (rs_length s)" "0 \<le> rs_offset s" "off_range (rs_offset s)"
    | (range) "known_spec (rs_offset s)" "known_spec (rs_length s)" "0 \<le> rs_offset s" "off_range (rs_offset s)"
      "0 < rs_length s" "off_range (rs_offset s + rs_length s)"
    using assms(1) by (auto simp: spec_ok_def split: if_splits)
  then show ?thesis
  proof cases
    case suffix
    then show ?thesis
      using assms(2,3) by (auto simp: httpHdrRangeSpecCanonize_def requested_def in_body_def spec_bytes_def spec_defs)
  next
    case trailer
    then show ?thesis
      using assms(2,3) by (auto simp: httpHdrRangeSpecCanonize_def requested_def in_body_def spec_bytes_def spec_defs)
  next
    case range
    then show ?thesis
      using assms(2,3) by (auto simp: httpHdrRangeSpecCanonize_def requested_def in_body_def spec_bytes_def spec_defs)
  qed
qed

lemma canonize_specs_ok:
  assumes "\<forall>s\<in>set rng. spec_ok s" "0 \<le> clen" "off_range clen"
  shows "\<exists>goods. canonize_specs rng clen = Some goods \<and> (\<forall>s\<in>set goods. in_body clen s) \<and>
    map spec_bytes goods = filter (\<lambda>b. b \<noteq> {}) (map (requested clen) rng)"
  using assms(1)
proof (induction rng)
  case (Cons s rng)
  then obtain goods where "canonize_specs rng clen = Some goods" "\<forall>s\<in>set goods. in_body clen s"
      "map spec_bytes goods = filter (\<lambda>b. b \<noteq> {}) (map (requested clen) rng)"
    by auto
  moreover obtain s' where "httpHdrRangeSpecCanonize s clen = Some (s', requested clen s \<noteq> {})"
      "requested clen s \<noteq> {} \<longrightarrow> in_body clen s' \<and> spec_bytes s' = requested clen s"
    using httpHdrRangeSpecCanonize_ok [of s, OF _ assms(2,3)] Cons.prems by (meson list.set_intros(1))
  ultimately show ?case
    by (intro exI [of _ "if requested clen s \<noteq> {} then s' # goods else goods"]) auto
qed simp

section \<open>Merging\<close>

lemma mergeWith_ok:
  assumes "in_body clen a" "in_body clen d" "off_range clen"
  shows "\<exists>a' merged. httpHdrRangeSpecMergeWith m a d = Some (a', merged) \<and> in_body clen a' \<and>
    (merged \<longrightarrow> m \<and> spec_bytes a' = spec_bytes a \<union> spec_bytes d) \<and> (\<not> merged \<longrightarrow> a' = a)"
proof (cases m)
  case True
  define A B C D where "A = rs_offset a" and "B = rs_offset a + rs_length a" and "C = rs_offset d" and "D = rs_offset d + rs_length d"
  note abcd = A_def B_def C_def D_def
  have r: "0 \<le> A" "A < B" "B \<le> clen" "0 \<le> C" "C < D" "D \<le> clen"
    using assms(1,2) by (simp_all add: in_body_def abcd)
  have off: "off_t B = Some B" "off_t D = Some D" "known_spec A" "known_spec C" "rs_length a > 0" "rs_length d > 0"
    using assms by (auto simp: in_body_def spec_defs abcd)
  define left where "left \<longleftrightarrow> C < A \<and> A \<le> D"
  define right where "right \<longleftrightarrow> C \<le> B \<and> B < D"
  define x where "x = (if left then C else A)"
  define y where "y = (if right then D else B)"
  have "x < y"
    using r by (simp add: x_def y_def left_def right_def)
  have eq: "httpHdrRangeSpecMergeWith m a d =
      Some (if left \<or> right then (a\<lparr>rs_offset := x, rs_length := y - x\<rparr>, True) else (a, A \<le> C \<and> C < B))"
    unfolding httpHdrRangeSpecMergeWith_def B_def [symmetric] D_def [symmetric]
    unfolding A_def [symmetric] C_def [symmetric]
    using True off \<open>x < y\<close>
    by (simp add: left_def [symmetric] right_def [symmetric] x_def [symmetric] y_def [symmetric])
  have union: "{x..<y} = {A..<B} \<union> {C..<D}" if "left \<or> right"
  proof (rule set_eqI)
    fix i
    show "i \<in> {x..<y} \<longleftrightarrow> i \<in> {A..<B} \<union> {C..<D}"
      using that r unfolding x_def y_def left_def right_def by (simp, linarith)
  qed
  have inside: "{A..<B} = {A..<B} \<union> {C..<D}" if "\<not> (left \<or> right)" "A \<le> C" "C < B"
    using that r unfolding left_def right_def by auto
  have "0 \<le> x" "y \<le> clen"
    using r by (simp_all add: x_def y_def)
  then show ?thesis
    using eq union inside assms(1) True \<open>x < y\<close>
    by (cases "left \<or> right") (auto simp: spec_bytes_def in_body_def abcd)
qed (use assms in \<open>auto simp: httpHdrRangeSpecMergeWith_def\<close>)

lemma canonize_merge_ok:
  assumes "\<forall>s\<in>set goods \<union> set specs. in_body clen s" "off_range clen"
  shows "\<exists>specs'. canonize_merge m goods specs = Some specs' \<and> (\<forall>s\<in>set specs'. in_body clen s) \<and>
    \<Union>(spec_bytes ` set specs') = \<Union>(spec_bytes ` set goods) \<union> \<Union>(spec_bytes ` set specs) \<and>
    (\<not> m \<longrightarrow> specs' = specs @ goods)"
  using assms(1)
proof (induction m goods specs rule: canonize_merge.induct)
  case (2 m s goods specs)
  show ?case
  proof (cases "specs = []")
    case True
    with 2 show ?thesis
      by auto
  next
    case False
    then obtain init d where d: "specs = init @ [d]"
      by (cases specs rule: rev_cases) auto
    obtain s' merged where s': "httpHdrRangeSpecMergeWith m s d = Some (s', merged)" "in_body clen s'"
        "merged \<longrightarrow> m \<and> spec_bytes s' = spec_bytes s \<union> spec_bytes d" "\<not> merged \<longrightarrow> s' = s"
      using mergeWith_ok [of clen s d m] 2(4) d assms(2) by auto
    show ?thesis
    proof (cases merged)
      case True
      then show ?thesis
        using 2(2) [of "(s', merged)" s' merged] 2(4) False d s' by (auto simp: ac_simps)
    next
      case False
      then show ?thesis
        using 2(3) [of "(s', merged)" s' merged] 2(4) \<open>specs \<noteq> []\<close> d s' by (auto simp: ac_simps)
    qed
  qed
qed simp

section \<open>Order\<close>

definition before :: "HttpHdrRangeSpec \<Rightarrow> HttpHdrRangeSpec \<Rightarrow> bool" where
  "before a b \<longleftrightarrow> rs_offset a + rs_length a \<le> rs_offset b"

lemma httpHdrRangeIsComplex_loop_eq:
  assumes "\<forall>s\<in>set specs. in_body clen s" "off_range clen"
  shows "httpHdrRangeIsComplex_loop offset specs =
    Some (\<not> (sorted_wrt before specs \<and> (\<forall>s\<in>set specs. offset \<le> rs_offset s)))"
  using assms(1)
proof (induction specs arbitrary: offset)
  case (Cons s specs)
  have "off_t (rs_offset s + rs_length s) = Some (rs_offset s + rs_length s)" "0 < rs_length s"
    using Cons.prems assms(2) by (auto simp: in_body_def spec_defs)
  then show ?case
    using Cons by (auto simp: before_def) force+
qed simp

lemma httpHdrRangeWillBeComplex_loop_ok:
  assumes "httpHdrRangeWillBeComplex_loop offset rng = Some True"
    "\<forall>s\<in>set rng. spec_ok s \<and> requested clen s \<noteq> {}" "0 \<le> clen" "off_range clen"
    "canonize_specs rng clen = Some goods"
  shows "\<not> (sorted_wrt before goods \<and> (\<forall>s\<in>set goods. min offset clen \<le> rs_offset s))"
  using assms(1,2,5)
proof (induction rng arbitrary: offset goods)
  case (Cons s rng)
  have ok: "spec_ok s" "requested clen s \<noteq> {}"
    using Cons.prems(2) by auto
  obtain s' where s': "httpHdrRangeSpecCanonize s clen = Some (s', True)" "in_body clen s'" "spec_bytes s' = requested clen s"
    using httpHdrRangeSpecCanonize_ok [OF ok(1) assms(3,4)] ok(2) by auto
  obtain goods' where g: "canonize_specs rng clen = Some goods'" "goods = s' # goods'"
    using Cons.prems(3) s'(1) by (auto simp: bind_eq_Some_conv)
  have pos: "rs_offset s' < rs_offset s' + rs_length s'"
    using s'(2) by (simp add: in_body_def)
  show ?case
  proof (cases "known_spec (rs_offset s)")
    case False
    then show ?thesis
      using Cons.IH [of offset goods'] Cons.prems g by auto
  next
    case known: True
    define e where "e = (if known_spec (rs_length s) then min (rs_offset s + rs_length s) clen else clen)"
    have ne: "rs_offset s < e"
      using ok(2) known by (auto simp: requested_def e_def split: if_splits)
    have "{rs_offset s'..<rs_offset s' + rs_length s'} = {rs_offset s..<e}"
      using s'(3) known by (simp add: spec_bytes_def requested_def e_def)
    then have eq: "rs_offset s' = rs_offset s" "rs_offset s' + rs_length s' = e"
      using pos ne by (simp_all add: atLeastLessThan_eq_iff)
    show ?thesis
    proof (cases "rs_offset s < offset")
      case True
      then show ?thesis
        using eq ne g(2) by (auto simp: e_def split: if_splits)
    next
      case False
      define offset' where "offset' = (if known_spec (rs_length s) then rs_offset s + rs_length s else rs_offset s)"
      have "httpHdrRangeWillBeComplex_loop offset' rng = Some True"
        using Cons.prems(1) known False by (auto simp: offset'_def spec_defs bind_eq_Some_conv split: if_splits)
      then have "\<not> (sorted_wrt before goods' \<and> (\<forall>s\<in>set goods'. min offset' clen \<le> rs_offset s))"
        using Cons.IH Cons.prems(2) g(1) by auto
      moreover have "min offset' clen \<le> e"
        using ne by (auto simp: offset'_def e_def)
      moreover have "\<forall>t\<in>set goods'. e \<le> rs_offset t" if "sorted_wrt before goods"
        using that g(2) eq by (simp add: before_def)
      ultimately show ?thesis
        using g(2) by (auto intro: order_trans)
    qed
  qed
qed simp

text \<open>Where the bytes of a specification start in a body of a known length.\<close>

definition spec_start :: "int \<Rightarrow> HttpHdrRangeSpec \<Rightarrow> int" where
  "spec_start clen s = (if known_spec (rs_offset s) then rs_offset s else max 0 (clen - rs_length s))"

lemma spec_start_requested:
  assumes "spec_ok s"
  shows "0 \<le> spec_start clen s" "b \<in> requested clen s \<Longrightarrow> spec_start clen s \<le> b"
    "requested clen s \<noteq> {} \<Longrightarrow> spec_start clen s \<in> requested clen s"
  using assms by (auto simp: spec_start_def requested_def spec_ok_def split: if_splits)

lemma httpHdrRangeLowestOffset_loop_ok:
  assumes "\<forall>s\<in>set rng. spec_ok s" "0 \<le> clen" "off_range clen" "known_spec offset \<longrightarrow> 0 \<le> offset"
    "S = (if known_spec offset then {offset} else {}) \<union> spec_start clen ` set rng"
  shows "\<exists>low. httpHdrRangeLowestOffset_loop clen offset rng = Some low \<and>
    (if S = {} then low = 0 else low \<in> S \<and> (\<forall>x\<in>S. low \<le> x))"
  using assms(1,4,5)
proof (induction rng arbitrary: offset S)
  case (Cons s rng)
  have ok: "spec_ok s" "\<forall>s\<in>set rng. spec_ok s"
    using Cons.prems(1) by auto
  have low0: "\<forall>x\<in>S. 0 \<le> x"
    using Cons.prems spec_start_requested(1) by (auto split: if_splits)
  show ?case
  proof (cases "\<not> known_spec (rs_offset s) \<and> rs_length s > clen")
    case True
    then have "spec_start clen s = 0"
      by (simp add: spec_start_def)
    then show ?thesis
      using True Cons.prems(3) low0 by (auto simp: image_iff)
  next
    case False
    define offset' where "offset' = (if spec_start clen s < offset \<or> \<not> known_spec offset then spec_start clen s else offset)"
    have cur: "(if \<not> known_spec (rs_offset s) then off_t (clen - rs_length s) else Some (rs_offset s)) = Some (spec_start clen s)"
        "\<not> known_spec (rs_offset s) \<Longrightarrow> known_spec (rs_length s)"
      using ok(1) False assms(2,3) by (auto simp: spec_start_def spec_ok_def spec_defs split: if_splits)
    have unf: "httpHdrRangeLowestOffset_loop clen offset (s # rng) = httpHdrRangeLowestOffset_loop clen offset' rng"
      using False cur by (auto simp: offset'_def)
    have k: "known_spec offset'" "0 \<le> offset'"
      using spec_start_requested(1) [OF ok(1), of clen] Cons.prems(2) by (auto simp: offset'_def known_spec_def range_spec_unknown_def)
    define T where "T = {offset'} \<union> spec_start clen ` set rng"
    obtain low where low: "httpHdrRangeLowestOffset_loop clen offset' rng = Some low" "low \<in> T" "\<forall>x\<in>T. low \<le> x"
      using Cons.IH [OF ok(2), of offset' T] k by (auto simp: T_def)
    have le: "offset' \<le> spec_start clen s" "known_spec offset \<Longrightarrow> offset' \<le> offset" "T \<subseteq> S" "low \<le> offset'"
      using Cons.prems(3) low(3) by (auto simp: offset'_def T_def)
    have "low \<le> x" if x: "x \<in> S" for x
    proof -
      consider "x = spec_start clen s" | "known_spec offset" "x = offset" | "x \<in> T"
        using x unfolding Cons.prems(3) T_def by (cases "known_spec offset") auto
      then show ?thesis
        using le(1,2,4) low(3) by cases auto
    qed
    moreover have "low \<in> S"
      using low(2) le(3) by blast
    ultimately show ?thesis
      unfolding unf using low(1) by auto
  qed
qed simp

section \<open>Reading what was printed\<close>

lemma httpHeaderParseSize_dec:
  assumes "off_range v" "rest = [] \<or> \<not> isdigit (hd rest)"
  shows "httpHeaderParseSize (dec_int v @ rest) = (True, v)"
proof -
  have "dec_int v \<noteq> []"
    using dec_nat_digits(2) by (auto simp: dec_int_def)
  then show ?thesis
    using strto_dec_int [of "- (2 ^ 63)" v "2 ^ 63 - 1" rest] assms
    by (simp add: httpHeaderParseSize_def off_range_def)
qed

lemma dec_int_pos:
  assumes "0 \<le> v"
  shows "list_all isdigit (dec_int v)" "dec_int v \<noteq> []" "isdigit (hd (dec_int v))" "isdigit (last (dec_int v))"
    "45 \<notin> set (dec_int v)"
proof -
  obtain d ds where d: "dec_int v = d # ds" "isdigit d" "list_all isdigit ds"
    using dec_nat_hd [of "nat v"] assms by (auto simp: dec_int_def)
  then show "list_all isdigit (dec_int v)" "dec_int v \<noteq> []" "isdigit (hd (dec_int v))"
    by simp_all
  show "isdigit (last (dec_int v))"
    using d last_in_set [of "d # ds"] by (auto simp: list_all_iff)
  show "45 \<notin> set (dec_int v)"
    using d isdigit_not(2) by (auto simp: list_all_iff)
qed

text \<open>The three forms of a printed specification.\<close>

lemma spec_ok_cases:
  assumes "spec_ok s"
  obtains (suffix) n where "s = \<lparr>rs_offset = - 1, rs_length = n\<rparr>" "0 < n" "off_range n"
      "httpHdrRangeSpecPackInto s = Some (45 # dec_int n)"
  | (trailer) a where "s = \<lparr>rs_offset = a, rs_length = - 1\<rparr>" "0 \<le> a" "off_range a"
      "httpHdrRangeSpecPackInto s = Some (dec_int a @ [45])"
  | (range) a n where "s = \<lparr>rs_offset = a, rs_length = n\<rparr>" "0 \<le> a" "0 < n" "off_range a" "off_range (a + n)"
      "httpHdrRangeSpecPackInto s = Some (dec_int a @ [45] @ dec_int (a + n - 1))"
proof -
  have s: "s = \<lparr>rs_offset = rs_offset s, rs_length = rs_length s\<rparr>"
    by simp
  show ?thesis
  proof (cases "known_spec (rs_offset s)")
    case False
    with assms that(1) [of "rs_length s"] s show ?thesis
      by (auto simp: spec_ok_def httpHdrRangeSpecPackInto_def known_spec_def range_spec_unknown_def)
  next
    case known: True
    show ?thesis
    proof (cases "known_spec (rs_length s)")
      case False
      with known assms that(2) [of "rs_offset s"] s show ?thesis
        by (auto simp: spec_ok_def httpHdrRangeSpecPackInto_def known_spec_def range_spec_unknown_def)
    next
      case True
      with known assms that(3) [of "rs_offset s" "rs_length s"] s show ?thesis
        by (auto simp: spec_ok_def httpHdrRangeSpecPackInto_def off_t_def off_range_def)
    qed
  qed
qed

lemma httpHdrRangeSpecParseCreate_pack:
  assumes "spec_ok s" "rest = [] \<or> hd rest = 44"
  shows "\<exists>bs. httpHdrRangeSpecPackInto s = Some bs \<and>
    httpHdrRangeSpecParseCreate (bs @ rest) (int (length bs)) = Some (Some s)"
proof -
  have rest: "rest = [] \<or> \<not> isdigit (hd rest)" "\<not> isdigit 45"
    using assms(2) by (auto simp: isdigit_def)
  show ?thesis
    using assms(1)
  proof (cases rule: spec_ok_cases)
    case (suffix n)
    then show ?thesis
      using httpHeaderParseSize_dec [OF suffix(3) rest(1)] dec_int_pos(2) [of n]
      by (cases "dec_int n") (auto simp: httpHdrRangeSpecParseCreate_def range_spec_check_def known_spec_def range_spec_unknown_def cs_at_def)
  next
    case (trailer a)
    note d = dec_int_pos [OF trailer(2)]
    have p: "strchr (dec_int a @ 45 # rest) 45 = Some (length (dec_int a))"
      using d(5) by (rule strchr_append)
    have c: "cs_at (dec_int a @ 45 # rest) 0 = Some (hd (dec_int a))" "hd (dec_int a) \<noteq> 45" "0 < length (dec_int a)"
      using d(2,3) isdigit_not(2) by (cases "dec_int a"; force simp: cs_at_def)+
    have "httpHeaderParseSize (dec_int a @ 45 # rest) = (True, a)"
      using httpHeaderParseSize_dec [OF trailer(3), of "45 # rest"] rest(2) by simp
    then show ?thesis
      using trailer c(2,3) by (simp add: httpHdrRangeSpecParseCreate_def p c(1) range_spec_check_def known_spec_def range_spec_unknown_def)
  next
    case (range a n)
    define t where "t = dec_int (a + n - 1)"
    note d = dec_int_pos [OF range(2)] and e = dec_int_pos(2) [of "a + n - 1", folded t_def]
    have p: "strchr (dec_int a @ 45 # t @ rest) 45 = Some (length (dec_int a))"
      using d(5) by (rule strchr_append)
    have c: "cs_at (dec_int a @ 45 # t @ rest) 0 = Some (hd (dec_int a))" "hd (dec_int a) \<noteq> 45" "0 < length (dec_int a)" "0 < length t"
      using d(2,3) isdigit_not(2) e range(2,3) by (cases "dec_int a"; force simp: cs_at_def)+
    have "httpHeaderParseSize (dec_int a @ 45 # t @ rest) = (True, a)" "httpHeaderParseSize (t @ rest) = (True, a + n - 1)"
      using httpHeaderParseSize_dec [OF range(4), of "45 # t @ rest"] rest
        httpHeaderParseSize_dec [of "a + n - 1" rest] range(2,3,5) by (simp_all add: t_def off_range_def)
    then show ?thesis
      using range c(2-4) by (simp add: httpHdrRangeSpecParseCreate_def p c(1) t_def [symmetric] range_spec_check_def spec_defs)
  qed
qed

lemma pack_chars:
  assumes "spec_ok s" "httpHdrRangeSpecPackInto s = Some bs"
  shows "plain_item bs" "\<forall>c\<in>set bs. isdigit c \<or> c = 45"
proof -
  have "bs \<noteq> [] \<and> (\<forall>c\<in>set bs. isdigit c \<or> c = 45)"
    using assms(1)
  proof (cases rule: spec_ok_cases)
    case (suffix n)
    with assms(2) dec_int_pos(1) [of n] show ?thesis
      by (auto simp: list_all_iff)
  next
    case (trailer a)
    with assms(2) dec_int_pos(1) [of a] show ?thesis
      by (auto simp: list_all_iff)
  next
    case (range a n)
    with assms(2) dec_int_pos(1) [of a] dec_int_pos(1) [of "a + n - 1"] show ?thesis
      by (auto simp: list_all_iff)
  qed
  then show *: "\<forall>c\<in>set bs. isdigit c \<or> c = 45"
    by blast
  have ch: "c \<noteq> 34 \<and> c \<noteq> 11 \<and> c \<noteq> 12 \<and> c \<noteq> 0 \<and> c \<noteq> 44 \<and> \<not> sep c" if "c \<in> set bs" for c
    using * that isdigit_not [of c] by (auto simp: sep_def isspace_def isdigit_def)
  then show "plain_item bs"
    using \<open>bs \<noteq> [] \<and> _\<close> hd_in_set [of bs] last_in_set [of bs] unfolding plain_item_def plain_def by blast
qed

lemma httpHdrRangePackInto_ok:
  assumes "\<forall>s\<in>set rng. spec_ok s"
  shows "\<exists>out. httpHdrRangePackInto rng = Some out \<and> (out = [] \<or> hd out = 44) \<and> (\<forall>c\<in>set out. isdigit c \<or> c = 45 \<or> c = 44)"
  using assms
proof (induction rng)
  case (Cons s rng)
  then obtain out bs where "httpHdrRangePackInto rng = Some out" "\<forall>c\<in>set out. isdigit c \<or> c = 45 \<or> c = 44"
      "httpHdrRangeSpecPackInto s = Some bs" "\<forall>c\<in>set bs. isdigit c \<or> c = 45"
    using httpHdrRangeSpecParseCreate_pack [of s "[]"] pack_chars(2) [of s] by auto
  then show ?case
    by auto
qed simp

lemma httpHdrRangeParse_loop_pack:
  assumes "string_ok str" "s_buf str = Some buf" "\<forall>s\<in>set rng. spec_ok s" "httpHdrRangePackInto rng = Some out"
    "pos \<le> s_len str" "drop pos (string_val str) = out"
  shows "httpHdrRangeParse_loop str (Some pos) specs = Some (specs @ rng)"
  using assms(3-)
proof (induction rng arbitrary: pos out specs)
  case Nil
  then show ?case
    using strListGetItem_eq(1) [OF assms(1), of pos "Some pos"] assms(2)
    by (subst httpHdrRangeParse_loop.simps) simp
next
  case (Cons s rng)
  have buf: "c_str buf = Some (string_val str)"
    using assms(1,2) by (cases rule: string_okE) (auto simp: StringNull_def)
  obtain rest where rest: "httpHdrRangePackInto rng = Some rest" "rest = [] \<or> hd rest = 44"
    using httpHdrRangePackInto_ok [of rng] Cons.prems(1) by auto
  obtain bs where bs: "httpHdrRangeSpecPackInto s = Some bs"
      "httpHdrRangeSpecParseCreate (bs @ rest) (int (length bs)) = Some (Some s)"
    using httpHdrRangeSpecParseCreate_pack [of s rest] Cons.prems(1) rest(2) by auto
  have it: "plain_item bs" "bs \<noteq> []"
    using pack_chars(1) [OF _ bs(1)] Cons.prems(1) by (auto simp: plain_item_def)
  have "drop pos (string_val str) = 44 # bs @ rest"
    using Cons.prems(2,4) bs(1) rest(1) by simp
  then have t: "dropWhile sep (drop pos (string_val str)) = bs @ rest"
    using plain_item_trim(1) [OF it(1), of rest] by (simp add: sep_def)
  define item where "item = s_len str - length (bs @ rest)"
  have g: "strListGetItem str 44 (Some pos) = Some (True, item, length bs, Some (item + length bs))"
      "item + length bs \<le> s_len str" "drop item (string_val str) = bs @ rest"
    using strListGetItem_eq [OF assms(1) _ Cons.prems(3), of "Some pos", unfolded t] assms(2) it
      plain_item_len [OF it(1) rest(2)] plain_item_trim(2) [OF it(1)] by (simp_all add: item_def)
  have "drop (item + length bs) (string_val str) = rest"
    using g(3) by (metis append_eq_conv_conj add.commute drop_drop)
  then have "httpHdrRangeParse_loop str (Some (item + length bs)) (specs @ [s]) = Some ((specs @ [s]) @ rng)"
    using Cons.IH [of rest "item + length bs" "specs @ [s]"] Cons.prems(1) rest(1) g(2) by auto
  then show ?case
    using g(1,3) assms(2) buf bs(2) by (subst httpHdrRangeParse_loop.simps) simp
qed

lemma bytes_eq: "bytes_of ''bytes='' = [98, 121, 116, 101, 115, 61]" "bytes_of ''bytes '' = [98, 121, 116, 101, 115, 32]"
  by (simp_all add: bytes_of_def)

section \<open>Properties\<close>

text \<open>C19.
  Canonization of specifications that make sense never fails: every specification left is non-empty
  and inside the body, together they cover exactly the bytes asked for, and, unless merging is
  compiled in, they are the satisfiable ones in the order of the request.
\<close>

theorem httpHdrRangeCanonize_correct:
  assumes "\<forall>s\<in>set rng. spec_ok s" "0 \<le> clen" "off_range clen"
  shows "\<exists>specs. httpHdrRangeCanonize merging rng clen = Some (specs, specs \<noteq> []) \<and>
    (\<forall>s\<in>set specs. in_body clen s) \<and> \<Union>(spec_bytes ` set specs) = \<Union>(requested clen ` set rng) \<and>
    (\<not> merging \<longrightarrow> map spec_bytes specs = filter (\<lambda>b. b \<noteq> {}) (map (requested clen) rng))"
proof -
  obtain goods where g: "canonize_specs rng clen = Some goods" "\<forall>s\<in>set goods. in_body clen s"
      "map spec_bytes goods = filter (\<lambda>b. b \<noteq> {}) (map (requested clen) rng)"
    using canonize_specs_ok [OF assms] by blast
  obtain specs where specs: "canonize_merge merging goods [] = Some specs" "\<forall>s\<in>set specs. in_body clen s"
      "\<Union>(spec_bytes ` set specs) = \<Union>(spec_bytes ` set goods)" "\<not> merging \<longrightarrow> specs = goods"
    using canonize_merge_ok [of goods "[]" clen merging] g(2) assms(3) by auto
  have "\<Union>(spec_bytes ` set goods) = \<Union>(set (map spec_bytes goods))"
    by simp
  also have "\<dots> = \<Union>(requested clen ` set rng)"
    unfolding g(3) by auto
  finally show ?thesis
    using specs g assms(2) by (simp add: httpHdrRangeCanonize_def)
qed

theorem httpHdrRangeCanonize_correct_witness:
  "\<exists>specs. httpHdrRangeCanonize False [\<lparr>rs_offset = 0, rs_length = 5\<rparr>, \<lparr>rs_offset = - 1, rs_length = 3\<rparr>] 10 = Some (specs, specs \<noteq> []) \<and>
     map spec_bytes specs = [{0..<5}, {7..<10}]"
  using httpHdrRangeCanonize_correct [of "[\<lparr>rs_offset = 0, rs_length = 5\<rparr>, \<lparr>rs_offset = - 1, rs_length = 3\<rparr>]" 10 False]
  by (auto simp: spec_ok_def requested_def spec_defs)

text \<open>C35.
  The header value that the printer writes, behind the unit that it leaves out, is read back as the
  same specifications; the value as it is written, without the unit, is refused.
\<close>

theorem httpHdrRange_roundtrip:
  assumes "\<forall>s\<in>set rng. spec_ok s" "httpHdrRangePackInto rng = Some out"
    "string_ok str" "string_val str = bytes_of ''bytes='' @ out" "string_ok str'" "string_val str' = out" "out \<noteq> []"
  shows "httpHdrRangeParseCreate str = Some (Some rng) \<and> httpHdrRangeParseCreate str' = Some None"
proof -
  obtain buf where buf: "s_buf str = Some buf" "c_str buf = Some (string_val str)"
    using assms(3,4) by (cases rule: string_okE) (auto simp: StringNull_def string_val_def bytes_eq)
  obtain buf' where buf': "s_buf str' = Some buf'" "c_str buf' = Some out"
    using assms(5-7) by (cases rule: string_okE) (auto simp: StringNull_def string_val_def)
  have "s_len str = 6 + length out"
    using string_ok_len [OF assms(3)] assms(4) by (simp add: bytes_eq)
  then have "httpHdrRangeParse_loop str (Some 6) [] = Some rng"
    using httpHdrRangeParse_loop_pack [OF assms(3) buf(1) assms(1,2), of 6 "[]"] assms(4) by (simp add: bytes_eq)
  moreover have "rng \<noteq> []"
    using assms(2,7) by auto
  moreover have "hd out = 44"
    using httpHdrRangePackInto_ok [OF assms(1)] assms(2,7) by auto
  ultimately show ?thesis
    using buf buf' assms(4,7)
    by (cases out) (auto simp: httpHdrRangeParseCreate_def httpHdrRangeParseInit_def strncasecmp_eq_def bytes_eq tolower_def)
qed

text \<open>C36.
  A request can stop the process: the value \<open>bytes=--1\<close> is accepted, as a specification of which
  neither position is known, and canonizing that fails an assertion for every length.
\<close>

theorem httpHdrRange_double_minus:
  assumes "string_ok str" "string_val str = bytes_of ''bytes=--1''"
  shows "httpHdrRangeParseCreate str = Some (Some [\<lparr>rs_offset = - 1, rs_length = - 1\<rparr>]) \<and>
    httpHdrRangeCanonize merging [\<lparr>rs_offset = - 1, rs_length = - 1\<rparr>] clen = None"
proof -
  obtain buf where buf: "s_buf str = Some buf" "c_str buf = Some (string_val str)"
    using assms by (cases rule: string_okE) (auto simp: StringNull_def string_val_def bytes_of_def)
  have v: "string_val str = [98, 121, 116, 101, 115, 61, 45, 45, 49]" "s_len str = 9"
    using assms(2) string_ok_len [OF assms(1)] by (simp_all add: bytes_of_def)
  have "strListGetItem str 44 (Some 6) = Some (True, 6, 3, Some 9)"
    using strListGetItem_eq(1) [OF assms(1), of 6 "Some 6"] buf(1) by (simp add: v sep_def rtrim_def isspace_def)
  moreover have "strListGetItem str 44 (Some 9) = Some (False, 9, 0, Some 9)"
    using strListGetItem_eq(1) [OF assms(1), of 9 "Some 9"] buf(1) by (simp add: v)
  moreover have "httpHdrRangeSpecParseCreate [45, 45, 49] 3 = Some (Some \<lparr>rs_offset = - 1, rs_length = - 1\<rparr>)"
    by (simp add: httpHdrRangeSpecParseCreate_def httpHeaderParseSize_def strto_def isspace_def isdigit_def dec_value_def
        clamp_def range_spec_check_def known_spec_def range_spec_unknown_def cs_at_def)
  ultimately have "httpHdrRangeParse_loop str (Some 6) [] = Some [\<lparr>rs_offset = - 1, rs_length = - 1\<rparr>]"
    using buf by (simp add: httpHdrRangeParse_loop.simps [of _ "Some 6"] httpHdrRangeParse_loop.simps [of _ "Some 9"] v)
  then have "httpHdrRangeParseCreate str = Some (Some [\<lparr>rs_offset = - 1, rs_length = - 1\<rparr>])"
    using buf by (simp add: httpHdrRangeParseCreate_def httpHdrRangeParseInit_def v strncasecmp_eq_def bytes_eq)
  then show ?thesis
    by (simp add: httpHdrRangeCanonize_def httpHdrRangeSpecCanonize_def known_spec_def range_spec_unknown_def)
qed

lemma dec_int_digit: "0 \<le> v \<Longrightarrow> v < 10 \<Longrightarrow> dec_int v = [48 + of_nat (nat v)]"
  by (simp add: dec_int_def dec_nat.simps)

theorem httpHdrRange_roundtrip_witness:
  "httpHdrRangeParseCreate (ex_string (bytes_of ''bytes=,2-4,5-'')) =
     Some (Some [\<lparr>rs_offset = 2, rs_length = 3\<rparr>, \<lparr>rs_offset = 5, rs_length = - 1\<rparr>])"
proof -
  let ?rng = "[\<lparr>rs_offset = 2, rs_length = 3\<rparr>, \<lparr>rs_offset = 5, rs_length = - 1\<rparr>]"
  have "httpHdrRangePackInto ?rng = Some (bytes_of '',2-4,5-'')"
    by (simp add: httpHdrRangeSpecPackInto_def dec_int_digit spec_defs bytes_of_def)
  then show ?thesis
    using httpHdrRange_roundtrip [of ?rng "bytes_of '',2-4,5-''" "ex_string (bytes_of ''bytes=,2-4,5-'')" "ex_string (bytes_of '',2-4,5-'')"]
      ex_string_ok [of "bytes_of ''bytes=,2-4,5-''"] ex_string_ok [of "bytes_of '',2-4,5-''"]
    by (simp add: bytes_of_def spec_ok_def spec_defs)
qed

theorem httpHdrRange_double_minus_witness:
  "httpHdrRangeParseCreate (ex_string (bytes_of ''bytes=--1'')) = Some (Some [\<lparr>rs_offset = - 1, rs_length = - 1\<rparr>]) \<and>
   httpHdrRangeCanonize False [\<lparr>rs_offset = - 1, rs_length = - 1\<rparr>] 100 = None"
  using httpHdrRange_double_minus [of "ex_string (bytes_of ''bytes=--1'')" False 100] ex_string_ok [of "bytes_of ''bytes=--1''"]
  by (simp add: bytes_of_def)

text \<open>C37.
  The two tests for requests that are too complex to serve: after canonization the test is exactly
  whether the specifications are out of order or overlap, and the guess made before the length is
  known never refuses a request whose specifications can all be satisfied in order.
\<close>

theorem httpHdrRange_complex:
  assumes "\<forall>s\<in>set rng. spec_ok s \<and> requested clen s \<noteq> {}" "0 \<le> clen" "off_range clen"
    "httpHdrRangeCanonize False rng clen = Some (specs, valid)"
  shows "httpHdrRangeIsComplex specs = Some (\<not> sorted_wrt before specs) \<and>
    (httpHdrRangeWillBeComplex rng = Some True \<longrightarrow> httpHdrRangeIsComplex specs = Some True)"
proof -
  obtain goods where g: "canonize_specs rng clen = Some goods" "\<forall>s\<in>set goods. in_body clen s"
    using canonize_specs_ok [of rng clen] assms(1-3) by blast
  have "specs = goods"
    using assms(2,4) g(1,2) canonize_merge_ok [of goods "[]" clen False] assms(3) by (auto simp: httpHdrRangeCanonize_def)
  moreover have "\<forall>s\<in>set goods. 0 \<le> rs_offset s"
    using g(2) by (simp add: in_body_def)
  ultimately show ?thesis
    using httpHdrRangeIsComplex_loop_eq [OF g(2) assms(3), of 0]
      httpHdrRangeWillBeComplex_loop_ok [of 0 rng clen goods] assms(1-3) g(1)
    by (auto simp: httpHdrRangeIsComplex_def httpHdrRangeWillBeComplex_def)
qed

theorem httpHdrRange_complex_witness:
  "httpHdrRangeIsComplex [\<lparr>rs_offset = 5, rs_length = 2\<rparr>, \<lparr>rs_offset = 0, rs_length = 3\<rparr>] = Some True"
proof -
  let ?rng = "[\<lparr>rs_offset = 5, rs_length = 2\<rparr>, \<lparr>rs_offset = 0, rs_length = 3\<rparr>]"
  have "httpHdrRangeCanonize False ?rng 10 = Some (?rng, True)"
    by (simp add: httpHdrRangeCanonize_def httpHdrRangeSpecCanonize_def httpHdrRangeSpecMergeWith_def spec_defs)
  then show ?thesis
    using httpHdrRange_complex [of ?rng 10 ?rng True] by (simp add: spec_ok_def requested_def spec_defs before_def)
qed

text \<open>C38.
  The lowest offset, from where a transfer has to start, is the least of the positions at which the
  specifications start, and zero without specifications. No byte asked for is before it, and when
  every specification asks for some byte, it is itself one of the bytes asked for.
\<close>

theorem httpHdrRangeLowestOffset_bound:
  assumes "\<forall>s\<in>set rng. spec_ok s" "0 \<le> clen" "off_range clen"
  shows "\<exists>low. httpHdrRangeLowestOffset rng clen = Some low \<and>
    low = (if rng = [] then 0 else Min (spec_start clen ` set rng)) \<and>
    (\<forall>s\<in>set rng. \<forall>b\<in>requested clen s. low \<le> b) \<and>
    (rng \<noteq> [] \<and> (\<forall>s\<in>set rng. requested clen s \<noteq> {}) \<longrightarrow> (\<exists>s\<in>set rng. low \<in> requested clen s))"
proof -
  define S where "S = spec_start clen ` set rng"
  obtain low where low: "httpHdrRangeLowestOffset rng clen = Some low" "if S = {} then low = 0 else low \<in> S \<and> (\<forall>x\<in>S. low \<le> x)"
    using httpHdrRangeLowestOffset_loop_ok [OF assms, of range_spec_unknown S]
    by (auto simp: httpHdrRangeLowestOffset_def known_spec_def S_def)
  have "finite S" "S = {} \<longleftrightarrow> rng = []"
    by (simp_all add: S_def)
  then have "low = (if rng = [] then 0 else Min S)"
    using low(2) by (auto intro: Min_eqI [symmetric])
  moreover have "low \<le> b" if "s \<in> set rng" "b \<in> requested clen s" for s b
  proof -
    have "low \<le> spec_start clen s"
      using low(2) that(1) by (auto simp: S_def split: if_splits)
    then show ?thesis
      using spec_start_requested(2) [OF _ that(2)] assms(1) that(1) by force
  qed
  moreover have "\<exists>s\<in>set rng. low \<in> requested clen s" if ne: "rng \<noteq> []" and all: "\<forall>s\<in>set rng. requested clen s \<noteq> {}"
  proof -
    obtain s where "s \<in> set rng" "low = spec_start clen s"
      using low(2) ne by (auto simp: S_def)
    then show ?thesis
      using spec_start_requested(3) assms(1) all by blast
  qed
  ultimately show ?thesis
    using low(1) unfolding S_def by blast
qed

theorem httpHdrRangeLowestOffset_bound_witness:
  "httpHdrRangeLowestOffset [\<lparr>rs_offset = 5, rs_length = 2\<rparr>, \<lparr>rs_offset = - 1, rs_length = 7\<rparr>] 10 = Some 3"
  using httpHdrRangeLowestOffset_bound [of "[\<lparr>rs_offset = 5, rs_length = 2\<rparr>, \<lparr>rs_offset = - 1, rs_length = 7\<rparr>]" 10]
  by (simp add: spec_ok_def requested_def spec_start_def spec_defs)

text \<open>A specification without an offset hides the known offsets before it.\<close>

lemma httpHdrRangeFirstOffset_hidden:
  "httpHdrRangeFirstOffset [\<lparr>rs_offset = 0, rs_length = 5\<rparr>, \<lparr>rs_offset = - 1, rs_length = 3\<rparr>] = - 1"
  by (simp add: httpHdrRangeFirstOffset_def known_spec_def range_spec_unknown_def)

text \<open>C39.
  A content range that is printed with a known position is read back; one that is printed without a
  position is refused, because the printer leaves out the unit in that case.
\<close>

theorem httpHdrContRange_roundtrip:
  assumes "spec_ok (cr_spec cr)" "known_spec (rs_offset (cr_spec cr))" "known_spec (rs_length (cr_spec cr))"
    "off_range (cr_elength cr)" "0 \<le> cr_elength cr \<or> \<not> known_spec (cr_elength cr)"
  shows "\<exists>out. httpHdrContRangePackInto cr = Some out \<and> httpHdrContRangeParseCreate out = Some (Some cr)"
proof -
  obtain a n where an: "cr_spec cr = \<lparr>rs_offset = a, rs_length = n\<rparr>" "0 \<le> a" "0 < n" "off_range a" "off_range (a + n)"
    using assms(1-3) by (cases rule: spec_ok_cases) (auto simp: known_spec_def range_spec_unknown_def)
  define t where "t = dec_int (a + n - 1)"
  define u where "u = (if known_spec (cr_elength cr) then dec_int (cr_elength cr) else [42])"
  define str where "str = dec_int a @ 45 # t @ 47 # u"
  have nd: "\<not> isdigit 45" "\<not> isdigit 47"
    by (simp_all add: isdigit_def)
  note d = dec_int_pos [OF an(2)]
  have e: "list_all isdigit t"
    using dec_int_pos(1) [of "a + n - 1"] an(2,3) by (simp add: t_def)
  have n47: "47 \<notin> set (dec_int a @ 45 # t)"
    using d(1) e isdigit_not(7) by (auto simp: list_all_iff)
  define q where "q = length (dec_int a @ 45 # t)"
  have p47: "strchr str 47 = Some q"
    using strchr_append [OF n47, of u] by (simp add: str_def q_def)
  have p45: "strchr str 45 = Some (length (dec_int a))"
    unfolding str_def using d(5) by (rule strchr_append)
  have c: "cs_at str 0 = Some (hd (dec_int a))" "hd (dec_int a) \<noteq> 42" "t \<noteq> []"
    using d(2,3) isdigit_not(6) dec_int_pos(2) [of "a + n - 1"] an(2,3)
    by (cases "dec_int a"; force simp: cs_at_def str_def t_def)+
  have "httpHeaderParseSize str = (True, a)" "httpHeaderParseSize (t @ 47 # u) = (True, a + n - 1)"
    using httpHeaderParseSize_dec [OF an(4), of "45 # t @ 47 # u"] nd httpHeaderParseSize_dec [of "a + n - 1" "47 # u"] an(2,3,5)
    by (simp_all add: str_def t_def off_range_def)
  then have spec: "httpHdrRangeRespSpecParseInit str (int q) = Some (\<lparr>rs_offset = a, rs_length = n\<rparr>, True)"
  proof -
    have "0 < length (dec_int a)" "0 < length t"
      using d(2) c(3) by simp_all
    then have "\<not> int q < 2" "int (length (dec_int a) + 1) < int q"
      unfolding q_def length_append list.size by linarith+
    moreover have "drop (length (dec_int a) + 1) str = t @ 47 # u"
      by (simp add: str_def)
    ultimately show ?thesis
      using c an(2,3,5) \<open>httpHeaderParseSize str = _\<close> \<open>httpHeaderParseSize (t @ 47 # u) = _\<close>
      by (simp add: httpHdrRangeRespSpecParseInit_def p45 Let_def spec_defs)
  qed
  have len: "cs_at str (q + 1) = cs_at u 0" "drop (q + 1) str = u"
    using cs_at_append [of "dec_int a @ 45 # t @ [47]" u] by (simp_all add: str_def q_def)
  have u: "(cs_at u 0 = Some 42 \<and> \<not> known_spec (cr_elength cr)) \<or>
      (\<exists>x. cs_at u 0 = Some x \<and> x \<noteq> 42 \<and> httpHeaderParseSize u = (True, cr_elength cr))"
    using httpHeaderParseSize_dec [OF assms(4), of "[]"] dec_int_pos(2,3) [of "cr_elength cr"] assms(5) isdigit_not(6)
    by (cases "dec_int (cr_elength cr)") (auto simp: u_def cs_at_def)
  have "httpHdrContRangeParseCreate (bytes_of ''bytes '' @ str) = Some (Some cr)"
    using u c(1,2) an(1)
    by (auto simp: httpHdrContRangeParseCreate_def httpHdrContRangeParseInit_def bytes_eq strncasecmp_eq_def p47 spec len [simplified] len
        Let_def httpHdrContRangeCreate_def known_spec_def)
  moreover have "httpHdrContRangePackInto cr = Some (bytes_of ''bytes '' @ str)"
    using an by (simp add: httpHdrContRangePackInto_def httpHdrRangeRespSpecPackInto_def str_def u_def t_def spec_defs)
  ultimately show ?thesis
    by blast
qed

theorem httpHdrContRange_roundtrip_witness:
  "\<exists>out. httpHdrContRangePackInto \<lparr>cr_spec = \<lparr>rs_offset = 2, rs_length = 3\<rparr>, cr_elength = 10\<rparr> = Some out \<and>
     httpHdrContRangeParseCreate out = Some (Some \<lparr>cr_spec = \<lparr>rs_offset = 2, rs_length = 3\<rparr>, cr_elength = 10\<rparr>)"
  using httpHdrContRange_roundtrip [of "\<lparr>cr_spec = \<lparr>rs_offset = 2, rs_length = 3\<rparr>, cr_elength = 10\<rparr>"]
  by (simp add: spec_ok_def spec_defs)

lemma httpHdrContRange_unknown_refused:
  "\<not> known_spec (rs_offset (cr_spec cr)) \<Longrightarrow> httpHdrContRangePackInto cr = Some out \<Longrightarrow> httpHdrContRangeParseCreate out = Some None"
  by (auto simp: httpHdrContRangePackInto_def httpHdrRangeRespSpecPackInto_def httpHdrContRangeParseCreate_def
      httpHdrContRangeParseInit_def bytes_eq strncasecmp_eq_def tolower_def)

end
