(* ===== verification/Callback_Data.thy ===== *)
theory Callback_Data
  imports Lusca_Prelude
begin

unbundle bit_operations_syntax

text \<open>
  Registered callback data (\<^verbatim>\<open>libcb/cbdata.c\<close>), built without \<open>HASHED_CBDATA\<close> and \<open>CBDATA_DEBUG\<close>. An
  object carries a flag, a lock count, its type and a cookie; it is released when it has been freed
  and holds no lock. The state is extensible: the event queue adds its own fields. The free
  functions of the types are other parts of the program; the model records their calls. The counters
  of locks and of objects are \<open>int\<close>s, and counting past their range is a failure. The number of
  types is a natural number: a type is a static variable of the program, so there are few.
\<close>

section \<open>State\<close>

record cbdata =
  cb_valid :: bool
  cb_locks :: int
  cb_type :: nat
  cb_y :: u64

record cbdata_index_struct =
  ci_pool :: bool
  ci_free_func :: "nat option"

text \<open>
  The heap of objects, by the address given to the client; the number of objects; the table of
  types, in which \<open>None\<close> is an entry that was never written; and the calls of free functions.
\<close>

record cb_state =
  cb_heap :: "addr \<Rightarrow> cbdata option"
  cbdataCount :: int
  cbdata_types :: nat
  cbdata_index :: "cbdata_index_struct option list"
  cb_calls :: "(nat \<times> addr) list"

definition CBDATA_FIRST_CUSTOM_TYPE :: nat where
  "CBDATA_FIRST_CUSTOM_TYPE = 1000"

definition CBDATA_COOKIE :: "addr \<Rightarrow> u64" where
  "CBDATA_COOKIE p = of_nat p XOR 0xDEADBEEF"

section \<open>Types\<close>

text \<open>
  \<open>xrealloc\<close> keeps the entries there are and leaves the others unspecified; \<open>memset\<close> clears the ones
  from the former number of types on.
\<close>

definition cbdataInitType :: "nat \<Rightarrow> nat option \<Rightarrow> 'a cb_state_scheme \<Rightarrow> 'a cb_state_scheme option" where
  "cbdataInitType ty free_func s = do {
     let s = (if ty \<ge> cbdata_types s
              then s\<lparr>cbdata_index :=
                       map (\<lambda>i. if i \<ge> cbdata_types s then Some \<lparr>ci_pool = False, ci_free_func = None\<rparr>
                                else if i < length (cbdata_index s) then cbdata_index s ! i else None) [0..<ty + 1],
                     cbdata_types := ty + 1\<rparr>
              else s);
     entry \<leftarrow> arr_get (cbdata_index s) ty;
     entry \<leftarrow> entry;
     Some (if ci_pool entry then s
           else s\<lparr>cbdata_index := (cbdata_index s)[ty := Some \<lparr>ci_pool = True, ci_free_func = free_func\<rparr>]\<rparr>)
   }"

definition cbdataAddType :: "nat \<Rightarrow> nat option \<Rightarrow> 'a cb_state_scheme \<Rightarrow> (nat \<times> 'a cb_state_scheme) option" where
  "cbdataAddType ty free_func s =
     (if ty \<noteq> 0 then Some (ty, s)
      else do {
        let ty = cbdata_types s;
        s \<leftarrow> cbdataInitType ty free_func s;
        Some (ty, s)
      })"

definition cbdataInit :: "'a cb_state_scheme \<Rightarrow> 'a cb_state_scheme" where
  "cbdataInit s = s\<lparr>cbdata_types := CBDATA_FIRST_CUSTOM_TYPE + 1\<rparr>"

text \<open>\<open>CBDATA_INIT_TYPE\<close>: the type is registered when it is used first; it has no free function.\<close>

definition CBDATA_INIT_TYPE :: "nat \<Rightarrow> 'a cb_state_scheme \<Rightarrow> (nat \<times> 'a cb_state_scheme) option" where
  "CBDATA_INIT_TYPE ty s = (if ty \<noteq> 0 then Some (ty, s) else cbdataAddType ty None s)"

section \<open>Objects\<close>

text \<open>The entry of a type; the pool of a type without one is \<open>NULL\<close>, which the pool code refuses.\<close>

definition cbdata_type_entry :: "nat \<Rightarrow> 'a cb_state_scheme \<Rightarrow> cbdata_index_struct option" where
  "cbdata_type_entry ty s = do {
     entry \<leftarrow> arr_get (cbdata_index s) ty;
     entry \<leftarrow> entry;
     c_assert (ci_pool entry);
     Some entry
   }"

text \<open>The address \<open>p\<close> is the choice of the memory allocator.\<close>

definition cbdataInternalAlloc :: "nat \<Rightarrow> addr \<Rightarrow> 'a cb_state_scheme \<Rightarrow> 'a cb_state_scheme option" where
  "cbdataInternalAlloc ty p s = do {
     c_assert (ty > 0 \<and> ty < cbdata_types s);
     _ \<leftarrow> cbdata_type_entry ty s;
     let c = \<lparr>cb_valid = True, cb_locks = 0, cb_type = ty, cb_y = CBDATA_COOKIE p\<rparr>;
     c_assert (int_range (cbdataCount s + 1));
     Some (s\<lparr>cb_heap := (cb_heap s)(p \<mapsto> c), cbdataCount := cbdataCount s + 1\<rparr>)
   }"

text \<open>The release of an object: its free function, if there is one, then its memory.\<close>

definition cbdata_release :: "addr \<Rightarrow> cbdata \<Rightarrow> 'a cb_state_scheme \<Rightarrow> 'a cb_state_scheme option" where
  "cbdata_release p c s = do {
     entry \<leftarrow> cbdata_type_entry (cb_type c) s;
     Some (s\<lparr>cbdataCount := cbdataCount s - 1,
             cb_calls := cb_calls s @ (case ci_free_func entry of Some f \<Rightarrow> [(f, p)] | None \<Rightarrow> []),
             cb_heap := (cb_heap s)(p := None)\<rparr>)
   }"

definition cbdataInternalFree :: "addr \<Rightarrow> 'a cb_state_scheme \<Rightarrow> 'a cb_state_scheme option" where
  "cbdataInternalFree p s = do {
     c \<leftarrow> cb_heap s p;
     c_assert (cb_y c = CBDATA_COOKIE p);
     c_assert (cb_valid c);
     let c = c\<lparr>cb_valid := False\<rparr>;
     if cb_locks c \<noteq> 0 then Some (s\<lparr>cb_heap := (cb_heap s)(p \<mapsto> c)\<rparr>)
     else cbdata_release p c s
   }"

definition cbdataLocked :: "addr \<Rightarrow> 'a cb_state_scheme \<Rightarrow> int option" where
  "cbdataLocked p s = do {
     c \<leftarrow> cb_heap s p;
     c_assert (cb_y c = CBDATA_COOKIE p);
     c_assert (cb_locks c \<noteq> 0 \<or> cb_valid c);
     Some (cb_locks c)
   }"

definition cbdataLock :: "addr option \<Rightarrow> 'a cb_state_scheme \<Rightarrow> 'a cb_state_scheme option" where
  "cbdataLock p s =
     (case p of
        None \<Rightarrow> Some s
      | Some p \<Rightarrow> do {
          c \<leftarrow> cb_heap s p;
          c_assert (cb_y c = CBDATA_COOKIE p);
          c_assert (cb_locks c \<noteq> 0 \<or> cb_valid c);
          c_assert (int_range (cb_locks c + 1));
          Some (s\<lparr>cb_heap := (cb_heap s)(p \<mapsto> c\<lparr>cb_locks := cb_locks c + 1\<rparr>)\<rparr>)
        })"

definition cbdataUnlock :: "addr option \<Rightarrow> 'a cb_state_scheme \<Rightarrow> 'a cb_state_scheme option" where
  "cbdataUnlock p s =
     (case p of
        None \<Rightarrow> Some s
      | Some p \<Rightarrow> do {
          c \<leftarrow> cb_heap s p;
          c_assert (cb_y c = CBDATA_COOKIE p);
          c_assert (cb_locks c > 0);
          let c = c\<lparr>cb_locks := cb_locks c - 1\<rparr>;
          let s = s\<lparr>cb_heap := (cb_heap s)(p \<mapsto> c)\<rparr>;
          if cb_valid c \<or> cb_locks c \<noteq> 0 then Some s else cbdata_release p c s
        })"

definition cbdataValid :: "addr option \<Rightarrow> 'a cb_state_scheme \<Rightarrow> bool option" where
  "cbdataValid p s =
     (case p of
        None \<Rightarrow> Some True
      | Some p \<Rightarrow> do {
          c \<leftarrow> cb_heap s p;
          c_assert (cb_y c = CBDATA_COOKIE p);
          c_assert (cb_locks c > 0);
          Some (cb_valid c)
        })"

section \<open>The contract\<close>

text \<open>
  The abstract state of the registry is the set of valid objects and the multiset of locks: an
  object is allocated as long as it is in one of them. The invariant relates a state to it.
\<close>

definition cb_alive :: "addr set \<Rightarrow> addr multiset \<Rightarrow> addr set" where
  "cb_alive A L = A \<union> set_mset L"

definition cb_inv :: "'a cb_state_scheme \<Rightarrow> addr set \<Rightarrow> addr multiset \<Rightarrow> bool" where
  "cb_inv s A L \<longleftrightarrow> finite A \<and> dom (cb_heap s) = cb_alive A L \<and> cbdataCount s = int (card (cb_alive A L)) \<and>
     (\<forall>p c. cb_heap s p = Some c \<longrightarrow>
        cb_y c = CBDATA_COOKIE p \<and> cb_locks c = int (count L p) \<and> (cb_valid c \<longleftrightarrow> p \<in> A) \<and>
        cbdata_type_entry (cb_type c) s \<noteq> None)"

lemma cb_inv_objD:
  assumes "cb_inv s A L" "cb_heap s p = Some c"
  shows "cb_y c = CBDATA_COOKIE p" "cb_locks c = int (count L p)" "cb_valid c \<longleftrightarrow> p \<in> A"
    "cbdata_type_entry (cb_type c) s \<noteq> None"
  using assms unfolding cb_inv_def by blast+

lemma cb_inv_finite: "cb_inv s A L \<Longrightarrow> finite A"
  by (simp add: cb_inv_def)

lemma cb_invD:
  assumes "cb_inv s A L" "p \<in> A \<or> p \<in># L"
  obtains c where "cb_heap s p = Some c" "cb_y c = CBDATA_COOKIE p" "cb_locks c = int (count L p)" "cb_valid c \<longleftrightarrow> p \<in> A"
    "cbdata_type_entry (cb_type c) s \<noteq> None"
proof -
  have "p \<in> dom (cb_heap s)"
    using assms by (auto simp: cb_inv_def cb_alive_def)
  then obtain c where "cb_heap s p = Some c"
    by auto
  with assms(1) that show ?thesis
    unfolding cb_inv_def by blast
qed

lemma cbdata_type_entry_cong [simp]:
  "cbdata_type_entry ty (s\<lparr>cb_heap := h\<rparr>) = cbdata_type_entry ty s"
  "cbdata_type_entry ty (s\<lparr>cbdataCount := n\<rparr>) = cbdata_type_entry ty s"
  "cbdata_type_entry ty (s\<lparr>cb_calls := cs\<rparr>) = cbdata_type_entry ty s"
  by (simp_all add: cbdata_type_entry_def)

lemma finite_alive: "finite A \<Longrightarrow> finite (cb_alive A L)"
  by (simp add: cb_alive_def)

lemma cbdataInternalAlloc_ok:
  assumes "cb_inv s A L" "p \<notin> cb_alive A L" "0 < ty" "ty < cbdata_types s" "cbdata_type_entry ty s \<noteq> None"
    "int_range (cbdataCount s + 1)"
  shows "\<exists>s'. cbdataInternalAlloc ty p s = Some s' \<and> cb_inv s' (insert p A) L \<and> map_option cb_type (cb_heap s' p) = Some ty"
proof -
  have "count L p = 0" "cb_alive (insert p A) L = insert p (cb_alive A L)" "p \<notin> A"
    using assms(2) by (auto simp: cb_alive_def not_in_iff)
  then show ?thesis
    using assms finite_alive [of A L]
    by (auto simp: cbdataInternalAlloc_def cb_inv_def Let_def)
qed

lemma cbdataInternalAlloc_full: "\<not> int_range (cbdataCount s + 1) \<Longrightarrow> cbdataInternalAlloc ty p s = None"
  by (cases "cbdata_type_entry ty s") (simp_all add: cbdataInternalAlloc_def Let_def c_assert_def)

text \<open>Changing one object keeps the invariant when its new fields fit the new abstract state.\<close>

lemma cb_inv_update:
  assumes "cb_inv s A L" "cb_alive A' L' = cb_alive A L" "p \<in> cb_alive A L"
    "cb_y c = CBDATA_COOKIE p" "cb_locks c = int (count L' p)" "cb_valid c \<longleftrightarrow> p \<in> A'"
    "cbdata_type_entry (cb_type c) s \<noteq> None" "finite A'"
    "\<And>q. q \<noteq> p \<Longrightarrow> count L' q = count L q \<and> (q \<in> A' \<longleftrightarrow> q \<in> A)"
  shows "cb_inv (s\<lparr>cb_heap := (cb_heap s)(p \<mapsto> c)\<rparr>) A' L'"
proof -
  have "dom ((cb_heap s)(p \<mapsto> c)) = cb_alive A' L'"
    using assms(1-3) by (auto simp: cb_inv_def)
  moreover have "cb_y d = CBDATA_COOKIE q \<and> cb_locks d = int (count L' q) \<and> (cb_valid d \<longleftrightarrow> q \<in> A') \<and>
      cbdata_type_entry (cb_type d) s \<noteq> None" if "((cb_heap s)(p \<mapsto> c)) q = Some d" for q d
  proof (cases "q = p")
    case False
    then have "cb_heap s q = Some d"
      using that by simp
    from cb_inv_objD [OF assms(1) this] assms(9) [OF False] show ?thesis
      by simp
  qed (use that assms(4-7) in auto)
  ultimately show ?thesis
    using assms(1,2,8) by (simp add: cb_inv_def)
qed

lemma cbdataLock_ok:
  assumes "cb_inv s A L" "p \<in> cb_alive A L" "int_range (int (count L p) + 1)"
  shows "\<exists>s'. cbdataLock (Some p) s = Some s' \<and> cb_inv s' A (add_mset p L)"
proof -
  obtain c where c: "cb_heap s p = Some c" "cb_y c = CBDATA_COOKIE p" "cb_locks c = int (count L p)" "cb_valid c \<longleftrightarrow> p \<in> A"
      "cbdata_type_entry (cb_type c) s \<noteq> None"
    using assms cb_invD [OF assms(1)] by (auto simp: cb_alive_def)
  have l: "cb_locks c \<noteq> 0 \<or> cb_valid c" "cb_alive A (add_mset p L) = cb_alive A L"
    using assms(2) c(3,4) by (auto simp: cb_alive_def)
  then have "cbdataLock (Some p) s = Some (s\<lparr>cb_heap := (cb_heap s)(p \<mapsto> c\<lparr>cb_locks := cb_locks c + 1\<rparr>)\<rparr>)"
    using c(1,2) assms(3) [folded c(3)] by (auto simp: cbdataLock_def)
  moreover have "cb_inv (s\<lparr>cb_heap := (cb_heap s)(p \<mapsto> c\<lparr>cb_locks := cb_locks c + 1\<rparr>)\<rparr>) A (add_mset p L)"
    by (rule cb_inv_update [OF assms(1)]) (use assms(2) c l(2) cb_inv_finite [OF assms(1)] in \<open>simp_all\<close>)
  ultimately show ?thesis
    by blast
qed

lemma cbdataLock_full:
  assumes "cb_inv s A L" "p \<in> cb_alive A L" "\<not> int_range (int (count L p) + 1)"
  shows "cbdataLock (Some p) s = None"
proof -
  obtain c where "cb_heap s p = Some c" "cb_locks c = int (count L p)"
    using assms(2) cb_invD [OF assms(1)] by (auto simp: cb_alive_def)
  then show ?thesis
    using assms(3) by (simp add: cbdataLock_def c_assert_def)
qed

text \<open>Releasing an object takes it out of both parts of the abstract state.\<close>

lemma cb_inv_remove:
  assumes "cb_inv s A L" "p \<in> cb_alive A L"
  shows "cb_inv (s\<lparr>cbdataCount := cbdataCount s - 1, cb_calls := cs, cb_heap := (cb_heap s)(p := None)\<rparr>)
    (A - {p}) (filter_mset (\<lambda>q. q \<noteq> p) L)"
proof -
  have fin: "finite (cb_alive A L)"
    using assms(1) by (simp add: cb_inv_def finite_alive)
  have al: "cb_alive (A - {p}) (filter_mset (\<lambda>q. q \<noteq> p) L) = cb_alive A L - {p}"
    by (auto simp: cb_alive_def)
  have "int (card (cb_alive A L - {p})) = int (card (cb_alive A L)) - 1"
    using card_Suc_Diff1 [OF fin assms(2)] by simp
  with assms(1) al show ?thesis
    by (simp add: cb_inv_def)
qed

lemma cbdata_release_ok:
  assumes "cb_inv s A L" "p \<in> cb_alive A L" "cbdata_type_entry (cb_type c) s \<noteq> None"
  shows "\<exists>s'. cbdata_release p c (s\<lparr>cb_heap := (cb_heap s)(p := x)\<rparr>) = Some s' \<and>
    cb_inv s' (A - {p}) (filter_mset (\<lambda>q. q \<noteq> p) L)"
  using assms(3) cb_inv_remove [OF assms(1,2)] by (auto simp: cbdata_release_def)

lemma cbdataUnlock_ok:
  assumes "cb_inv s A L" "p \<in># L"
  shows "\<exists>s'. cbdataUnlock (Some p) s = Some s' \<and> cb_inv s' A (L - {#p#})"
proof -
  obtain c where c: "cb_heap s p = Some c" "cb_y c = CBDATA_COOKIE p" "cb_locks c = int (count L p)" "cb_valid c \<longleftrightarrow> p \<in> A"
      "cbdata_type_entry (cb_type c) s \<noteq> None"
    using assms cb_invD [OF assms(1)] by auto
  define c' where "c' = c\<lparr>cb_locks := cb_locks c - 1\<rparr>"
  have pos: "0 < cb_locks c"
    using assms(2) c(3) by simp
  show ?thesis
  proof (cases "cb_valid c' \<or> cb_locks c' \<noteq> 0")
    case True
    have eq: "cbdataUnlock (Some p) s = Some (s\<lparr>cb_heap := (cb_heap s)(p \<mapsto> c')\<rparr>)"
      using c(1,2) pos True by (simp add: cbdataUnlock_def c'_def)
    define n where "n = count L p"
    have n: "count L p = n" "0 < n"
      using assms(2) by (simp_all add: n_def)
    have "p \<in> A \<or> 1 < n"
      using True c(4) c(3) [unfolded n(1)] n(2) by (auto simp: c'_def)
    then have "p \<in> A \<or> p \<in># L - {#p#}"
      using n(1) by (simp add: in_diff_count)
    moreover have "set_mset L = insert p (set_mset (L - {#p#}))"
      using insert_DiffM [OF assms(2)] by (metis set_mset_add_mset_insert)
    ultimately have al: "cb_alive A (L - {#p#}) = cb_alive A L"
      by (auto simp: cb_alive_def)
    have "cb_inv (s\<lparr>cb_heap := (cb_heap s)(p \<mapsto> c')\<rparr>) A (L - {#p#})"
    proof (rule cb_inv_update [OF assms(1)])
      show "cb_locks c' = int (count (L - {#p#}) p)"
        using c(3) n by (simp add: c'_def of_nat_diff)
    qed (use al c(2,4,5) assms(2) cb_inv_finite [OF assms(1)] in \<open>simp_all add: c'_def cb_alive_def\<close>)
    with eq show ?thesis
      by blast
  next
    case False
    then have one: "p \<notin> A" "count L p = 1"
      using c(3,4) pos by (auto simp: c'_def)
    have "filter_mset (\<lambda>q. q \<noteq> p) L = L - {#p#}" "A - {p} = A"
      using one by (auto intro: multiset_eqI)
    moreover have "cbdataUnlock (Some p) s = cbdata_release p c' (s\<lparr>cb_heap := (cb_heap s)(p \<mapsto> c')\<rparr>)"
      using c(1,2) pos False by (simp add: cbdataUnlock_def c'_def Let_def)
    ultimately show ?thesis
      using cbdata_release_ok [OF assms(1), of p c' "Some c'"] assms(2) c(5) by (simp add: cb_alive_def c'_def)
  qed
qed

lemma cbdataInternalFree_ok:
  assumes "cb_inv s A L" "p \<in> A"
  shows "\<exists>s'. cbdataInternalFree p s = Some s' \<and> cb_inv s' (A - {p}) L"
proof -
  obtain c where c: "cb_heap s p = Some c" "cb_y c = CBDATA_COOKIE p" "cb_locks c = int (count L p)" "cb_valid c \<longleftrightarrow> p \<in> A"
      "cbdata_type_entry (cb_type c) s \<noteq> None"
    using cb_invD [OF assms(1), of p] assms(2) by blast
  define c' where "c' = c\<lparr>cb_valid := False\<rparr>"
  show ?thesis
  proof (cases "p \<in># L")
    case True
    then have eq: "cbdataInternalFree p s = Some (s\<lparr>cb_heap := (cb_heap s)(p \<mapsto> c')\<rparr>)"
      using c assms(2) by (simp add: cbdataInternalFree_def c'_def)
    have "cb_alive (A - {p}) L = cb_alive A L"
      using True by (auto simp: cb_alive_def)
    then have "cb_inv (s\<lparr>cb_heap := (cb_heap s)(p \<mapsto> c')\<rparr>) (A - {p}) L"
      by (rule cb_inv_update [OF assms(1)]) (use \<open>cb_alive (A - {p}) L = _\<close> c True cb_inv_finite [OF assms(1)] in \<open>simp_all add: c'_def cb_alive_def\<close>)
    with eq show ?thesis
      by blast
  next
    case False
    then have "filter_mset (\<lambda>q. q \<noteq> p) L = L"
      by (intro multiset_eqI) (auto simp: not_in_iff)
    moreover have "cbdataInternalFree p s = cbdata_release p c' s"
      using c assms(2) False by (simp add: cbdataInternalFree_def c'_def count_eq_zero_iff)
    ultimately show ?thesis
      using cbdata_release_ok [OF assms(1), of p c' "cb_heap s p", simplified] assms(2) c(5) by (simp add: cb_alive_def c'_def)
  qed
qed

lemma cbdataValid_ok: "cb_inv s A L \<Longrightarrow> p \<in># L \<Longrightarrow> cbdataValid (Some p) s = Some (p \<in> A)"
  by (erule cb_invD) (auto simp: cbdataValid_def)

lemma cbdataLocked_ok: "cb_inv s A L \<Longrightarrow> p \<in> cb_alive A L \<Longrightarrow> cbdataLocked p s = Some (int (count L p))"
  by (erule cb_invD) (auto simp: cbdataLocked_def cb_alive_def)

text \<open>
  Registering a type: the table covers the types given out, and grows by one. The objects there are
  keep their entries.
\<close>

definition cb_types_ok :: "'a cb_state_scheme \<Rightarrow> bool" where
  "cb_types_ok s \<longleftrightarrow> 0 < cbdata_types s \<and> length (cbdata_index s) \<le> cbdata_types s"

lemma cbdataAddType_ok:
  assumes "cb_inv s A L" "cb_types_ok s"
  shows "\<exists>s'. cbdataAddType 0 f s = Some (cbdata_types s, s') \<and> cb_inv s' A L \<and> cb_types_ok s' \<and>
    cbdata_types s < cbdata_types s' \<and> cbdata_type_entry (cbdata_types s) s' \<noteq> None \<and>
    (\<forall>ty. cbdata_type_entry ty s \<noteq> None \<longrightarrow> cbdata_type_entry ty s' \<noteq> None) \<and>
    (\<exists>i n. s' = s\<lparr>cbdata_index := i, cbdata_types := n\<rparr>)"
proof -
  define n where "n = cbdata_types s"
  define idx where "idx = (map (\<lambda>i. if i \<ge> n then Some \<lparr>ci_pool = False, ci_free_func = None\<rparr>
      else if i < length (cbdata_index s) then cbdata_index s ! i else None) [0..<n + 1])[n := Some \<lparr>ci_pool = True, ci_free_func = f\<rparr>]"
  define s' where "s' = s\<lparr>cbdata_index := idx, cbdata_types := n + 1\<rparr>"
  have n: "0 < n" "length (cbdata_index s) \<le> n"
    using assms(2) by (simp_all add: cb_types_ok_def n_def)
  have idx: "length idx = n + 1" "idx ! n = Some \<lparr>ci_pool = True, ci_free_func = f\<rparr>"
      "\<And>i. i < length (cbdata_index s) \<Longrightarrow> idx ! i = cbdata_index s ! i"
    using n(2) by (simp_all add: idx_def nth_append)
  have add: "cbdataAddType 0 f s = Some (n, s')"
    by (simp add: cbdataAddType_def cbdataInitType_def s'_def idx_def n_def [symmetric] del: upt_Suc)
  have old: "cbdata_type_entry ty s' = cbdata_type_entry ty s" if "cbdata_type_entry ty s \<noteq> None" for ty
  proof -
    have "ty < length (cbdata_index s)"
      using that by (auto simp: cbdata_type_entry_def bind_eq_None_conv arr_get_def split: if_splits)
    then show ?thesis
      using idx n(2) by (simp add: cbdata_type_entry_def s'_def)
  qed
  have "cbdata_type_entry n s' \<noteq> None"
    using idx by (simp add: cbdata_type_entry_def s'_def)
  moreover have "cb_inv s' A L"
    using assms(1) old by (auto simp: cb_inv_def s'_def)
  moreover have "cb_types_ok s'"
    using idx(1) by (simp add: cb_types_ok_def s'_def)
  moreover have "n < cbdata_types s'" "\<exists>i n. s' = s\<lparr>cbdata_index := i, cbdata_types := n\<rparr>"
    by (auto simp: s'_def)
  ultimately show ?thesis
    using add old by (auto simp: n_def)
qed

lemma CBDATA_INIT_TYPE_ok:
  assumes "cb_inv s A L" "cb_types_ok s" "ty \<noteq> 0 \<longrightarrow> ty < cbdata_types s \<and> cbdata_type_entry ty s \<noteq> None"
  shows "\<exists>ty' s'. CBDATA_INIT_TYPE ty s = Some (ty', s') \<and> cb_inv s' A L \<and> cb_types_ok s' \<and> 0 < ty' \<and>
    ty' < cbdata_types s' \<and> cbdata_type_entry ty' s' \<noteq> None \<and> cbdata_types s \<le> cbdata_types s' \<and>
    (\<forall>ty. cbdata_type_entry ty s \<noteq> None \<longrightarrow> cbdata_type_entry ty s' \<noteq> None) \<and>
    (\<exists>i n. s' = s\<lparr>cbdata_index := i, cbdata_types := n\<rparr>)"
proof (cases "ty = 0")
  case True
  then show ?thesis
    using cbdataAddType_ok [OF assms(1,2), of None] assms(2) by (force simp: CBDATA_INIT_TYPE_def cb_types_ok_def)
next
  case False
  then have "CBDATA_INIT_TYPE ty s = Some (ty, s)" "0 < ty"
    by (simp_all add: CBDATA_INIT_TYPE_def)
  moreover have "\<exists>i n. s = s\<lparr>cbdata_index := i, cbdata_types := n\<rparr>"
    by (intro exI [of _ "cbdata_index s"] exI [of _ "cbdata_types s"]) simp
  ultimately show ?thesis
    using assms False by blast
qed

text \<open>What allocation and release change of the state.\<close>

lemma cbdataInternalAlloc_frame:
  "cbdataInternalAlloc ty p s = Some s' \<Longrightarrow> \<exists>h n. s' = s\<lparr>cb_heap := h, cbdataCount := n\<rparr>"
  by (auto simp: cbdataInternalAlloc_def bind_eq_Some_conv Let_def)

lemma cbdataInternalFree_frame:
  assumes "cbdataInternalFree p s = Some s'"
  shows "\<exists>h n c. s' = s\<lparr>cb_heap := h, cbdataCount := n, cb_calls := c\<rparr>"
proof -
  have "s' = s\<lparr>cb_heap := cb_heap s', cbdataCount := cbdataCount s', cb_calls := cb_calls s'\<rparr>"
    using assms by (cases s)
      (auto simp: cbdataInternalFree_def cbdata_release_def bind_eq_Some_conv Let_def split: if_splits)
  then show ?thesis
    by blast
qed

section \<open>The interface\<close>

text \<open>
  What a client of the registry relies on, over the abstract state: references can be taken to
  objects that are alive, a reference that is held keeps the object, and validity is decided by
  whether the owner has freed the object.
\<close>

locale callback_registry =
  fixes inv :: "'s \<Rightarrow> addr set \<Rightarrow> addr multiset \<Rightarrow> bool"
    and lock :: "addr option \<Rightarrow> 's \<Rightarrow> 's option" and unlock :: "addr option \<Rightarrow> 's \<Rightarrow> 's option"
    and valid :: "addr option \<Rightarrow> 's \<Rightarrow> bool option"
  assumes lock_ok: "inv s A L \<Longrightarrow> p \<in> cb_alive A L \<Longrightarrow> int_range (int (count L p) + 1) \<Longrightarrow> \<exists>s'. lock (Some p) s = Some s' \<and> inv s' A (add_mset p L)"
    and lock_full: "inv s A L \<Longrightarrow> p \<in> cb_alive A L \<Longrightarrow> \<not> int_range (int (count L p) + 1) \<Longrightarrow> lock (Some p) s = None"
    and unlock_ok: "inv s A L \<Longrightarrow> p \<in># L \<Longrightarrow> \<exists>s'. unlock (Some p) s = Some s' \<and> inv s' A (L - {#p#})"
    and valid_ok: "inv s A L \<Longrightarrow> p \<in># L \<Longrightarrow> valid (Some p) s = Some (p \<in> A)"
    and null_ok: "lock None s = Some s" "unlock None s = Some s" "valid None s = Some True"
begin

text \<open>A pointer that may be \<open>NULL\<close> is a reference when it is not.\<close>

lemma lock_opt:
  assumes "inv s A L" "set_option a \<subseteq> cb_alive A L" "\<forall>p\<in>set_option a. int_range (int (count L p) + 1)"
  shows "\<exists>s'. lock a s = Some s' \<and> inv s' A (mset_set (set_option a) + L)"
  using assms lock_ok [OF assms(1)] by (cases a) (auto simp: null_ok)

lemma lock_opt_some:
  assumes "inv s A L" "set_option a \<subseteq> cb_alive A L" "lock a s = Some s'"
  shows "inv s' A (mset_set (set_option a) + L)"
proof -
  have "int_range (int (count L p) + 1)" if "p \<in> set_option a" for p
    using lock_full [OF assms(1), of p] assms(2,3) that by (cases a) auto
  then show ?thesis
    using lock_opt [OF assms(1,2)] assms(3) by auto
qed

lemma unlock_opt:
  assumes "inv s A (mset_set (set_option a) + L)"
  shows "\<exists>s'. unlock a s = Some s' \<and> inv s' A L"
proof (cases a)
  case (Some p)
  with assms unlock_ok [of s A "add_mset p L" p] show ?thesis
    by auto
qed (use assms in \<open>simp add: null_ok\<close>)

lemma valid_opt:
  assumes "inv s A (mset_set (set_option a) + L)"
  shows "valid a s = Some (set_option a \<subseteq> A)"
  using assms valid_ok [OF assms] by (cases a) (auto simp: null_ok)

text \<open>
  The sequence the registry is made for: take a reference, let others work, look whether the object
  is still valid, drop the reference. It never touches memory that was released.
\<close>

lemma lock_valid_unlock:
  assumes "inv s A L" "p \<in> cb_alive A L" "lock (Some p) s = Some s1" "inv s2 A2 L2" "p \<in># L2"
  shows "\<exists>s3. valid (Some p) s2 = Some (p \<in> A2) \<and> unlock (Some p) s2 = Some s3 \<and> inv s3 A2 (L2 - {#p#})"
  using valid_ok [OF assms(4,5)] unlock_ok [OF assms(4,5)] by blast

end

interpretation cbr: callback_registry "cb_inv :: 'a cb_state_scheme \<Rightarrow> addr set \<Rightarrow> addr multiset \<Rightarrow> bool" cbdataLock cbdataUnlock cbdataValid
  by unfold_locales
    (auto intro: cbdataLock_ok cbdataLock_full cbdataUnlock_ok simp: cbdataValid_ok, auto simp: cbdataLock_def cbdataUnlock_def cbdataValid_def)

section \<open>Properties\<close>

text \<open>C8.
  The registry refines its abstract specification: objects are allocated exactly while they are
  valid or locked. Allocating an object of a registered type at a free address gives a valid object
  of that type without locks; locking, unlocking and freeing change the abstract state as
  specified, and an object is reported valid exactly until its owner frees it. These calls fail only
  where a counter would leave the range of an \<open>int\<close>, and then they do.
\<close>

theorem cbdata_refines:
  assumes "cb_inv s A L" "p \<in> cb_alive A L" "q \<notin> cb_alive A L" "0 < ty" "ty < cbdata_types s" "cbdata_type_entry ty s \<noteq> None"
  shows "dom (cb_heap s) = cb_alive A L \<and> cbdataCount s = int (card (cb_alive A L)) \<and>
    (if card (cb_alive A L) < 2 ^ 31 - 1
     then \<exists>s'. cbdataInternalAlloc ty q s = Some s' \<and> cb_inv s' (insert q A) L \<and> map_option cb_type (cb_heap s' q) = Some ty
     else cbdataInternalAlloc ty q s = None) \<and>
    cbdataLocked p s = Some (int (count L p)) \<and>
    (if count L p < 2 ^ 31 - 1 then \<exists>s'. cbdataLock (Some p) s = Some s' \<and> cb_inv s' A (add_mset p L)
     else cbdataLock (Some p) s = None) \<and>
    (p \<in># L \<longrightarrow> cbdataValid (Some p) s = Some (p \<in> A) \<and>
       (\<exists>s'. cbdataUnlock (Some p) s = Some s' \<and> cb_inv s' A (L - {#p#}))) \<and>
    (p \<in> A \<longrightarrow> (\<exists>s'. cbdataInternalFree p s = Some s' \<and> cb_inv s' (A - {p}) L))"
proof -
  have inv: "dom (cb_heap s) = cb_alive A L" "cbdataCount s = int (card (cb_alive A L))"
    using assms(1) by (simp_all add: cb_inv_def)
  have fit: "int_range (cbdataCount s + 1) \<longleftrightarrow> card (cb_alive A L) < 2 ^ 31 - 1"
      "int_range (int (count L p) + 1) \<longleftrightarrow> count L p < 2 ^ 31 - 1"
    unfolding inv(2) int_range_def by simp_all
  have "if card (cb_alive A L) < 2 ^ 31 - 1
     then \<exists>s'. cbdataInternalAlloc ty q s = Some s' \<and> cb_inv s' (insert q A) L \<and> map_option cb_type (cb_heap s' q) = Some ty
     else cbdataInternalAlloc ty q s = None"
    using cbdataInternalAlloc_ok [OF assms(1,3-6)] cbdataInternalAlloc_full [of s ty q] unfolding fit(1) by argo
  moreover have "if count L p < 2 ^ 31 - 1 then \<exists>s'. cbdataLock (Some p) s = Some s' \<and> cb_inv s' A (add_mset p L)
     else cbdataLock (Some p) s = None"
    using cbr.lock_ok [OF assms(1,2)] cbr.lock_full [OF assms(1,2)] unfolding fit(2) by argo
  ultimately show ?thesis
    using inv cbr.unlock_ok [OF assms(1)] cbr.valid_ok [OF assms(1)] cbdataLocked_ok [OF assms(1,2)]
      cbdataInternalFree_ok [OF assms(1)] by blast
qed

text \<open>An empty registry with one type that has a free function, and an object in it.\<close>

definition ex_registry :: cb_state where
  "ex_registry = \<lparr>cb_heap = (\<lambda>_. None), cbdataCount = 0, cbdata_types = 2,
     cbdata_index = [None, Some \<lparr>ci_pool = True, ci_free_func = Some 9\<rparr>], cb_calls = []\<rparr>"

lemma ex_registry_inv: "cb_inv ex_registry {} {#}" "cbdata_type_entry 1 ex_registry \<noteq> None"
  by (simp_all add: cb_inv_def ex_registry_def cb_alive_def cbdata_type_entry_def)

theorem cbdata_refines_witness:
  "\<exists>s. cbdataInternalAlloc 1 64 ex_registry = Some s \<and> (\<exists>s'. cbdataLock (Some 64) s = Some s') \<and>
     (\<exists>s'. cbdataInternalAlloc 1 72 s = Some s' \<and> cb_inv s' {72, 64} {#}) \<and>
     (\<exists>s'. cbdataInternalFree 64 s = Some s' \<and> cb_inv s' {} {#})"
proof -
  obtain s where s: "cbdataInternalAlloc 1 64 ex_registry = Some s" "cb_inv s {64} {#}"
    using cbdataInternalAlloc_ok [OF ex_registry_inv(1), of 64 1] ex_registry_inv(2)
    by (auto simp: cb_alive_def ex_registry_def int_range_def)
  have "1 < cbdata_types s" "cbdata_type_entry 1 s \<noteq> None"
    using s(1) by (auto simp: cbdataInternalAlloc_def ex_registry_def cbdata_type_entry_def int_range_def)
  then show ?thesis
    using cbdata_refines [OF s(2), of 64 72 1] s(1) by (simp add: cb_alive_def) blast
qed

end
