(* ===== verification/Event_Queue.thy ===== *)
theory Event_Queue
  imports Complex_Main Callback_Data
begin

text \<open>
  The queue of timed events (\<^verbatim>\<open>libiapp/event.c\<close>), a client of the registry of callback data. The
  linked list of entries is a list in queue order. Times are real numbers instead of doubles;
  functions and names are identified by numbers and strings. A handler is a parameter: a function
  of its argument and the state, which may use the whole interface of the queue and the registry.
\<close>

section \<open>State\<close>

record ev_entry =
  ev_func :: nat
  ev_arg :: "addr option"
  ev_name :: string
  ev_when :: real
  ev_weight :: int
  ev_id :: int

record ev_state = cb_state +
  tasks :: "ev_entry list"
  run_id :: int
  last_event_ran :: "string option"
  current_dtime :: real

type_synonym handler = "nat \<Rightarrow> addr option \<Rightarrow> ev_state \<Rightarrow> ev_state option"

section \<open>Adding and deleting\<close>

text \<open>The loop of \<open>eventAdd\<close>: behind the last entry with the same or an earlier time.\<close>

fun event_insert :: "ev_entry \<Rightarrow> ev_entry list \<Rightarrow> ev_entry list" where
  "event_insert event [] = [event]"
| "event_insert event (e # E) = (if ev_when e > ev_when event then event # e # E else e # event_insert event E)"

definition eventAdd :: "string \<Rightarrow> nat \<Rightarrow> addr option \<Rightarrow> real \<Rightarrow> int \<Rightarrow> ev_state \<Rightarrow> ev_state option" where
  "eventAdd name func arg when weight s = do {
     let event = \<lparr>ev_func = func, ev_arg = arg, ev_name = name, ev_when = current_dtime s + when,
                  ev_weight = weight, ev_id = run_id s\<rparr>;
     s \<leftarrow> (case arg of Some p \<Rightarrow> cbdataLock (Some p) s | None \<Rightarrow> Some s);
     Some (s\<lparr>tasks := event_insert event (tasks s)\<rparr>)
   }"

text \<open>\<open>rnd\<close> is the value of \<open>drand48\<close>, between 0 and 1.\<close>

definition eventAddIsh :: "real \<Rightarrow> string \<Rightarrow> nat \<Rightarrow> addr option \<Rightarrow> real \<Rightarrow> int \<Rightarrow> ev_state \<Rightarrow> ev_state option" where
  "eventAddIsh rnd name func arg delta_ish weight s =
     (let delta_ish = (if delta_ish \<ge> 3 then let two_third = (2 * delta_ish) / 3 in two_third + (rnd * two_third)
                       else delta_ish)
      in eventAdd name func arg delta_ish weight s)"

text \<open>
  The loop of the two deletions: the first entry with the function and, if one is given, the
  argument. The result is \<open>None\<close> inside when there is no such entry.
\<close>

definition event_matches :: "nat \<Rightarrow> addr option \<Rightarrow> ev_entry \<Rightarrow> bool" where
  "event_matches func arg event \<longleftrightarrow> \<not> (ev_func event \<noteq> func \<or> arg \<noteq> None \<and> ev_arg event \<noteq> arg)"

fun event_take :: "nat \<Rightarrow> addr option \<Rightarrow> ev_entry list \<Rightarrow> (ev_entry \<times> ev_entry list) option" where
  "event_take func arg [] = None"
| "event_take func arg (event # E) =
     (if event_matches func arg event then Some (event, E)
      else map_option (\<lambda>(x, E). (x, event # E)) (event_take func arg E))"

definition eventDeleteNoAssert :: "nat \<Rightarrow> addr option \<Rightarrow> ev_state \<Rightarrow> ev_state option" where
  "eventDeleteNoAssert func arg s =
     (case event_take func arg (tasks s) of
        Some (event, E) \<Rightarrow> cbdataUnlock (ev_arg event) (s\<lparr>tasks := E\<rparr>)
      | None \<Rightarrow> Some s)"

definition eventDelete :: "nat \<Rightarrow> addr option \<Rightarrow> ev_state \<Rightarrow> ev_state option" where
  "eventDelete func arg s =
     (case event_take func arg (tasks s) of
        Some (event, E) \<Rightarrow> cbdataUnlock (ev_arg event) (s\<lparr>tasks := E\<rparr>)
      | None \<Rightarrow> do { c_assert (arg = None); Some s })"

text \<open>
  Removing all entries that satisfy a test, from the front, dropping their references; \<open>before\<close> are
  the entries that were passed. The test may look at the state, and it may fail.
\<close>

fun event_purge :: "(ev_entry \<Rightarrow> ev_state \<Rightarrow> bool option) \<Rightarrow> ev_entry list \<Rightarrow> ev_entry list \<Rightarrow> ev_state \<Rightarrow> ev_state option" where
  "event_purge test before [] s = Some s"
| "event_purge test before (event # E) s = do {
     b \<leftarrow> test event s;
     if b then do {
       s \<leftarrow> cbdataUnlock (ev_arg event) (s\<lparr>tasks := before @ E\<rparr>);
       event_purge test before E s
     }
     else event_purge test (before @ [event]) E s
   }"

definition eventConditionDelete :: "int \<Rightarrow> nat \<Rightarrow> (int \<Rightarrow> addr option \<Rightarrow> bool) \<Rightarrow> ev_state \<Rightarrow> ev_state option" where
  "eventConditionDelete fd func condition s =
     event_purge (\<lambda>event s. Some (ev_func event = func \<and> condition fd (ev_arg event))) [] (tasks s) s"

definition eventCleanup :: "ev_state \<Rightarrow> ev_state option" where
  "eventCleanup s =
     event_purge (\<lambda>event s. map_option (\<lambda>valid. \<not> valid) (cbdataValid (ev_arg event) s)) [] (tasks s) s"

text \<open>The arguments that \<open>eventTravel\<close> passes to its function, in order.\<close>

definition eventTravel :: "nat \<Rightarrow> ev_state \<Rightarrow> addr option list" where
  "eventTravel func s = map ev_arg (filter (\<lambda>event. ev_func event = func) (tasks s))"

definition eventFreeMemory :: "ev_state \<Rightarrow> ev_state option" where
  "eventFreeMemory s = event_purge (\<lambda>_ _. Some True) [] (tasks s) s"

definition eventFind :: "nat \<Rightarrow> addr option \<Rightarrow> ev_state \<Rightarrow> bool" where
  "eventFind func arg s = list_ex (\<lambda>event. ev_func event = func \<and> ev_arg event = arg) (tasks s)"

section \<open>Running\<close>

partial_function (option) eventRun_loop :: "handler \<Rightarrow> int \<Rightarrow> ev_state \<Rightarrow> ev_state option" where
  "eventRun_loop h weight s =
     (case tasks s of
        [] \<Rightarrow> Some s
      | event # E \<Rightarrow>
          if ev_when event > current_dtime s then Some s
          else if ev_id event = run_id s then Some s
          else if weight \<noteq> 0 then Some s
          else do {
            let s = s\<lparr>tasks := E\<rparr>;
            valid \<leftarrow> cbdataValid (ev_arg event) s;
            s \<leftarrow> cbdataUnlock (ev_arg event) s;
            if valid then do {
              let s = s\<lparr>last_event_ran := Some (ev_name event)\<rparr>;
              s \<leftarrow> h (ev_func event) (ev_arg event) s;
              eventRun_loop h (weight + ev_weight event) s
            }
            else eventRun_loop h weight s
          })"

definition eventRun :: "handler \<Rightarrow> ev_state \<Rightarrow> ev_state option" where
  "eventRun h s =
     (case tasks s of
        [] \<Rightarrow> Some s
      | event # _ \<Rightarrow>
          if ev_when event > current_dtime s then Some s
          else do {
            c_assert (int_range (run_id s + 1));
            eventRun_loop h 0 (s\<lparr>run_id := run_id s + 1\<rparr>)
          })"

definition eventNextTime :: "ev_state \<Rightarrow> int option" where
  "eventNextTime s =
     (case tasks s of
        [] \<Rightarrow> Some 10000
      | event # _ \<Rightarrow>
          let t = \<lceil>(ev_when event - current_dtime s) * 1000\<rceil> in
          if int_range t then Some t else None)"

section \<open>The invariant\<close>

text \<open>
  The references of the queue are the arguments of its entries; \<open>H\<close> are the references that others
  hold. The entries are in the order of their times, and none is from a later run.
\<close>

definition task_args :: "ev_entry list \<Rightarrow> addr multiset" where
  "task_args E = (\<Sum>e\<leftarrow>E. mset_set (set_option (ev_arg e)))"

definition by_time :: "ev_entry list \<Rightarrow> bool" where
  "by_time E \<longleftrightarrow> sorted_wrt (\<lambda>a b. ev_when a \<le> ev_when b) E"

definition ev_inv :: "ev_state \<Rightarrow> addr set \<Rightarrow> addr multiset \<Rightarrow> bool" where
  "ev_inv s A H \<longleftrightarrow> cb_inv s A (task_args (tasks s) + H) \<and> by_time (tasks s) \<and> (\<forall>e\<in>set (tasks s). ev_id e \<le> run_id s)"

lemma task_args_simps [simp]:
  "task_args [] = {#}" "task_args (e # E) = mset_set (set_option (ev_arg e)) + task_args E"
  "task_args (E @ F) = task_args E + task_args F"
  by (simp_all add: task_args_def)

lemma task_args_insert [simp]: "task_args (event_insert e E) = mset_set (set_option (ev_arg e)) + task_args E"
  by (induction E) auto

lemma set_event_insert [simp]: "set (event_insert e E) = insert e (set E)"
  by (induction E) auto

lemma by_time_insert: "by_time E \<Longrightarrow> by_time (event_insert e E)"
  by (induction E) (auto simp: by_time_def)

text \<open>The queue fields do not matter to the registry, and its operations leave them alone.\<close>

lemma cb_inv_fields [simp]:
  "cb_inv (s\<lparr>tasks := E\<rparr>) A L \<longleftrightarrow> cb_inv s A L"
  "cb_inv (s\<lparr>run_id := r\<rparr>) A L \<longleftrightarrow> cb_inv s A L"
  "cb_inv (s\<lparr>last_event_ran := n\<rparr>) A L \<longleftrightarrow> cb_inv s A L"
  "cb_inv (s\<lparr>current_dtime := t\<rparr>) A L \<longleftrightarrow> cb_inv s A L"
  by (simp_all add: cb_inv_def cbdata_type_entry_def)

definition same_queue :: "ev_state \<Rightarrow> ev_state \<Rightarrow> bool" where
  "same_queue s s' \<longleftrightarrow> tasks s' = tasks s \<and> run_id s' = run_id s \<and> current_dtime s' = current_dtime s"

lemma registry_same_queue:
  fixes s :: ev_state
  shows "cbdataLock a s = Some s' \<Longrightarrow> same_queue s s'" "cbdataUnlock a s = Some s' \<Longrightarrow> same_queue s s'"
    "cbdataInternalFree p s = Some s' \<Longrightarrow> same_queue s s'" "cbdataInternalAlloc ty p s = Some s' \<Longrightarrow> same_queue s s'"
  by (auto simp: cbdataLock_def cbdataUnlock_def cbdataInternalFree_def cbdataInternalAlloc_def cbdata_release_def same_queue_def
      bind_eq_Some_conv Let_def split: option.splits if_splits)

text \<open>How a call may change the queue, seen from a run: nothing old is added, and new entries come last.\<close>

definition old_tasks :: "ev_state \<Rightarrow> ev_entry list" where
  "old_tasks s = filter (\<lambda>e. ev_id e \<noteq> run_id s) (tasks s)"

definition young_last :: "ev_state \<Rightarrow> bool" where
  "young_last s \<longleftrightarrow>
     sorted_wrt (\<lambda>e x. ev_id e = run_id s \<longrightarrow> ev_id x = run_id s \<or> current_dtime s < ev_when x) (tasks s)"

definition evolves :: "ev_state \<Rightarrow> ev_state \<Rightarrow> bool" where
  "evolves s s' \<longleftrightarrow> run_id s' = run_id s \<and> current_dtime s' = current_dtime s \<and>
     length (old_tasks s') \<le> length (old_tasks s) \<and> set (old_tasks s') \<subseteq> set (old_tasks s) \<and>
     (young_last s \<longrightarrow> young_last s')"

lemma evolves_refl [simp]: "evolves s s"
  by (simp add: evolves_def)

lemma evolves_trans: "evolves s t \<Longrightarrow> evolves t u \<Longrightarrow> evolves s u"
  by (auto simp: evolves_def)

lemma evolves_same: "same_queue s s' \<Longrightarrow> evolves s s'"
  by (simp add: same_queue_def evolves_def old_tasks_def young_last_def)

lemma sorted_wrt_insert_event:
  assumes "sorted_wrt P E" "\<And>x. x \<in> set E \<Longrightarrow> \<not> ev_when x > ev_when e \<Longrightarrow> P x e"
    "\<And>x. x \<in> set E \<Longrightarrow> ev_when x > ev_when e \<Longrightarrow> P e x" "by_time E"
  shows "sorted_wrt P (event_insert e E)"
  using assms by (induction E) (auto simp: by_time_def)

lemma old_insert: "ev_id e = r \<Longrightarrow> filter (\<lambda>e. ev_id e \<noteq> r) (event_insert e E) = filter (\<lambda>e. ev_id e \<noteq> r) E"
  by (induction E) auto

section \<open>The operations keep the invariant\<close>

text \<open>Adding fails only when the counter of references to the argument is at its maximum.\<close>

lemma eventAdd_lock: "eventAdd name func arg when weight s \<noteq> None \<longleftrightarrow> cbdataLock arg s \<noteq> None"
  by (cases arg) (auto simp: eventAdd_def Let_def cbr.null_ok split: bind_splits)

lemma eventAdd_ok:
  assumes "ev_inv s A H" "set_option arg \<subseteq> cb_alive A (task_args (tasks s) + H)" "0 \<le> when"
    "eventAdd name func arg when weight s = Some s'"
  shows "ev_inv s' A H \<and> evolves s s'"
proof -
  define event where "event = \<lparr>ev_func = func, ev_arg = arg, ev_name = name, ev_when = current_dtime s + when,
      ev_weight = weight, ev_id = run_id s\<rparr>"
  obtain s1 where s1: "cbdataLock arg s = Some s1"
    using assms(4) eventAdd_lock [of name func arg "when" weight s] by auto
  have inv1: "cb_inv s1 A (mset_set (set_option arg) + (task_args (tasks s) + H))"
    using cbr.lock_opt_some [OF _ assms(2) s1] assms(1) by (simp add: ev_inv_def)
  have q: "tasks s1 = tasks s" "run_id s1 = run_id s" "current_dtime s1 = current_dtime s"
    using registry_same_queue(1) [OF s1] by (simp_all add: same_queue_def)
  define s2 where "s2 = s1\<lparr>tasks := event_insert event (tasks s)\<rparr>"
  have ev: "ev_arg event = arg" "ev_id event = run_id s" "ev_when event = current_dtime s + when"
    by (simp_all add: event_def)
  have "(case arg of Some p \<Rightarrow> cbdataLock (Some p) s | None \<Rightarrow> Some s) = cbdataLock arg s"
    by (cases arg) (simp_all add: cbr.null_ok)
  then have "eventAdd name func arg when weight s = Some s2"
    unfolding eventAdd_def Let_def event_def [symmetric] using s1 q(1) by (simp add: s2_def)
  then have "s' = s2"
    using assms(4) by simp
  moreover have "ev_inv s2 A H"
  proof -
    have "by_time (event_insert event (tasks s))" "\<forall>e\<in>set (tasks s). ev_id e \<le> run_id s"
      using assms(1) by (simp_all add: ev_inv_def by_time_insert)
    then show ?thesis
      using inv1 q(2) ev(1,2) by (simp add: ev_inv_def s2_def add.assoc)
  qed
  moreover have "evolves s s2"
  proof -
    have "young_last s2" if "young_last s"
      unfolding young_last_def s2_def
    proof (simp add: q, rule sorted_wrt_insert_event)
      show "by_time (tasks s)"
        using assms(1) by (simp add: ev_inv_def)
    qed (use that ev assms(3) in \<open>simp_all add: young_last_def\<close>)
    then show ?thesis
      using q old_insert [OF ev(2)] by (simp add: evolves_def old_tasks_def s2_def)
  qed
  ultimately show ?thesis
    by simp
qed

lemma event_take_split:
  "event_take func arg E = Some (event, F) \<Longrightarrow> \<exists>pre post. E = pre @ event # post \<and> F = pre @ post \<and> event_matches func arg event"
proof (induction E arbitrary: F)
  case (Cons e E)
  show ?case
  proof (cases "event_matches func arg e")
    case True
    with Cons.prems show ?thesis
      by (intro exI [of _ "[]"] exI [of _ E]) simp
  next
    case False
    with Cons.prems obtain G where "event_take func arg E = Some (event, G)" "F = e # G"
      by auto
    with Cons.IH obtain pre post where "E = pre @ event # post" "G = pre @ post" "event_matches func arg event"
      by blast
    with \<open>F = e # G\<close> show ?thesis
      by (intro exI [of _ "e # pre"] exI [of _ post]) simp
  qed
qed simp

lemma event_remove_ok:
  assumes "ev_inv s A H" "tasks s = pre @ event # post"
  shows "\<exists>s'. cbdataUnlock (ev_arg event) (s\<lparr>tasks := pre @ post\<rparr>) = Some s' \<and> ev_inv s' A H \<and> evolves s s' \<and> tasks s' = pre @ post"
proof -
  have "cb_inv (s\<lparr>tasks := pre @ post\<rparr>) A (mset_set (set_option (ev_arg event)) + (task_args (pre @ post) + H))"
    using assms by (simp add: ev_inv_def ac_simps)
  then obtain s' where s': "cbdataUnlock (ev_arg event) (s\<lparr>tasks := pre @ post\<rparr>) = Some s'" "cb_inv s' A (task_args (pre @ post) + H)"
    using cbr.unlock_opt by blast
  have q: "tasks s' = pre @ post" "run_id s' = run_id s" "current_dtime s' = current_dtime s"
    using registry_same_queue(2) [OF s'(1)] by (simp_all add: same_queue_def)
  have "by_time (pre @ post)"
    using assms by (auto simp: ev_inv_def by_time_def sorted_wrt_append)
  then have "ev_inv s' A H"
    using s'(2) q assms by (auto simp: ev_inv_def)
  moreover have "evolves s s'"
    using q assms(2) by (auto simp: evolves_def old_tasks_def young_last_def sorted_wrt_append)
  ultimately show ?thesis
    using s'(1) q(1) by blast
qed

lemma eventDeleteNoAssert_ok:
  assumes "ev_inv s A H"
  shows "\<exists>s'. eventDeleteNoAssert func arg s = Some s' \<and> ev_inv s' A H \<and> evolves s s'"
proof (cases "event_take func arg (tasks s)")
  case (Some x)
  then obtain event pre post where "x = (event, pre @ post)" "tasks s = pre @ event # post"
    using event_take_split by (metis surj_pair)
  with Some event_remove_ok [OF assms, of pre event post] show ?thesis
    by (auto simp: eventDeleteNoAssert_def)
qed (use assms in \<open>simp add: eventDeleteNoAssert_def\<close>)

lemma eventDelete_eq: "eventDelete func arg s = Some s' \<Longrightarrow> eventDeleteNoAssert func arg s = Some s'"
  by (auto simp: eventDelete_def eventDeleteNoAssert_def bind_eq_Some_conv split: option.splits)

lemma event_purge_ok:
  assumes "ev_inv s A H" "tasks s = pre @ E"
    "\<And>e s. ev_inv s A H \<Longrightarrow> e \<in> set (tasks s) \<Longrightarrow> test e s = Some (t e)"
  shows "\<exists>s'. event_purge test pre E s = Some s' \<and> ev_inv s' A H \<and> evolves s s' \<and> tasks s' = pre @ filter (\<lambda>e. \<not> t e) E"
  using assms(1,2)
proof (induction E arbitrary: pre s)
  case Nil
  then show ?case
    by simp
next
  case (Cons e E)
  have te: "test e s = Some (t e)"
    using assms(3) [OF Cons.prems(1), of e] Cons.prems(2) by simp
  show ?case
  proof (cases "t e")
    case True
    obtain s1 where s1: "cbdataUnlock (ev_arg e) (s\<lparr>tasks := pre @ E\<rparr>) = Some s1" "ev_inv s1 A H" "evolves s s1" "tasks s1 = pre @ E"
      using event_remove_ok [OF Cons.prems] by blast
    obtain s' where "event_purge test pre E s1 = Some s'" "ev_inv s' A H" "evolves s1 s'" "tasks s' = pre @ filter (\<lambda>e. \<not> t e) E"
      using Cons.IH [OF s1(2,4)] by blast
    then show ?thesis
      using te True s1 by (auto intro: evolves_trans)
  next
    case False
    then show ?thesis
      using te Cons.IH [of s "pre @ [e]"] Cons.prems by simp
  qed
qed

lemma cleanup_test:
  assumes "ev_inv s A H" "e \<in> set (tasks s)"
  shows "map_option (\<lambda>valid. \<not> valid) (cbdataValid (ev_arg e) s) = Some (\<not> set_option (ev_arg e) \<subseteq> A)"
proof -
  obtain pre post where "tasks s = pre @ e # post"
    using assms(2) by (meson split_list)
  then have "cb_inv s A (mset_set (set_option (ev_arg e)) + (task_args (pre @ post) + H))"
    using assms(1) by (simp add: ev_inv_def ac_simps)
  from cbr.valid_opt [OF this] show ?thesis
    by simp
qed

lemma eventConditionDelete_ok:
  assumes "ev_inv s A H"
  shows "\<exists>s'. eventConditionDelete fd func condition s = Some s' \<and> ev_inv s' A H \<and> evolves s s' \<and>
    tasks s' = filter (\<lambda>e. \<not> (ev_func e = func \<and> condition fd (ev_arg e))) (tasks s)"
  using event_purge_ok [OF assms, of "[]" "tasks s" _ "\<lambda>e. ev_func e = func \<and> condition fd (ev_arg e)"]
  by (auto simp: eventConditionDelete_def)

lemma eventCleanup_ok:
  assumes "ev_inv s A H"
  shows "\<exists>s'. eventCleanup s = Some s' \<and> ev_inv s' A H \<and> evolves s s' \<and>
    tasks s' = filter (\<lambda>e. set_option (ev_arg e) \<subseteq> A) (tasks s)"
  using event_purge_ok [OF assms, of "[]" "tasks s" _ "\<lambda>e. \<not> set_option (ev_arg e) \<subseteq> A"] cleanup_test
  by (auto simp: eventCleanup_def)

section \<open>What a handler may do\<close>

text \<open>
  The calls of the interface as steps of the state, together with the set \<open>A\<close> of objects that are
  valid and the references \<open>H\<close> that the callers hold. The side conditions are the protocol of the
  registry: lock what is alive, unlock what one has locked, free what is valid. Events are added
  for now or later.
\<close>

inductive ev_step :: "ev_state \<times> addr set \<times> addr multiset \<Rightarrow> ev_state \<times> addr set \<times> addr multiset \<Rightarrow> bool" where
  add: "eventAdd name func arg when weight s = Some s' \<Longrightarrow> 0 \<le> when \<Longrightarrow>
     set_option arg \<subseteq> cb_alive A (task_args (tasks s) + H) \<Longrightarrow> ev_step (s, A, H) (s', A, H)"
| delete: "eventDelete func arg s = Some s' \<Longrightarrow> ev_step (s, A, H) (s', A, H)"
| delete_no_assert: "eventDeleteNoAssert func arg s = Some s' \<Longrightarrow> ev_step (s, A, H) (s', A, H)"
| delete_condition: "eventConditionDelete fd func condition s = Some s' \<Longrightarrow> ev_step (s, A, H) (s', A, H)"
| cleanup: "eventCleanup s = Some s' \<Longrightarrow> ev_step (s, A, H) (s', A, H)"
| alloc: "cbdataInternalAlloc ty p s = Some s' \<Longrightarrow> p \<notin> cb_alive A (task_args (tasks s) + H) \<Longrightarrow>
     ev_step (s, A, H) (s', insert p A, H)"
| lock: "cbdataLock (Some p) s = Some s' \<Longrightarrow> p \<in> cb_alive A (task_args (tasks s) + H) \<Longrightarrow>
     ev_step (s, A, H) (s', A, add_mset p H)"
| unlock: "cbdataUnlock (Some p) s = Some s' \<Longrightarrow> p \<in># H \<Longrightarrow> ev_step (s, A, H) (s', A, H - {#p#})"
| release: "cbdataInternalFree p s = Some s' \<Longrightarrow> p \<in> A \<Longrightarrow> ev_step (s, A, H) (s', A - {p}, H)"

inductive_cases ev_stepE: "ev_step (s, A, H) (s', A', H')"

lemma ev_inv_same:
  "same_queue s s' \<Longrightarrow> ev_inv s A H \<Longrightarrow> cb_inv s' A' (task_args (tasks s) + H') \<Longrightarrow> ev_inv s' A' H'"
  by (simp add: ev_inv_def same_queue_def)

lemma ev_step_ok:
  assumes "ev_step (s, A, H) (s', A', H')" "ev_inv s A H"
  shows "ev_inv s' A' H'" "evolves s s'"
proof -
  have cb: "cb_inv s A (task_args (tasks s) + H)"
    using assms(2) by (simp add: ev_inv_def)
  have "ev_inv s' A' H' \<and> evolves s s'"
  proof (rule ev_stepE [OF assms(1)], goal_cases)
    case (1 name func arg delay weight)
    then show ?thesis
      using eventAdd_ok [OF assms(2), of arg delay name func weight s'] by auto
  next
    case (2 func arg)
    then show ?thesis
      using eventDeleteNoAssert_ok [OF assms(2), of func arg] eventDelete_eq [of func arg s s'] by auto
  next
    case (3 func arg)
    then show ?thesis
      using eventDeleteNoAssert_ok [OF assms(2), of func arg] by auto
  next
    case (4 fd func condition)
    then show ?thesis
      using eventConditionDelete_ok [OF assms(2), of fd func condition] by auto
  next
    case 5
    then show ?thesis
      using eventCleanup_ok [OF assms(2)] by auto
  next
    case (6 ty p)
    have "0 < ty \<and> ty < cbdata_types s \<and> cbdata_type_entry ty s \<noteq> None"
      using 6(1) by (auto simp: cbdataInternalAlloc_def bind_eq_Some_conv)
    moreover have "int_range (cbdataCount s + 1)"
      using cbdataInternalAlloc_full [of s ty p] 6(1) by auto
    ultimately show ?thesis
      using cbdataInternalAlloc_ok [OF cb 6(2), of ty] 6 registry_same_queue(4) [OF 6(1)] assms(2)
      by (auto intro: ev_inv_same evolves_same)
  next
    case (7 p)
    then show ?thesis
      using cbr.lock_opt_some [OF cb _ 7(1)] registry_same_queue(1) [OF 7(1)] assms(2)
      by (auto intro: ev_inv_same evolves_same)
  next
    case (8 p)
    have "task_args (tasks s) + H - {#p#} = task_args (tasks s) + (H - {#p#})"
      using 8(2) by simp
    then show ?thesis
      using cbdataUnlock_ok [OF cb, of p] 8 registry_same_queue(2) [OF 8(1)] assms(2)
      by (auto intro: ev_inv_same evolves_same)
  next
    case (9 p)
    then show ?thesis
      using cbdataInternalFree_ok [OF cb, of p] registry_same_queue(3) [OF 9(1)] assms(2)
      by (auto intro: ev_inv_same evolves_same)
  qed
  then show "ev_inv s' A' H'" "evolves s s'"
    by simp_all
qed

lemma ev_steps_ok:
  assumes "ev_step\<^sup>*\<^sup>* c c'" "c = (s, A, H)" "c' = (s', A', H')" "ev_inv s A H"
  shows "ev_inv s' A' H' \<and> evolves s s'"
  using assms
proof (induction arbitrary: s' A' H' rule: rtranclp_induct)
  case (step d e)
  obtain s1 A1 H1 where d: "d = (s1, A1, H1)"
    by (cases d) auto
  have "ev_inv s1 A1 H1 \<and> evolves s s1"
    using step.IH d step.prems by blast
  then show ?case
    using ev_step_ok [of s1 A1 H1 s' A' H'] step.hyps(2) d step.prems evolves_trans by blast
qed simp

text \<open>
  A well-behaved handler: called with an argument that is valid, or without one, it returns after
  finitely many calls of the interface. Nothing is assumed of other arguments.
\<close>

definition handler_ok :: "handler \<Rightarrow> bool" where
  "handler_ok h \<longleftrightarrow> (\<forall>func arg s A H. ev_inv s A H \<longrightarrow> set_option arg \<subseteq> A \<longrightarrow>
     (\<exists>s' A' H'. h func arg s = Some s' \<and> ev_step\<^sup>*\<^sup>* (s, A, H) (s', A', H')))"

lemma ev_inv_last [simp]: "ev_inv (s\<lparr>last_event_ran := n\<rparr>) A H \<longleftrightarrow> ev_inv s A H"
  by (simp add: ev_inv_def)

lemma evolves_last [simp]: "evolves s (t\<lparr>last_event_ran := n\<rparr>) \<longleftrightarrow> evolves s t" "evolves (s\<lparr>last_event_ran := n\<rparr>) t \<longleftrightarrow> evolves s t"
  by (simp_all add: evolves_def old_tasks_def young_last_def)

text \<open>When the loop stops at the first entry without a weight having been added up, nothing due is left.\<close>

definition none_due :: "ev_state \<Rightarrow> bool" where
  "none_due s \<longleftrightarrow> (\<forall>e\<in>set (tasks s). ev_when e \<le> current_dtime s \<longrightarrow> ev_id e = run_id s)"

lemma stop_none_due:
  assumes "ev_inv s A H" "young_last s" "tasks s = e # E" "ev_when e > current_dtime s \<or> ev_id e = run_id s"
  shows "none_due s"
  using assms by (auto simp: none_due_def ev_inv_def by_time_def young_last_def)

lemma eventRun_loop_ok:
  assumes "handler_ok h" "ev_inv s A H" "young_last s"
  shows "\<exists>s' A' H'. eventRun_loop h w s = Some s' \<and> ev_inv s' A' H' \<and> evolves s s' \<and>
    (w = 0 \<longrightarrow> (\<forall>e\<in>set (old_tasks s). ev_weight e = 0) \<longrightarrow> none_due s')"
  using assms(2,3)
proof (induction "length (old_tasks s)" arbitrary: s A H w rule: less_induct)
  case less
  show ?case
  proof (cases "tasks s")
    case Nil
    then show ?thesis
      using less.prems by (subst eventRun_loop.simps) (auto simp: none_due_def)
  next
    case (Cons e E)
    show ?thesis
    proof (cases "ev_when e > current_dtime s \<or> ev_id e = run_id s \<or> w \<noteq> 0")
      case True
      then have "eventRun_loop h w s = Some s"
        using Cons by (subst eventRun_loop.simps) auto
      then show ?thesis
        using less.prems True stop_none_due [OF less.prems Cons] by auto
    next
      case False
      then have old: "ev_id e \<noteq> run_id s" "w = 0" "\<not> ev_when e > current_dtime s"
        by auto
      have cb: "cb_inv (s\<lparr>tasks := E\<rparr>) A (mset_set (set_option (ev_arg e)) + (task_args E + H))"
        using less.prems(1) Cons by (simp add: ev_inv_def add.assoc)
      obtain s1 where s1: "cbdataUnlock (ev_arg e) (s\<lparr>tasks := E\<rparr>) = Some s1" "ev_inv s1 A H" "evolves s s1" "tasks s1 = E"
        using event_remove_ok [OF less.prems(1), of "[]" e E] Cons by auto
      have len1: "length (old_tasks s1) < length (old_tasks s)"
        using s1(3,4) Cons old(1) by (auto simp: evolves_def old_tasks_def)
      have unf: "eventRun_loop h w s = (if set_option (ev_arg e) \<subseteq> A
          then h (ev_func e) (ev_arg e) (s1\<lparr>last_event_ran := Some (ev_name e)\<rparr>) \<bind> eventRun_loop h (ev_weight e)
          else eventRun_loop h 0 s1)"
        using cbr.valid_opt [OF cb] s1(1) Cons old by (subst eventRun_loop.simps) (simp add: Let_def)
      have go: "\<exists>s' A' H'. eventRun_loop h v t = Some s' \<and> ev_inv s' A' H' \<and> evolves s s' \<and>
          (v = 0 \<longrightarrow> (\<forall>e\<in>set (old_tasks s). ev_weight e = 0) \<longrightarrow> none_due s')"
        if "evolves s1 t" "ev_inv t B K" for v t B K
      proof -
        have "evolves s t" "length (old_tasks t) < length (old_tasks s)" "young_last t" "set (old_tasks t) \<subseteq> set (old_tasks s)"
          using that(1) s1(3) len1 less.prems(2) evolves_trans by (auto simp: evolves_def)
        then show ?thesis
          using less.hyps [of t B K v] that(2) evolves_trans [of s t] by blast
      qed
      show ?thesis
      proof (cases "set_option (ev_arg e) \<subseteq> A")
        case True
        obtain s2 A2 H2 where s2: "h (ev_func e) (ev_arg e) (s1\<lparr>last_event_ran := Some (ev_name e)\<rparr>) = Some s2"
            "ev_step\<^sup>*\<^sup>* (s1\<lparr>last_event_ran := Some (ev_name e)\<rparr>, A, H) (s2, A2, H2)"
          using assms(1) True s1(2) unfolding handler_ok_def by (metis ev_inv_last)
        then have "ev_inv s2 A2 H2 \<and> evolves s1 s2"
          using ev_steps_ok [OF s2(2) refl refl] s1(2) by simp
        moreover have "e \<in> set (old_tasks s)"
          using Cons old(1) by (simp add: old_tasks_def)
        ultimately show ?thesis
          using go [of s2 A2 H2 "ev_weight e"] unf True s2(1) by auto
      next
        case False
        then show ?thesis
          using go [of s1 A H 0] unf s1(2) by auto
      qed
    qed
  qed
qed

section \<open>Properties\<close>

text \<open>C7.
  Every sequence of calls of the interface keeps the invariant: the entries stay in the order of
  their times, every argument in the queue is allocated, the lock count of an object is exactly the
  number of entries and callers that refer to it. Freeing the queue afterwards succeeds and leaves
  the references of the callers only.
\<close>

theorem event_queue_invariant:
  assumes "ev_inv s A H" "ev_step\<^sup>*\<^sup>* (s, A, H) (s', A', H')"
  shows "by_time (tasks s') \<and> (\<forall>e\<in>set (tasks s'). set_option (ev_arg e) \<subseteq> dom (cb_heap s')) \<and>
    (\<forall>p c. cb_heap s' p = Some c \<longrightarrow> cb_locks c = int (count (task_args (tasks s')) p + count H' p)) \<and>
    (\<exists>s''. eventFreeMemory s' = Some s'' \<and> tasks s'' = [] \<and> cb_inv s'' A' H')"
proof -
  have inv: "ev_inv s' A' H'"
    using ev_steps_ok [OF assms(2) refl refl assms(1)] by simp
  then have cb: "cb_inv s' A' (task_args (tasks s') + H')" "by_time (tasks s')"
    by (simp_all add: ev_inv_def)
  have "set_option (ev_arg e) \<subseteq> dom (cb_heap s')" if e: "e \<in> set (tasks s')" for e
  proof -
    obtain pre post where "tasks s' = pre @ e # post"
      using e by (meson split_list)
    then show ?thesis
      using cb(1) by (cases "ev_arg e") (auto simp: cb_inv_def cb_alive_def)
  qed
  moreover have "\<forall>p c. cb_heap s' p = Some c \<longrightarrow> cb_locks c = int (count (task_args (tasks s')) p + count H' p)"
    using cb_inv_objD(2) [OF cb(1)] by simp
  moreover obtain s'' where "eventFreeMemory s' = Some s''" "ev_inv s'' A' H'" "tasks s'' = []"
    using event_purge_ok [OF inv, of "[]" "tasks s'" "\<lambda>_ _. Some True" "\<lambda>_. True"] by (auto simp: eventFreeMemory_def)
  ultimately show ?thesis
    using cb(2) by (auto simp: ev_inv_def)
qed

text \<open>C6.
  A run of the queue ends, whatever handlers add for now or later, and keeps the invariant. Handlers are called
  with valid arguments only: nothing is assumed of them otherwise. If the entries carry no weight,
  afterwards every entry that was due before the run is gone; what is still due was added by a
  handler of this run and waits for the next.
\<close>

theorem eventRun_progress:
  assumes "handler_ok h" "ev_inv s A H" "int_range (run_id s + 1)"
  shows "\<exists>s' A' H'. eventRun h s = Some s' \<and> ev_inv s' A' H' \<and>
    ((\<forall>e\<in>set (tasks s). ev_weight e = 0) \<longrightarrow>
      (\<forall>e\<in>set (tasks s'). ev_when e \<le> current_dtime s \<longrightarrow> ev_id e = run_id s + 1 \<and> run_id s' = run_id s + 1))"
proof (cases "tasks s = [] \<or> ev_when (hd (tasks s)) > current_dtime s")
  case True
  then have "eventRun h s = Some s"
    by (cases "tasks s") (simp_all add: eventRun_def)
  moreover have "\<forall>e\<in>set (tasks s). ev_when e > current_dtime s"
    using True assms(2) by (cases "tasks s") (auto simp: ev_inv_def by_time_def)
  ultimately show ?thesis
    using assms(2) by (auto simp: not_le [symmetric])
next
  case False
  define t where "t = s\<lparr>run_id := run_id s + 1\<rparr>"
  have ids: "\<forall>e\<in>set (tasks s). ev_id e \<noteq> run_id s + 1"
    using assms(2) by (auto simp: ev_inv_def)
  have t: "ev_inv t A H" "young_last t" "set (old_tasks t) = set (tasks s)"
  proof -
    show "ev_inv t A H"
      using assms(2) by (auto simp: ev_inv_def t_def)
    show "young_last t"
      using ids by (simp add: young_last_def t_def sorted_wrt_iff_nth_less)
    show "set (old_tasks t) = set (tasks s)"
      using ids by (auto simp: old_tasks_def t_def)
  qed
  have "eventRun h s = eventRun_loop h 0 t"
    using False assms(3) by (cases "tasks s") (simp_all add: eventRun_def t_def)
  moreover obtain s' A' H' where "eventRun_loop h 0 t = Some s'" "ev_inv s' A' H'" "evolves t s'"
      "(\<forall>e\<in>set (tasks s). ev_weight e = 0) \<longrightarrow> none_due s'"
    using eventRun_loop_ok [OF assms(1) t(1,2), of 0] t(3) by auto
  moreover have "run_id t = run_id s + 1" "current_dtime t = current_dtime s"
    by (simp_all add: t_def)
  ultimately show ?thesis
    by (intro exI [of _ s'] exI [of _ A'] exI [of _ H']) (simp add: evolves_def none_due_def)
qed

text \<open>
  A queue with a due event on an object, and a handler that schedules itself again for now, as long
  as there are not too many references to its argument: the second event is left for the next run.
\<close>

definition ex_queue :: ev_state where
  "ex_queue = \<lparr>cb_heap = [64 \<mapsto> \<lparr>cb_valid = True, cb_locks = 1, cb_type = 1, cb_y = CBDATA_COOKIE 64\<rparr>], cbdataCount = 1,
     cbdata_types = 2, cbdata_index = [None, Some \<lparr>ci_pool = True, ci_free_func = Some 9\<rparr>], cb_calls = [],
     tasks = [\<lparr>ev_func = 7, ev_arg = Some 64, ev_name = ''a'', ev_when = 5, ev_weight = 0, ev_id = 0\<rparr>],
     run_id = 0, last_event_ran = None, current_dtime = 10\<rparr>"

definition ex_handler :: handler where
  "ex_handler func arg s = do {
     n \<leftarrow> (case arg of Some p \<Rightarrow> cbdataLocked p s | None \<Rightarrow> Some 0);
     if n < 100 then eventAdd ''again'' func arg 0 0 s else Some s
   }"

lemma ex_queue_inv: "ev_inv ex_queue {64} {#}"
  by (simp add: ev_inv_def cb_inv_def ex_queue_def cb_alive_def cbdata_type_entry_def by_time_def)

lemma ex_handler_ok: "handler_ok ex_handler"
  unfolding handler_ok_def
proof (intro allI impI)
  fix func arg s A H
  assume inv: "ev_inv s A H" and "set_option arg \<subseteq> A"
  then have arg: "set_option arg \<subseteq> cb_alive A (task_args (tasks s) + H)"
    by (auto simp: cb_alive_def)
  have cb: "cb_inv s A (task_args (tasks s) + H)"
    using inv by (simp add: ev_inv_def)
  obtain n where n: "(case arg of Some p \<Rightarrow> cbdataLocked p s | None \<Rightarrow> Some 0) = Some n"
      "\<forall>p\<in>set_option arg. n = int (count (task_args (tasks s) + H) p)"
    using cbdataLocked_ok [OF cb] arg by (cases arg) auto
  show "\<exists>s' A' H'. ex_handler func arg s = Some s' \<and> ev_step\<^sup>*\<^sup>* (s, A, H) (s', A', H')"
  proof (cases "n < 100")
    case True
    then obtain s' where s': "eventAdd ''again'' func arg 0 0 s = Some s'"
      using cbr.lock_opt [OF cb arg] n(2) eventAdd_lock [of "''again''" func arg 0 0 s] by (force simp: int_range_def)
    then have "ev_step (s, A, H) (s', A, H)"
      using arg by (rule ev_step.add [OF _ order_refl])
    then show ?thesis
      using s' n(1) True by (auto simp: ex_handler_def)
  qed (use n(1) in \<open>auto simp: ex_handler_def\<close>)
qed

theorem eventRun_progress_witness:
  "\<exists>s'. eventRun ex_handler ex_queue = Some s' \<and> (\<forall>e\<in>set (tasks s'). ev_when e \<le> 10 \<longrightarrow> ev_id e = 1)"
proof -
  have "int_range (run_id ex_queue + 1)" "\<forall>e\<in>set (tasks ex_queue). ev_weight e = 0" "current_dtime ex_queue = 10" "run_id ex_queue = 0"
    by (simp_all add: ex_queue_def int_range_def)
  then show ?thesis
    using eventRun_progress [OF ex_handler_ok ex_queue_inv] by auto
qed

theorem event_queue_invariant_witness:
  "\<exists>s' s''. eventAdd ''b'' 8 (Some 64) 3 0 ex_queue = Some s' \<and> eventFreeMemory s' = Some s'' \<and> cb_inv s'' {64} {#}"
proof -
  have alive: "set_option (Some 64) \<subseteq> cb_alive {64} (task_args (tasks ex_queue) + {#})"
    by (simp add: cb_alive_def)
  obtain s' where s': "eventAdd ''b'' 8 (Some 64) 3 0 ex_queue = Some s'"
    by (auto simp: eventAdd_def cbdataLock_def ex_queue_def int_range_def)
  then have "ev_step\<^sup>*\<^sup>* (ex_queue, {64}, {#}) (s', {64}, {#})"
    using ev_step.add [OF s' _ alive] by simp
  then show ?thesis
    using event_queue_invariant [OF ex_queue_inv] s' by blast
qed

end
