(* ===== verification/Dlink.thy ===== *)
theory Dlink
  imports Linked_List
begin

text \<open>
  Doubly linked lists (\<^verbatim>\<open>libcore/dlink.c\<close>). The nodes are on a heap; the memory of a node
  belongs to the caller. \<open>dl_rep\<close> relates a heap and a list header to the sequence of the nodes
  with their data; on it the operations are the evident operations on sequences. The locale
  \<open>double_list\<close> is the interface that the clients of the lists use.
\<close>

section \<open>Operations\<close>

record dlink_node =
  dl_data :: "addr option"
  dl_prev :: "addr option"
  dl_next :: "addr option"

record dlink_list =
  dl_head :: "addr option"
  dl_tail :: "addr option"

type_synonym dl_heap = "addr \<Rightarrow> dlink_node option"

text \<open>An assignment through a pointer, and one that is made only if the pointer is not \<open>NULL\<close>.\<close>

definition dl_mod :: "addr \<Rightarrow> (dlink_node \<Rightarrow> dlink_node) \<Rightarrow> dl_heap \<Rightarrow> dl_heap option" where
  "dl_mod p f h = do { n \<leftarrow> h p; Some (h(p \<mapsto> f n)) }"

definition dl_mod_opt :: "addr option \<Rightarrow> (dlink_node \<Rightarrow> dlink_node) \<Rightarrow> dl_heap \<Rightarrow> dl_heap option" where
  "dl_mod_opt q f h = (case q of None \<Rightarrow> Some h | Some p \<Rightarrow> dl_mod p f h)"

definition dlinkAdd :: "addr \<Rightarrow> addr \<Rightarrow> dlink_list \<Rightarrow> dl_heap \<Rightarrow> (dlink_list \<times> dl_heap) option" where
  "dlinkAdd data m l h = do {
     h \<leftarrow> dl_mod m (\<lambda>n. n\<lparr>dl_data := Some data, dl_prev := None, dl_next := dl_head l\<rparr>) h;
     h \<leftarrow> dl_mod_opt (dl_head l) (\<lambda>n. n\<lparr>dl_prev := Some m\<rparr>) h;
     let l = l\<lparr>dl_head := Some m\<rparr>;
     let l = (if dl_tail l = None then l\<lparr>dl_tail := Some m\<rparr> else l);
     Some (l, h)
   }"

definition dlinkAddTail :: "addr \<Rightarrow> addr \<Rightarrow> dlink_list \<Rightarrow> dl_heap \<Rightarrow> (dlink_list \<times> dl_heap) option" where
  "dlinkAddTail data m l h = do {
     h \<leftarrow> dl_mod m (\<lambda>n. n\<lparr>dl_data := Some data, dl_next := None, dl_prev := dl_tail l\<rparr>) h;
     h \<leftarrow> dl_mod_opt (dl_tail l) (\<lambda>n. n\<lparr>dl_next := Some m\<rparr>) h;
     let l = l\<lparr>dl_tail := Some m\<rparr>;
     let l = (if dl_head l = None then l\<lparr>dl_head := Some m\<rparr> else l);
     Some (l, h)
   }"

definition dlinkDelete :: "addr \<Rightarrow> dlink_list \<Rightarrow> dl_heap \<Rightarrow> (dlink_list \<times> dl_heap) option" where
  "dlinkDelete m l h = do {
     n \<leftarrow> h m;
     h \<leftarrow> dl_mod_opt (dl_next n) (\<lambda>x. x\<lparr>dl_prev := dl_prev n\<rparr>) h;
     n \<leftarrow> h m;
     h \<leftarrow> dl_mod_opt (dl_prev n) (\<lambda>x. x\<lparr>dl_next := dl_next n\<rparr>) h;
     n \<leftarrow> h m;
     let l = (if dl_head l = Some m then l\<lparr>dl_head := dl_next n\<rparr> else l);
     let l = (if dl_tail l = Some m then l\<lparr>dl_tail := dl_prev n\<rparr> else l);
     h \<leftarrow> dl_mod m (\<lambda>n. n\<lparr>dl_next := None, dl_prev := None\<rparr>) h;
     Some (l, h)
   }"

definition dlinkRemoveHead :: "dlink_list \<Rightarrow> dl_heap \<Rightarrow> (addr option \<times> dlink_list \<times> dl_heap) option" where
  "dlinkRemoveHead l h =
     (case dl_head l of
        None \<Rightarrow> Some (None, l, h)
      | Some n \<Rightarrow> do {
          (l, h) \<leftarrow> dlinkDelete n l h;
          x \<leftarrow> h n;
          Some (dl_data x, l, h)
        })"

partial_function (option) dlinkSize_loop :: "addr option \<Rightarrow> int \<Rightarrow> dl_heap \<Rightarrow> int option" where
  "dlinkSize_loop n i h =
     (case n of
        None \<Rightarrow> Some i
      | Some p \<Rightarrow> do {
          c_assert (int_range (i + 1));
          x \<leftarrow> h p;
          dlinkSize_loop (dl_next x) (i + 1) h
        })"

definition dlinkSize :: "dlink_list \<Rightarrow> dl_heap \<Rightarrow> int option" where
  "dlinkSize l h = dlinkSize_loop (dl_head l) 0 h"

section \<open>Representation\<close>

text \<open>Both chains of pointers run through the nodes, the second one backwards.\<close>

definition dl_nxt :: "dl_heap \<Rightarrow> addr \<Rightarrow> addr option option" where
  "dl_nxt h a = map_option dl_next (h a)"

definition dl_prv :: "dl_heap \<Rightarrow> addr \<Rightarrow> addr option option" where
  "dl_prv h a = map_option dl_prev (h a)"

definition dl_links :: "dl_heap \<Rightarrow> dlink_list \<Rightarrow> addr list \<Rightarrow> bool" where
  "dl_links h l as \<longleftrightarrow> linked (dl_nxt h) (dl_head l) as \<and> linked (dl_prv h) (dl_tail l) (rev as)"

definition dl_dat :: "dl_heap \<Rightarrow> addr \<Rightarrow> addr option" where
  "dl_dat h a = h a \<bind> dl_data"

definition dl_rep :: "dl_heap \<Rightarrow> dlink_list \<Rightarrow> (addr \<times> addr) list \<Rightarrow> bool" where
  "dl_rep h l xs \<longleftrightarrow> dl_links h l (map fst xs) \<and> (\<forall>x\<in>set xs. dl_dat h (fst x) = Some (snd x))"

text \<open>What an operation leaves alone.\<close>

definition dl_frame :: "dl_heap \<Rightarrow> dl_heap \<Rightarrow> addr set \<Rightarrow> bool" where
  "dl_frame h h' S \<longleftrightarrow> dom h' = dom h \<and> (\<forall>a. a \<notin> S \<longrightarrow> h' a = h a)"

lemma dl_upd [simp]:
  "dl_nxt (h(a \<mapsto> n)) = (dl_nxt h)(a := Some (dl_next n))" "dl_prv (h(a \<mapsto> n)) = (dl_prv h)(a := Some (dl_prev n))"
  "dl_dat (h(a \<mapsto> n)) = (dl_dat h)(a := dl_data n)"
  by (auto simp: dl_nxt_def dl_prv_def dl_dat_def)

lemma dl_frame_upd: "dl_frame h h' S \<Longrightarrow> a \<in> dom h \<Longrightarrow> a \<in> S \<Longrightarrow> dl_frame h (h'(a \<mapsto> n)) S"
  by (auto simp: dl_frame_def)

lemma dl_frame_refl [simp]: "dl_frame h h S"
  by (simp add: dl_frame_def)

lemma dl_frame_trans: "dl_frame h h1 S \<Longrightarrow> dl_frame h1 h2 T \<Longrightarrow> S \<subseteq> U \<Longrightarrow> T \<subseteq> U \<Longrightarrow> dl_frame h h2 U"
  unfolding dl_frame_def by (metis subsetD)

lemma dl_links_distinct: "dl_links h l as \<Longrightarrow> distinct as"
  by (auto simp: dl_links_def dest: linked_distinct)

lemma dl_links_Nil [simp]: "dl_links h l [] \<longleftrightarrow> dl_head l = None \<and> dl_tail l = None"
  by (simp add: dl_links_def)

lemma dl_links_ends: "dl_links h l as \<Longrightarrow> as \<noteq> [] \<Longrightarrow> dl_head l = Some (hd as) \<and> dl_tail l = Some (last as)"
  using linked_head [of "dl_nxt h" "dl_head l" as] linked_head [of "dl_prv h" "dl_tail l" "rev as"]
  by (simp add: dl_links_def hd_rev [symmetric] split: list.splits)

text \<open>The predecessor and the successor of a node are its neighbours in the sequence.\<close>

lemma dl_links_node:
  assumes "dl_links h l (xs @ m # ys)"
  obtains n where "h m = Some n" "dl_next n = (if ys = [] then None else Some (hd ys))"
    "dl_prev n = (if xs = [] then None else Some (last xs))"
proof -
  obtain n where n: "h m = Some n"
    using assms by (auto simp: dl_links_def lseg_append dl_nxt_def)
  have "dl_next n = (if ys = [] then None else Some (hd ys))"
    using assms n by (cases ys) (auto simp: dl_links_def lseg_append dl_nxt_def)
  moreover have "dl_prev n = (if xs = [] then None else Some (last xs))"
    using assms n by (cases xs rule: rev_cases) (auto simp: dl_links_def lseg_append dl_prv_def)
  ultimately show ?thesis
    using that n by blast
qed

lemma dl_links_dom: "dl_links h l as \<Longrightarrow> a \<in> set as \<Longrightarrow> a \<in> dom h"
  using lseg_in [of "dl_nxt h" "dl_head l" as None a] by (auto simp: dl_links_def dl_nxt_def)

lemma dl_links_cong:
  assumes "dl_links h l as" "\<And>a. a \<in> set as \<Longrightarrow> h' a = h a"
  shows "dl_links h' l as"
proof -
  have "linked (dl_nxt h') p as \<longleftrightarrow> linked (dl_nxt h) p as" "linked (dl_prv h') p (rev as) \<longleftrightarrow> linked (dl_prv h) p (rev as)" for p
    using assms(2) by (auto intro!: lseg_cong simp: dl_nxt_def dl_prv_def)
  then show ?thesis
    using assms(1) by (simp add: dl_links_def)
qed

section \<open>The operations on the chains\<close>

lemma dlinkAddTail_links:
  assumes "dl_links h l as" "m \<in> dom h" "m \<notin> set as"
  shows "\<exists>l' h'. dlinkAddTail d m l h = Some (l', h') \<and> dl_links h' l' (as @ [m]) \<and>
    dl_frame h h' (insert m (set as)) \<and> dl_dat h' = (dl_dat h)(m \<mapsto> d)"
proof -
  obtain n where n: "h m = Some n"
    using assms(2) by auto
  show ?thesis
  proof (cases as rule: rev_cases)
    case Nil
    then show ?thesis
      using n assms by (simp add: dlinkAddTail_def dl_mod_def dl_mod_opt_def dl_links_def dl_frame_upd)
  next
    case (snoc bs t)
    obtain nt where nt: "h t = Some nt"
      using dl_links_dom [OF assms(1), of t] snoc by auto
    have ne: "t \<noteq> m" "t \<notin> set bs" "dl_tail l = Some t" "dl_head l = Some (hd as)"
      using assms(3) snoc dl_links_distinct [OF assms(1)] dl_links_ends [OF assms(1)] by auto
    define h' where "h' = h(m \<mapsto> n\<lparr>dl_data := Some d, dl_next := None, dl_prev := Some t\<rparr>, t \<mapsto> nt\<lparr>dl_next := Some m\<rparr>)"
    have "dlinkAddTail d m l h = Some (l\<lparr>dl_tail := Some m\<rparr>, h')"
      using n nt ne by (simp add: dlinkAddTail_def dl_mod_def dl_mod_opt_def h'_def Let_def)
    moreover have "dl_links h' (l\<lparr>dl_tail := Some m\<rparr>) (as @ [m])"
      using assms(1,3) ne nt snoc by (auto simp: dl_links_def h'_def lseg_append dl_prv_def [of h t])
    moreover have "dl_frame h h' (insert m (set as))"
      using n nt snoc unfolding h'_def by (intro dl_frame_upd) auto
    moreover have "dl_dat h' = (dl_dat h)(m \<mapsto> d)"
      using nt ne by (auto simp: h'_def dl_dat_def)
    ultimately show ?thesis
      by blast
  qed
qed

lemma dlinkAdd_links:
  assumes "dl_links h l as" "m \<in> dom h" "m \<notin> set as"
  shows "\<exists>l' h'. dlinkAdd d m l h = Some (l', h') \<and> dl_links h' l' (m # as) \<and>
    dl_frame h h' (insert m (set as)) \<and> dl_dat h' = (dl_dat h)(m \<mapsto> d)"
proof -
  obtain n where n: "h m = Some n"
    using assms(2) by auto
  show ?thesis
  proof (cases as)
    case Nil
    then show ?thesis
      using n assms by (simp add: dlinkAdd_def dl_mod_def dl_mod_opt_def dl_links_def dl_frame_upd)
  next
    case (Cons t bs)
    obtain nt where nt: "h t = Some nt"
      using dl_links_dom [OF assms(1), of t] Cons by auto
    have ne: "t \<noteq> m" "t \<notin> set bs" "dl_head l = Some t" "dl_tail l = Some (last as)"
      using assms(3) Cons dl_links_distinct [OF assms(1)] dl_links_ends [OF assms(1)] by auto
    define h' where "h' = h(m \<mapsto> n\<lparr>dl_data := Some d, dl_prev := None, dl_next := Some t\<rparr>, t \<mapsto> nt\<lparr>dl_prev := Some m\<rparr>)"
    have "dlinkAdd d m l h = Some (l\<lparr>dl_head := Some m\<rparr>, h')"
      using n nt ne by (simp add: dlinkAdd_def dl_mod_def dl_mod_opt_def h'_def Let_def)
    moreover have "dl_links h' (l\<lparr>dl_head := Some m\<rparr>) (m # as)"
      using assms(1,3) ne nt Cons by (auto simp: dl_links_def h'_def lseg_append dl_nxt_def [of h t])
    moreover have "dl_frame h h' (insert m (set as))"
      using n nt Cons unfolding h'_def by (intro dl_frame_upd) auto
    moreover have "dl_dat h' = (dl_dat h)(m \<mapsto> d)"
      using nt ne by (auto simp: h'_def dl_dat_def)
    ultimately show ?thesis
      by blast
  qed
qed

text \<open>One chain of the list after a node was unlinked from it.\<close>

lemma linked_unlink:
  assumes "linked nxt p (xs @ m # ys)" "nxt m = Some r"
  shows "linked (if xs = [] then nxt else nxt(last xs := Some r)) (if xs = [] then r else p) (xs @ ys)"
proof (cases xs rule: rev_cases)
  case Nil
  then show ?thesis
    using assms by simp
next
  case (snoc zs z)
  have "distinct (xs @ m # ys)"
    using linked_distinct [OF assms(1)] .
  then show ?thesis
    using assms snoc by (auto simp: lseg_append)
qed

lemma dlinkDelete_links:
  assumes "dl_links h l (xs @ m # ys)"
  shows "\<exists>l' h'. dlinkDelete m l h = Some (l', h') \<and> dl_links h' l' (xs @ ys) \<and>
    dl_frame h h' (insert m (set xs \<union> set ys)) \<and> dl_dat h' = dl_dat h"
proof -
  obtain n where n: "h m = Some n" and nx: "dl_next n = (if ys = [] then None else Some (hd ys))"
      and pv: "dl_prev n = (if xs = [] then None else Some (last xs))"
    using dl_links_node [OF assms] .
  have dis: "distinct (xs @ m # ys)"
    using dl_links_distinct [OF assms] .
  have ends: "ys \<noteq> [] \<Longrightarrow> hd ys \<in> set ys" "xs \<noteq> [] \<Longrightarrow> last xs \<in> set xs"
    by simp_all
  have out: "ys \<noteq> [] \<Longrightarrow> hd ys \<noteq> m" "xs \<noteq> [] \<Longrightarrow> last xs \<noteq> m"
    using dis ends by auto
  have out3: "ys \<noteq> [] \<Longrightarrow> xs \<noteq> [] \<Longrightarrow> hd ys \<noteq> last xs"
    using dis ends by (metis IntI distinct_append empty_iff list.set_intros(2))
  have hd: "dl_head l = Some m \<longleftrightarrow> xs = []" and tl: "dl_tail l = Some m \<longleftrightarrow> ys = []"
    using dl_links_ends [OF assms] dis by (cases xs; cases ys; auto)+
  define l' where "l' = \<lparr>dl_head = (if xs = [] then dl_next n else dl_head l), dl_tail = (if ys = [] then dl_prev n else dl_tail l)\<rparr>"
  define h1 where "h1 = (if ys = [] then h else h(hd ys \<mapsto> (the (h (hd ys)))\<lparr>dl_prev := dl_prev n\<rparr>))"
  define h2 where "h2 = (if xs = [] then h1 else h1(last xs \<mapsto> (the (h (last xs)))\<lparr>dl_next := dl_next n\<rparr>))"
  define h' where "h' = h2(m \<mapsto> n\<lparr>dl_next := None, dl_prev := None\<rparr>)"
  obtain na where na: "ys \<noteq> [] \<Longrightarrow> h (hd ys) = Some na"
    using dl_links_dom [OF assms, of "hd ys"] by fastforce
  obtain nb where nb: "xs \<noteq> [] \<Longrightarrow> h (last xs) = Some nb"
    using dl_links_dom [OF assms, of "last xs"] by fastforce
  have h1: "dl_mod_opt (dl_next n) (\<lambda>x. x\<lparr>dl_prev := dl_prev n\<rparr>) h = Some h1" "h1 m = Some n"
    using n nx out(1) na by (auto simp: dl_mod_opt_def dl_mod_def h1_def)
  have "h1 (last xs) = Some nb" if "xs \<noteq> []"
    using that nb out3 by (auto simp: h1_def)
  then have h2: "dl_mod_opt (dl_prev n) (\<lambda>x. x\<lparr>dl_next := dl_next n\<rparr>) h1 = Some h2" "h2 m = Some n"
    using h1(2) pv out(2) nb by (auto simp: dl_mod_opt_def dl_mod_def h2_def)
  have "dlinkDelete m l h = Some (l', h')"
    using n h1 h2 hd tl by (simp add: dlinkDelete_def dl_mod_def Let_def h'_def l'_def)
  moreover have "dl_links h' l' (xs @ ys)"
  proof -
    have "dl_nxt h' a = (if xs = [] then dl_nxt h else (dl_nxt h)(last xs := Some (dl_next n))) a"
        "dl_prv h' a = (if rev ys = [] then dl_prv h else (dl_prv h)(last (rev ys) := Some (dl_prev n))) a"
      if "a \<noteq> m" for a
      using that out3 na nb
      by (cases "xs = []"; cases "ys = []"; cases "a = last xs"; cases "a = hd ys"; simp add: h'_def h2_def h1_def last_rev dl_nxt_def [of h] dl_prv_def [of h])+
    then have "linked (dl_nxt h') p (xs @ ys) \<longleftrightarrow> linked (if xs = [] then dl_nxt h else (dl_nxt h)(last xs := Some (dl_next n))) p (xs @ ys)"
        "linked (dl_prv h') p (rev ys @ rev xs) \<longleftrightarrow>
          linked (if rev ys = [] then dl_prv h else (dl_prv h)(last (rev ys) := Some (dl_prev n))) p (rev ys @ rev xs)" for p
      using dis by (intro lseg_cong; force)+
    moreover have "dl_nxt h m = Some (dl_next n)" "dl_prv h m = Some (dl_prev n)"
      using n by (simp_all add: dl_nxt_def dl_prv_def)
    ultimately show ?thesis
      using assms linked_unlink [of "dl_nxt h" "dl_head l" xs m ys "dl_next n"]
        linked_unlink [of "dl_prv h" "dl_tail l" "rev ys" m "rev xs" "dl_prev n"]
      by (simp add: dl_links_def l'_def)
  qed
  moreover have "dl_frame h h' (insert m (set xs \<union> set ys))"
    using n ends na nb by (auto simp: h'_def h2_def h1_def intro!: dl_frame_upd)
  moreover have "dl_dat h' = dl_dat h"
  proof
    show "dl_dat h' a = dl_dat h a" for a
      using n out out3 na nb
      by (cases "xs = []"; cases "ys = []"; cases "a = last xs"; cases "a = hd ys"; simp add: h'_def h2_def h1_def dl_dat_def [of h])
  qed
  ultimately show ?thesis
    by blast
qed

section \<open>The interface\<close>

text \<open>
  A list of nodes that carry data, as its clients see it: the sequence \<open>xs\<close> of pairs of a node and
  its data. \<open>add_tail\<close> takes a node that is allocated and not in the list; \<open>del\<close> a node of the list.
\<close>

locale double_list =
  fixes rep :: "dl_heap \<Rightarrow> dlink_list \<Rightarrow> (addr \<times> addr) list \<Rightarrow> bool"
    and add_tail :: "addr \<Rightarrow> addr \<Rightarrow> dlink_list \<Rightarrow> dl_heap \<Rightarrow> (dlink_list \<times> dl_heap) option"
    and del :: "addr \<Rightarrow> dlink_list \<Rightarrow> dl_heap \<Rightarrow> (dlink_list \<times> dl_heap) option"
  assumes rep_nodes: "rep h l xs \<Longrightarrow> distinct (map fst xs) \<and> fst ` set xs \<subseteq> dom h"
    and add_tail_ok: "rep h l xs \<Longrightarrow> m \<in> dom h \<Longrightarrow> m \<notin> fst ` set xs \<Longrightarrow>
      \<exists>l' h'. add_tail d m l h = Some (l', h') \<and> rep h' l' (xs @ [(m, d)]) \<and> dl_frame h h' (insert m (fst ` set xs))"
    and del_ok: "rep h l (xs @ (m, d) # ys) \<Longrightarrow>
      \<exists>l' h'. del m l h = Some (l', h') \<and> rep h' l' (xs @ ys) \<and> dl_frame h h' (insert m (fst ` (set xs \<union> set ys)))"
begin

text \<open>Moving a node to the end, with new data.\<close>

lemma move_tail:
  assumes "rep h l (xs @ (m, d) # ys)"
  shows "\<exists>l' h' l'' h''. del m l h = Some (l', h') \<and> rep h' l' (xs @ ys) \<and> add_tail e m l' h' = Some (l'', h'') \<and>
    rep h'' l'' (xs @ ys @ [(m, e)]) \<and> dl_frame h h'' (fst ` set (xs @ (m, d) # ys))"
proof -
  obtain l' h' where 1: "del m l h = Some (l', h')" "rep h' l' (xs @ ys)" "dl_frame h h' (insert m (fst ` (set xs \<union> set ys)))"
    using del_ok [OF assms] by blast
  have "m \<in> dom h'" "m \<notin> fst ` set (xs @ ys)"
    using 1(3) rep_nodes [OF assms] by (auto simp: dl_frame_def)
  then obtain l'' h'' where 2: "add_tail e m l' h' = Some (l'', h'')" "rep h'' l'' ((xs @ ys) @ [(m, e)])"
      "dl_frame h' h'' (insert m (fst ` set (xs @ ys)))"
    using add_tail_ok [OF 1(2)] by blast
  have "dl_frame h h'' (fst ` set (xs @ (m, d) # ys))"
    by (rule dl_frame_trans [OF 1(3) 2(3)]) auto
  then show ?thesis
    using 1 2 by auto
qed

text \<open>A node is found by its address.\<close>

lemma rep_split:
  assumes "rep h l xs" "(m, d) \<in> set xs"
  obtains us vs where "xs = us @ (m, d) # vs" "filter (\<lambda>x. fst x \<noteq> m) xs = us @ vs"
proof -
  obtain us vs where xs: "xs = us @ (m, d) # vs"
    using assms(2) by (meson split_list)
  moreover have "filter (\<lambda>x. fst x \<noteq> m) us = us" "filter (\<lambda>x. fst x \<noteq> m) vs = vs"
    using rep_nodes [OF assms(1)] xs by (auto simp: filter_id_conv)
  ultimately show ?thesis
    using that [of us vs] by simp
qed

end

interpretation dl: double_list dl_rep dlinkAddTail dlinkDelete
proof unfold_locales
  show "distinct (map fst xs) \<and> fst ` set xs \<subseteq> dom h" if "dl_rep h l xs" for h l xs
    using that dl_links_distinct dl_links_dom by (fastforce simp: dl_rep_def)
  show "\<exists>l' h'. dlinkAddTail d m l h = Some (l', h') \<and> dl_rep h' l' (xs @ [(m, d)]) \<and> dl_frame h h' (insert m (fst ` set xs))"
    if "dl_rep h l xs" "m \<in> dom h" "m \<notin> fst ` set xs" for h l xs m d
    using that dlinkAddTail_links [of h l "map fst xs" m d] by (auto simp: dl_rep_def)
  show "\<exists>l' h'. dlinkDelete m l h = Some (l', h') \<and> dl_rep h' l' (xs @ ys) \<and> dl_frame h h' (insert m (fst ` (set xs \<union> set ys)))"
    if "dl_rep h l (xs @ (m, d) # ys)" for h l xs m d ys
    using that dlinkDelete_links [of h l "map fst xs" m "map fst ys"] by (auto simp: dl_rep_def image_Un)
qed

text \<open>The operations outside the interface: adding at the front, removing from the front, and the size.\<close>

lemma dlinkAdd_ok:
  assumes "dl_rep h l xs" "m \<in> dom h" "m \<notin> fst ` set xs"
  shows "\<exists>l' h'. dlinkAdd d m l h = Some (l', h') \<and> dl_rep h' l' ((m, d) # xs)"
  using assms dlinkAdd_links [of h l "map fst xs" m d] by (auto simp: dl_rep_def)

lemma dlinkRemoveHead_ok:
  assumes "dl_rep h l xs"
  shows "\<exists>l' h'. dlinkRemoveHead l h = Some ((case xs of [] \<Rightarrow> None | x # _ \<Rightarrow> Some (snd x)), l', h') \<and> dl_rep h' l' (tl xs)"
proof (cases xs)
  case Nil
  then show ?thesis
    using assms by (simp add: dlinkRemoveHead_def dl_rep_def)
next
  case (Cons x ys)
  have hd: "dl_head l = Some (fst x)"
    using dl_links_ends [of h l "map fst xs"] assms Cons by (simp add: dl_rep_def)
  obtain l' h' where del: "dlinkDelete (fst x) l h = Some (l', h')" "dl_links h' l' (map fst ys)" "dl_dat h' = dl_dat h"
    using dlinkDelete_links [of h l "[]" "fst x" "map fst ys"] assms Cons by (auto simp: dl_rep_def)
  have "dl_dat h' (fst x) = Some (snd x)"
    using assms Cons del(3) by (simp add: dl_rep_def)
  then obtain n where "h' (fst x) = Some n" "dl_data n = Some (snd x)"
    by (auto simp: dl_dat_def bind_eq_Some_conv)
  then show ?thesis
    using del hd assms Cons by (simp add: dlinkRemoveHead_def dl_rep_def)
qed

lemma dlinkSize_loop_ok:
  assumes "linked (dl_nxt h) p as" "0 \<le> i" "int_range (i + int (length as))"
  shows "dlinkSize_loop p i h = Some (i + int (length as))"
  using assms
proof (induction as arbitrary: p i)
  case Nil
  then show ?case
    by (subst dlinkSize_loop.simps) simp
next
  case (Cons a as)
  then obtain n where n: "p = Some a" "h a = Some n" "linked (dl_nxt h) (dl_next n) as"
    by (auto simp: dl_nxt_def [of h a])
  have "int_range (i + 1)" "int_range (i + 1 + int (length as))"
    using Cons.prems(2,3) by (simp_all add: int_range_def)
  then show ?case
    using Cons.IH [OF n(3), of "i + 1"] Cons.prems(2) n by (subst dlinkSize_loop.simps) simp
qed

lemma dlinkSize_ok: "dl_rep h l xs \<Longrightarrow> int_range (int (length xs)) \<Longrightarrow> dlinkSize l h = Some (int (length xs))"
  using dlinkSize_loop_ok [of h "dl_head l" "map fst xs" 0] by (simp add: dlinkSize_def dl_rep_def dl_links_def)

end
