(* ===== verification/Store_Entry.thy ===== *)
theory Store_Entry
  imports Lusca_Prelude
begin

text \<open>
  The part of a \<open>StoreEntry\<close> (\<^verbatim>\<open>src/structs.h\<close>) that the removal policies and the locking of
  entries use. Entries are on a heap of their own. A \<open>RemovalPolicyNode\<close> is a field of an entry
  or of its memory object, so a pointer to one is named by the entry it is in; a memory object
  belongs to one entry only.
\<close>

unbundle bit_operations_syntax

section \<open>Entries\<close>

datatype store_status_t = STORE_OK | STORE_PENDING

datatype swap_status_t = SWAPOUT_NONE | SWAPOUT_WRITING | SWAPOUT_DONE

record MemObject =
  mo_repl :: "addr option"

record StoreEntry =
  se_mem_obj :: "MemObject option"
  se_repl :: "addr option"
  se_lastref :: int
  se_flags :: u16
  se_lock_count :: u16
  se_store_status :: store_status_t
  se_swap_status :: swap_status_t

type_synonym entry_heap = "addr \<Rightarrow> StoreEntry option"

definition ENTRY_SPECIAL :: nat where "ENTRY_SPECIAL = 0"

definition KEY_PRIVATE :: nat where "KEY_PRIVATE = 7"

definition EBIT_TEST :: "u16 \<Rightarrow> nat \<Rightarrow> bool" where
  "EBIT_TEST flag b \<longleftrightarrow> (ucast flag :: u64) AND push_bit b 1 \<noteq> 0"

definition storeEntryLocked :: "StoreEntry \<Rightarrow> bool" where
  "storeEntryLocked e \<longleftrightarrow>
     (if se_lock_count e \<noteq> 0 then True
      else if se_swap_status e = SWAPOUT_WRITING then True
      else if se_store_status e = STORE_PENDING then True
      else if EBIT_TEST (se_flags e) ENTRY_SPECIAL
      then (if \<not> EBIT_TEST (se_flags e) KEY_PRIVATE then True else False)
      else False)"

section \<open>Policy nodes\<close>

datatype policy_node = Repl addr | MemRepl addr

definition node_get :: "policy_node \<Rightarrow> entry_heap \<Rightarrow> addr option option" where
  "node_get node es =
     (case node of
        Repl p \<Rightarrow> do { e \<leftarrow> es p; Some (se_repl e) }
      | MemRepl p \<Rightarrow> do { e \<leftarrow> es p; m \<leftarrow> se_mem_obj e; Some (mo_repl m) })"

definition node_put :: "policy_node \<Rightarrow> addr option \<Rightarrow> entry_heap \<Rightarrow> entry_heap option" where
  "node_put node v es =
     (case node of
        Repl p \<Rightarrow> do { e \<leftarrow> es p; Some (es(p \<mapsto> e\<lparr>se_repl := v\<rparr>)) }
      | MemRepl p \<Rightarrow> do { e \<leftarrow> es p; m \<leftarrow> se_mem_obj e; Some (es(p \<mapsto> e\<lparr>se_mem_obj := Some (m\<lparr>mo_repl := v\<rparr>)\<rparr>)) })"

text \<open>Setting a node changes no other node, and no lock.\<close>

definition entry_locked :: "entry_heap \<Rightarrow> addr \<Rightarrow> bool option" where
  "entry_locked es p = map_option storeEntryLocked (es p)"

lemma storeEntryLocked_node [simp]:
  "storeEntryLocked (e\<lparr>se_repl := v\<rparr>) = storeEntryLocked e" "storeEntryLocked (e\<lparr>se_mem_obj := m\<rparr>) = storeEntryLocked e"
  by (simp_all add: storeEntryLocked_def)

lemma entry_locked_upd:
  "es p = Some e \<Longrightarrow> storeEntryLocked e' = storeEntryLocked e \<Longrightarrow> entry_locked (es(p \<mapsto> e')) = entry_locked es"
  by (auto simp: entry_locked_def)

lemma node_put_ok:
  assumes "node_get node es \<noteq> None"
  shows "\<exists>es'. node_put node v es = Some es' \<and> node_get node es' = Some v \<and>
    (\<forall>n. n \<noteq> node \<longrightarrow> node_get n es' = node_get n es) \<and> entry_locked es' = entry_locked es"
  using assms
  by (cases node) (auto simp: node_get_def node_put_def entry_locked_upd bind_eq_None_conv bind_eq_Some_conv
      split: policy_node.splits)

lemma node_get_locked: "node_get (Repl p) es \<noteq> None \<or> node_get (MemRepl p) es \<noteq> None \<Longrightarrow> \<exists>e. es p = Some e"
  by (auto simp: node_get_def bind_eq_None_conv)

end
