(* ===== verification/Lru_Policy.thy ===== *)
theory Lru_Policy
  imports Dlink Store_Entry Callback_Data
begin

text \<open>
  The removal policy that keeps the entries in the order of their last use
  (\<^verbatim>\<open>src/repl/lru/store_repl_lru.c\<close>), a client of the doubly linked lists and of the registry of
  callback data. The state holds one policy. Nodes of the policy, walkers and the policy itself
  are at the addresses that the allocator chooses, arguments of the operations.
\<close>

section \<open>State\<close>

datatype heap_entry_type = TYPE_UNKNOWN | TYPE_STORE_ENTRY | TYPE_STORE_MEM

record LruPolicyData =
  lru_list :: dlink_list
  lru_count :: int
  lru_nwalkers :: int
  lru_type :: heap_entry_type

record LruWalkData =
  lw_current :: "addr option"

text \<open>A purge walker together with its data.\<close>

record RemovalPurgeWalker =
  pw_current :: "addr option"
  pw_start :: "addr option"
  pw_scanned :: int
  pw_max_scan :: int
  pw_locked :: int

record lru_state = cb_state +
  lru_nodes :: dl_heap
  entries :: entry_heap
  policy :: addr
  policy_type :: "string option"
  policy_data :: "LruPolicyData option"
  walkers :: "addr \<Rightarrow> LruWalkData option"
  purge_walkers :: "addr \<Rightarrow> RemovalPurgeWalker option"
  CBDATA_RemovalPolicy :: nat
  CBDATA_RemovalPolicyWalker :: nat
  CBDATA_RemovalPurgeWalker :: nat

section \<open>Adding, removing, referencing\<close>

definition repl_guessType :: "addr \<Rightarrow> policy_node \<Rightarrow> entry_heap \<Rightarrow> heap_entry_type option" where
  "repl_guessType entry node es =
     (if node = Repl entry then Some TYPE_STORE_ENTRY
      else do {
        e \<leftarrow> es entry;
        if se_mem_obj e \<noteq> None \<and> node = MemRepl entry then Some TYPE_STORE_MEM else None
      })"

definition SET_POLICY_NODE :: "heap_entry_type \<Rightarrow> addr \<Rightarrow> addr option \<Rightarrow> entry_heap \<Rightarrow> entry_heap option" where
  "SET_POLICY_NODE ty entry value es =
     (case ty of
        TYPE_STORE_ENTRY \<Rightarrow> node_put (Repl entry) value es
      | TYPE_STORE_MEM \<Rightarrow> node_put (MemRepl entry) value es
      | TYPE_UNKNOWN \<Rightarrow> Some es)"

text \<open>\<open>q\<close> is the memory that the pool of nodes returns.\<close>

definition lru_add :: "addr \<Rightarrow> policy_node \<Rightarrow> addr \<Rightarrow> lru_state \<Rightarrow> lru_state option" where
  "lru_add entry node q s = do {
     lru \<leftarrow> policy_data s;
     data \<leftarrow> node_get node (entries s);
     c_assert (data = None);
     es \<leftarrow> node_put node (Some q) (entries s);
     let h = (lru_nodes s)(q \<mapsto> \<lparr>dl_data = None, dl_prev = None, dl_next = None\<rparr>);
     (l, h) \<leftarrow> dlinkAddTail entry q (lru_list lru) h;
     c_assert (int_range (lru_count lru + 1));
     ty \<leftarrow> (if lru_type lru = TYPE_UNKNOWN then repl_guessType entry node es else Some (lru_type lru));
     Some (s\<lparr>entries := es, lru_nodes := h,
             policy_data := Some (lru\<lparr>lru_list := l, lru_count := lru_count lru + 1, lru_type := ty\<rparr>)\<rparr>)
   }"

definition lru_remove :: "addr \<Rightarrow> policy_node \<Rightarrow> lru_state \<Rightarrow> lru_state option" where
  "lru_remove entry node s = do {
     lru \<leftarrow> policy_data s;
     data \<leftarrow> node_get node (entries s);
     (case data of
        None \<Rightarrow> Some s
      | Some q \<Rightarrow> do {
          n \<leftarrow> lru_nodes s q;
          if dl_data n = None then Some s
          else do {
            c_assert (dl_data n = Some entry);
            es \<leftarrow> node_put node None (entries s);
            (l, h) \<leftarrow> dlinkDelete q (lru_list lru) (lru_nodes s);
            let h = h(q := None);
            c_assert (int_range (lru_count lru - 1));
            Some (s\<lparr>entries := es, lru_nodes := h,
                    policy_data := Some (lru\<lparr>lru_list := l, lru_count := lru_count lru - 1\<rparr>)\<rparr>)
          }
        })
   }"

definition lru_referenced :: "addr \<Rightarrow> policy_node \<Rightarrow> lru_state \<Rightarrow> lru_state option" where
  "lru_referenced entry node s = do {
     lru \<leftarrow> policy_data s;
     data \<leftarrow> node_get node (entries s);
     (case data of
        None \<Rightarrow> Some s
      | Some q \<Rightarrow> do {
          (l, h) \<leftarrow> dlinkDelete q (lru_list lru) (lru_nodes s);
          (l, h) \<leftarrow> dlinkAddTail entry q l h;
          Some (s\<lparr>lru_nodes := h, policy_data := Some (lru\<lparr>lru_list := l\<rparr>)\<rparr>)
        })
   }"

section \<open>Walking\<close>

definition lru_walkNext :: "addr \<Rightarrow> lru_state \<Rightarrow> (addr option \<times> lru_state) option" where
  "lru_walkNext walker s = do {
     lru_walk \<leftarrow> walkers s walker;
     (case lw_current lru_walk of
        None \<Rightarrow> Some (None, s)
      | Some q \<Rightarrow> do {
          n \<leftarrow> lru_nodes s q;
          Some (dl_data n, s\<lparr>walkers := (walkers s)(walker \<mapsto> lru_walk\<lparr>lw_current := dl_next n\<rparr>)\<rparr>)
        })
   }"

definition lru_walkDone :: "addr \<Rightarrow> lru_state \<Rightarrow> lru_state option" where
  "lru_walkDone walker s = do {
     _ \<leftarrow> walkers s walker;
     lru \<leftarrow> policy_data s;
     c_assert (policy_type s = Some ''lru'');
     c_assert (lru_nwalkers lru > 0);
     let s = s\<lparr>policy_data := Some (lru\<lparr>lru_nwalkers := lru_nwalkers lru - 1\<rparr>), walkers := (walkers s)(walker := None)\<rparr>;
     cbdataInternalFree walker s
   }"

definition lru_walkInit :: "addr \<Rightarrow> lru_state \<Rightarrow> lru_state option" where
  "lru_walkInit walker s = do {
     lru \<leftarrow> policy_data s;
     c_assert (int_range (lru_nwalkers lru + 1));
     let s = s\<lparr>policy_data := Some (lru\<lparr>lru_nwalkers := lru_nwalkers lru + 1\<rparr>)\<rparr>;
     (ty, s) \<leftarrow> CBDATA_INIT_TYPE (CBDATA_RemovalPolicyWalker s) s;
     let s = s\<lparr>CBDATA_RemovalPolicyWalker := ty\<rparr>;
     s \<leftarrow> cbdataInternalAlloc ty walker s;
     Some (s\<lparr>walkers := (walkers s)(walker \<mapsto> \<lparr>lw_current = dl_head (lru_list lru)\<rparr>)\<rparr>)
   }"

section \<open>Purging\<close>

text \<open>
  The loop of \<open>lru_purgeNext\<close> on the walker, the policy and the nodes: the entry to purge with its
  node unlinked and freed, or none.
\<close>

function lru_purge_loop :: "entry_heap \<Rightarrow> RemovalPurgeWalker \<Rightarrow> LruPolicyData \<Rightarrow> dl_heap \<Rightarrow>
    (addr option \<times> RemovalPurgeWalker \<times> LruPolicyData \<times> dl_heap) option" where
  "lru_purge_loop es w lru h =
     (case pw_current w of
        None \<Rightarrow> Some (None, w, lru, h)
      | Some q \<Rightarrow>
          if pw_scanned w \<ge> pw_max_scan w then Some (None, w, lru, h)
          else do {
            n \<leftarrow> h q;
            let w = w\<lparr>pw_scanned := pw_scanned w + 1, pw_current := dl_next n\<rparr>;
            let w = (if pw_current w = pw_start w then w\<lparr>pw_current := None\<rparr> else w);
            entry \<leftarrow> dl_data n;
            (l, h) \<leftarrow> dlinkDelete q (lru_list lru) h;
            e \<leftarrow> es entry;
            if storeEntryLocked e then do {
              c_assert (int_range (pw_locked w + 1));
              (l, h) \<leftarrow> dlinkAddTail entry q l h;
              lru_purge_loop es (w\<lparr>pw_locked := pw_locked w + 1\<rparr>) (lru\<lparr>lru_list := l\<rparr>) h
            }
            else do {
              let h = h(q := None);
              c_assert (int_range (lru_count lru - 1));
              Some (Some entry, w, lru\<lparr>lru_list := l, lru_count := lru_count lru - 1\<rparr>, h)
            }
          })"
  by pat_completeness auto

termination lru_purge_loop
  by (relation "measure (\<lambda>(es, w, lru, h). nat (pw_max_scan w - pw_scanned w))") (auto split: if_splits)

declare lru_purge_loop.simps [simp del]

definition lru_purgeNext :: "addr \<Rightarrow> lru_state \<Rightarrow> (addr option \<times> lru_state) option" where
  "lru_purgeNext walker s = do {
     w \<leftarrow> purge_walkers s walker;
     lru \<leftarrow> policy_data s;
     (r, w, lru, h) \<leftarrow> lru_purge_loop (entries s) w lru (lru_nodes s);
     es \<leftarrow> (case r of Some entry \<Rightarrow> SET_POLICY_NODE (lru_type lru) entry None (entries s) | None \<Rightarrow> Some (entries s));
     Some (r, s\<lparr>purge_walkers := (purge_walkers s)(walker \<mapsto> w), policy_data := Some lru, lru_nodes := h, entries := es\<rparr>)
   }"

definition lru_purgeDone :: "addr \<Rightarrow> lru_state \<Rightarrow> lru_state option" where
  "lru_purgeDone walker s = do {
     _ \<leftarrow> purge_walkers s walker;
     lru \<leftarrow> policy_data s;
     c_assert (policy_type s = Some ''lru'');
     c_assert (lru_nwalkers lru > 0);
     let s = s\<lparr>policy_data := Some (lru\<lparr>lru_nwalkers := lru_nwalkers lru - 1\<rparr>), purge_walkers := (purge_walkers s)(walker := None)\<rparr>;
     cbdataInternalFree walker s
   }"

definition lru_purgeInit :: "addr \<Rightarrow> int \<Rightarrow> lru_state \<Rightarrow> lru_state option" where
  "lru_purgeInit walker max_scan s = do {
     lru \<leftarrow> policy_data s;
     c_assert (int_range (lru_nwalkers lru + 1));
     let s = s\<lparr>policy_data := Some (lru\<lparr>lru_nwalkers := lru_nwalkers lru + 1\<rparr>)\<rparr>;
     (ty, s) \<leftarrow> CBDATA_INIT_TYPE (CBDATA_RemovalPurgeWalker s) s;
     let s = s\<lparr>CBDATA_RemovalPurgeWalker := ty\<rparr>;
     s \<leftarrow> cbdataInternalAlloc ty walker s;
     let hd = dl_head (lru_list lru);
     Some (s\<lparr>purge_walkers := (purge_walkers s)(walker \<mapsto>
               \<lparr>pw_current = hd, pw_start = hd, pw_scanned = 0, pw_max_scan = max_scan, pw_locked = 0\<rparr>)\<rparr>)
   }"

section \<open>Statistics, release and creation\<close>

text \<open>The age in seconds that \<open>lru_stats\<close> prints as days, if it prints one.\<close>

partial_function (option) lru_stats_loop :: "addr option \<Rightarrow> entry_heap \<Rightarrow> dl_heap \<Rightarrow> int \<Rightarrow> int option option" where
  "lru_stats_loop node es h squid_curtime =
     (case node of
        None \<Rightarrow> Some None
      | Some q \<Rightarrow> do {
          n \<leftarrow> h q;
          entry \<leftarrow> dl_data n;
          e \<leftarrow> es entry;
          if storeEntryLocked e then lru_stats_loop (dl_next n) es h squid_curtime
          else Some (Some (squid_curtime - se_lastref e))
        })"

definition lru_stats :: "int \<Rightarrow> lru_state \<Rightarrow> int option option" where
  "lru_stats squid_curtime s = do {
     lru \<leftarrow> policy_data s;
     lru_stats_loop (dl_head (lru_list lru)) (entries s) (lru_nodes s) squid_curtime
   }"

definition lru_free :: "lru_state \<Rightarrow> lru_state option" where
  "lru_free s = do {
     lru \<leftarrow> policy_data s;
     c_assert (policy_type s = Some ''lru'');
     c_assert (lru_nwalkers lru \<noteq> 0);
     c_assert (lru_count lru \<noteq> 0);
     let s = s\<lparr>policy_data := None, policy_type := None\<rparr>;
     cbdataInternalFree (policy s) s
   }"

definition createRemovalPolicy_lru :: "addr \<Rightarrow> string list \<Rightarrow> lru_state \<Rightarrow> lru_state option" where
  "createRemovalPolicy_lru p args s = do {
     c_assert (args = []);
     (ty, s) \<leftarrow> CBDATA_INIT_TYPE (CBDATA_RemovalPolicy s) s;
     let s = s\<lparr>CBDATA_RemovalPolicy := ty\<rparr>;
     s \<leftarrow> cbdataInternalAlloc ty p s;
     Some (s\<lparr>policy := p, policy_type := Some ''lru'',
             policy_data := Some \<lparr>lru_list = \<lparr>dl_head = None, dl_tail = None\<rparr>, lru_count = 0, lru_nwalkers = 0,
                                   lru_type = TYPE_UNKNOWN\<rparr>\<rparr>)
   }"

section \<open>The invariant\<close>

text \<open>
  A policy manages nodes in entries or nodes in memory objects; \<open>t\<close> says which, and \<open>pnode t e\<close> is
  the node of the entry \<open>e\<close>. \<open>lru_ok\<close> relates the policy to the sequence \<open>xs\<close> of its nodes with their
  entries, from the one used longest ago on: the list and the count agree with it, no other node is
  allocated, and the policy nodes of the entries point exactly to their list nodes.
\<close>

definition pnode :: "heap_entry_type \<Rightarrow> addr \<Rightarrow> policy_node" where
  "pnode t e = (if t = TYPE_STORE_MEM then MemRepl e else Repl e)"

definition lru_ok :: "heap_entry_type \<Rightarrow> LruPolicyData \<Rightarrow> dl_heap \<Rightarrow> entry_heap \<Rightarrow> (addr \<times> addr) list \<Rightarrow> bool" where
  "lru_ok t d h es xs \<longleftrightarrow> dl_rep h (lru_list d) xs \<and> dom h = fst ` set xs \<and> lru_count d = int (length xs) \<and>
     t \<noteq> TYPE_UNKNOWN \<and> (lru_type d = t \<or> lru_type d = TYPE_UNKNOWN \<and> xs = []) \<and>
     (\<forall>e q. node_get (pnode t e) es = Some (Some q) \<longleftrightarrow> (q, e) \<in> set xs)"

text \<open>The walkers are objects of the registry, and the policy counts them.\<close>

definition lru_reg :: "lru_state \<Rightarrow> addr set \<Rightarrow> bool" where
  "lru_reg s A \<longleftrightarrow> cb_inv s A {#} \<and> cb_types_ok s \<and>
     (\<forall>ty \<in> {CBDATA_RemovalPolicy s, CBDATA_RemovalPolicyWalker s, CBDATA_RemovalPurgeWalker s}.
        ty \<noteq> 0 \<longrightarrow> ty < cbdata_types s \<and> cbdata_type_entry ty s \<noteq> None)"

definition lru_cb :: "lru_state \<Rightarrow> addr set \<Rightarrow> bool" where
  "lru_cb s A \<longleftrightarrow> lru_reg s A \<and> policy_type s = Some ''lru''"

definition walkers_ok :: "lru_state \<Rightarrow> int \<Rightarrow> addr set \<Rightarrow> bool" where
  "walkers_ok s n A \<longleftrightarrow> finite (dom (walkers s)) \<and> finite (dom (purge_walkers s)) \<and>
     dom (walkers s) \<inter> dom (purge_walkers s) = {} \<and> dom (walkers s) \<union> dom (purge_walkers s) \<subseteq> A \<and>
     n = int (card (dom (walkers s)) + card (dom (purge_walkers s)))"

definition lru_inv :: "heap_entry_type \<Rightarrow> lru_state \<Rightarrow> (addr \<times> addr) list \<Rightarrow> addr set \<Rightarrow> bool" where
  "lru_inv t s xs A \<longleftrightarrow> lru_cb s A \<and>
     (\<exists>d. policy_data s = Some d \<and> lru_ok t d (lru_nodes s) (entries s) xs \<and> walkers_ok s (lru_nwalkers d) A)"

lemma lru_okD:
  assumes "lru_ok t d h es xs"
  shows "dl_rep h (lru_list d) xs" "dom h = fst ` set xs" "lru_count d = int (length xs)"
    "distinct (map fst xs)" "distinct (map snd xs)" "node_get (pnode t e) es = Some (Some q) \<longleftrightarrow> (q, e) \<in> set xs"
proof -
  show *: "dl_rep h (lru_list d) xs" "dom h = fst ` set xs" "lru_count d = int (length xs)"
      "node_get (pnode t e) es = Some (Some q) \<longleftrightarrow> (q, e) \<in> set xs" for e q
    using assms by (auto simp: lru_ok_def)
  show d: "distinct (map fst xs)"
    using dl.rep_nodes [OF *(1)] by simp
  have "inj_on snd (set xs)"
    using *(4) by (intro inj_onI) (metis option.inject prod.collapse)
  then show "distinct (map snd xs)"
    using d by (simp add: distinct_map)
qed

lemma dl_rep_restrict:
  assumes "dl_rep h l xs" "q \<notin> fst ` set xs"
  shows "dl_rep (h(q := v)) l xs"
proof -
  have "dl_links (h(q := v)) l (map fst xs)"
    by (rule dl_links_cong [of h]) (use assms in \<open>auto simp: dl_rep_def\<close>)
  moreover have "dl_dat (h(q := v)) (fst x) = dl_dat h (fst x)" if "x \<in> set xs" for x
    using assms(2) that by (auto simp: dl_dat_def)
  ultimately show ?thesis
    using assms(1) by (simp add: dl_rep_def)
qed

lemma pnode_eq [simp]: "pnode t e = pnode t e' \<longleftrightarrow> e = e'"
  by (simp add: pnode_def)

lemma SET_POLICY_NODE_pnode: "t \<noteq> TYPE_UNKNOWN \<Longrightarrow> SET_POLICY_NODE t e v es = node_put (pnode t e) v es"
  by (cases t) (simp_all add: SET_POLICY_NODE_def pnode_def)

lemma lru_cb_fields [simp]:
  "lru_cb (s\<lparr>entries := es\<rparr>) A \<longleftrightarrow> lru_cb s A" "lru_cb (s\<lparr>lru_nodes := h\<rparr>) A \<longleftrightarrow> lru_cb s A"
  "lru_cb (s\<lparr>policy_data := d\<rparr>) A \<longleftrightarrow> lru_cb s A" "lru_cb (s\<lparr>walkers := w\<rparr>) A \<longleftrightarrow> lru_cb s A"
  "lru_cb (s\<lparr>purge_walkers := p\<rparr>) A \<longleftrightarrow> lru_cb s A"
  by (simp_all add: lru_cb_def lru_reg_def cb_inv_def cb_types_ok_def cbdata_type_entry_def)

lemma walkers_ok_fields [simp]:
  "walkers_ok (s\<lparr>entries := es\<rparr>) n A \<longleftrightarrow> walkers_ok s n A" "walkers_ok (s\<lparr>lru_nodes := h\<rparr>) n A \<longleftrightarrow> walkers_ok s n A"
  "walkers_ok (s\<lparr>policy_data := d\<rparr>) n A \<longleftrightarrow> walkers_ok s n A"
  by (simp_all add: walkers_ok_def)

text \<open>The operations on entries leave the walkers alone.\<close>

definition same_walkers :: "lru_state \<Rightarrow> lru_state \<Rightarrow> bool" where
  "same_walkers s s' \<longleftrightarrow> walkers s' = walkers s \<and> purge_walkers s' = purge_walkers s"

lemma same_walkers_simps [simp]:
  "same_walkers s s" "same_walkers s (s'\<lparr>entries := es\<rparr>) \<longleftrightarrow> same_walkers s s'"
  "same_walkers s (s'\<lparr>lru_nodes := h\<rparr>) \<longleftrightarrow> same_walkers s s'" "same_walkers s (s'\<lparr>policy_data := d\<rparr>) \<longleftrightarrow> same_walkers s s'"
  by (simp_all add: same_walkers_def)

section \<open>The operations on the sequence\<close>

lemma lru_add_ok:
  assumes "lru_inv t s xs A" "node_get (pnode t e) (entries s) = Some None" "q \<notin> dom (lru_nodes s)" "int_range (int (length xs) + 1)"
  shows "\<exists>s'. lru_add e (pnode t e) q s = Some s' \<and> lru_inv t s' (xs @ [(q, e)]) A \<and> same_walkers s s'"
proof -
  obtain d where d: "policy_data s = Some d" and ok: "lru_ok t d (lru_nodes s) (entries s) xs"
      and w: "walkers_ok s (lru_nwalkers d) A"
    using assms(1) by (auto simp: lru_inv_def)
  note ok' = lru_okD [OF ok]
  define h where "h = (lru_nodes s)(q \<mapsto> \<lparr>dl_data = None, dl_prev = None, dl_next = None\<rparr>)"
  have q: "q \<notin> fst ` set xs"
    using assms(3) ok'(2) by simp
  have "dl_rep h (lru_list d) xs"
    unfolding h_def using ok'(1) q by (rule dl_rep_restrict)
  then obtain l h' where l: "dlinkAddTail e q (lru_list d) h = Some (l, h')" "dl_rep h' l (xs @ [(q, e)])"
      "dl_frame h h' (insert q (fst ` set xs))"
    using dl.add_tail_ok [of h "lru_list d" xs q e] q by (auto simp: h_def)
  obtain es where es: "node_put (pnode t e) (Some q) (entries s) = Some es" "node_get (pnode t e) es = Some (Some q)"
      "\<And>n. n \<noteq> pnode t e \<Longrightarrow> node_get n es = node_get n (entries s)" "entry_locked es = entry_locked (entries s)"
    using node_put_ok [of "pnode t e" "entries s" "Some q"] assms(2) by auto
  have ty: "(if lru_type d = TYPE_UNKNOWN then repl_guessType e (pnode t e) es else Some (lru_type d)) = Some t"
    using ok es(2) by (cases t) (auto simp: lru_ok_def repl_guessType_def pnode_def node_get_def bind_eq_Some_conv)
  define d' where "d' = d\<lparr>lru_list := l, lru_count := lru_count d + 1, lru_type := t\<rparr>"
  have "lru_add e (pnode t e) q s = Some (s\<lparr>entries := es, lru_nodes := h', policy_data := Some d'\<rparr>)"
    using d assms(2,4) es(1) l(1) ty ok'(3) by (simp add: lru_add_def h_def [symmetric] d'_def)
  moreover have "lru_ok t d' h' es (xs @ [(q, e)])"
  proof -
    have "node_get (pnode t x) es = Some (Some y) \<longleftrightarrow> (y, x) \<in> set (xs @ [(q, e)])" for x y
      using es(2,3) ok'(6) [of x y] assms(2) by (cases "x = e") auto
    moreover have "dom h' = insert q (fst ` set xs)"
      using l(3) ok'(2) by (auto simp: dl_frame_def h_def)
    ultimately show ?thesis
      using l(2) ok ok'(3) by (simp add: lru_ok_def d'_def)
  qed
  moreover have "lru_nwalkers d' = lru_nwalkers d"
    by (simp add: d'_def)
  ultimately show ?thesis
    using assms(1) w by (simp add: lru_inv_def)
qed

text \<open>An entry in the policy: its position, and what its policy node holds.\<close>

lemma lru_member:
  assumes "lru_ok t d h es xs" "node_get (pnode t e) es = Some (Some q)"
  obtains us vs where "xs = us @ (q, e) # vs" "filter (\<lambda>x. snd x \<noteq> e) xs = us @ vs"
proof -
  obtain us vs where xs: "xs = us @ (q, e) # vs"
    using assms lru_okD(6) by (metis split_list)
  moreover have "filter (\<lambda>x. snd x \<noteq> e) us = us" "filter (\<lambda>x. snd x \<noteq> e) vs = vs"
    using lru_okD(5) [OF assms(1)] xs by (auto simp: filter_id_conv)
  ultimately show ?thesis
    using that [of us vs] by simp
qed

lemma lru_absent:
  assumes "lru_ok t d h es xs" "node_get (pnode t e) es = Some None"
  shows "filter (\<lambda>x. snd x \<noteq> e) xs = xs" "e \<notin> snd ` set xs"
  using assms lru_okD(6) [OF assms(1), of e] by (auto simp: filter_id_conv)

text \<open>A node that is unlinked and freed, while its entry forgets it.\<close>

lemma lru_ok_drop:
  assumes "lru_ok t d h es (us @ (q, e) # vs)"
  shows "\<exists>l h'. dlinkDelete q (lru_list d) h = Some (l, h') \<and>
    (\<forall>es'. node_get (pnode t e) es' = Some None \<longrightarrow> (\<forall>n. n \<noteq> pnode t e \<longrightarrow> node_get n es' = node_get n es) \<longrightarrow>
      lru_ok t (d\<lparr>lru_list := l, lru_count := lru_count d - 1\<rparr>) (h'(q := None)) es' (us @ vs))"
proof -
  note ok = lru_okD [OF assms]
  obtain l h' where l: "dlinkDelete q (lru_list d) h = Some (l, h')" "dl_rep h' l (us @ vs)"
      "dl_frame h h' (insert q (fst ` (set us \<union> set vs)))"
    using dl.del_ok [OF ok(1)] by blast
  have q: "q \<notin> fst ` set (us @ vs)" "e \<notin> snd ` set (us @ vs)"
    using ok(4,5) by auto
  have "lru_ok t (d\<lparr>lru_list := l, lru_count := lru_count d - 1\<rparr>) (h'(q := None)) es' (us @ vs)"
    if es': "node_get (pnode t e) es' = Some None" "\<And>n. n \<noteq> pnode t e \<Longrightarrow> node_get n es' = node_get n es" for es'
  proof -
    have "node_get (pnode t x) es' = Some (Some y) \<longleftrightarrow> (y, x) \<in> set (us @ vs)" for x y
      using es' ok(6) [of x y] q(2) by (cases "x = e") force+
    moreover have "dom (h'(q := None)) = fst ` set (us @ vs)"
      using l(3) ok(2) q(1) by (auto simp: dl_frame_def)
    moreover have "dl_rep (h'(q := None)) l (us @ vs)"
      using l(2) q(1) by (rule dl_rep_restrict)
    ultimately show ?thesis
      using assms by (auto simp: lru_ok_def)
  qed
  with l(1) show ?thesis
    by blast
qed

lemma lru_remove_ok:
  assumes "lru_inv t s xs A" "node_get (pnode t e) (entries s) \<noteq> None" "int_range (int (length xs))"
  shows "\<exists>s'. lru_remove e (pnode t e) s = Some s' \<and> lru_inv t s' (filter (\<lambda>x. snd x \<noteq> e) xs) A \<and> same_walkers s s'"
proof -
  obtain d where d: "policy_data s = Some d" and ok: "lru_ok t d (lru_nodes s) (entries s) xs"
      and w: "walkers_ok s (lru_nwalkers d) A"
    using assms(1) by (auto simp: lru_inv_def)
  obtain v where v: "node_get (pnode t e) (entries s) = Some v"
    using assms(2) by auto
  show ?thesis
  proof (cases v)
    case None
    then show ?thesis
      using assms(1) d v lru_absent [OF ok] by (simp add: lru_remove_def)
  next
    case (Some q)
    obtain us vs where xs: "xs = us @ (q, e) # vs" "filter (\<lambda>x. snd x \<noteq> e) xs = us @ vs"
      using lru_member [OF ok] v Some by blast
    obtain n where n: "lru_nodes s q = Some n" "dl_data n = Some e"
      using lru_okD(1) [OF ok] xs(1) by (auto simp: dl_rep_def dl_dat_def bind_eq_Some_conv)
    obtain l h' where l: "dlinkDelete q (lru_list d) (lru_nodes s) = Some (l, h')"
        "\<And>es'. node_get (pnode t e) es' = Some None \<Longrightarrow> (\<forall>n. n \<noteq> pnode t e \<longrightarrow> node_get n es' = node_get n (entries s)) \<Longrightarrow>
          lru_ok t (d\<lparr>lru_list := l, lru_count := lru_count d - 1\<rparr>) (h'(q := None)) es' (us @ vs)"
      using lru_ok_drop [OF ok [unfolded xs(1)]] by blast
    obtain es where es: "node_put (pnode t e) None (entries s) = Some es" "node_get (pnode t e) es = Some None"
        "\<forall>n. n \<noteq> pnode t e \<longrightarrow> node_get n es = node_get n (entries s)"
      using node_put_ok [of "pnode t e" "entries s" None] v by auto
    have "int_range (lru_count d - 1)"
      using assms(3) lru_okD(3) [OF ok] xs(1) by (simp add: int_range_def)
    then show ?thesis
      using d v Some n l(1) l(2) [OF es(2,3)] es(1) xs(2) assms(1) w
      by (auto simp: lru_remove_def lru_inv_def)
  qed
qed

lemma lru_ok_rotate:
  assumes "lru_ok t d h es (us @ (q, e) # vs)"
  shows "\<exists>l h1 l2 h2. dlinkDelete q (lru_list d) h = Some (l, h1) \<and> dlinkAddTail e q l h1 = Some (l2, h2) \<and>
    lru_ok t (d\<lparr>lru_list := l2\<rparr>) h2 es (us @ vs @ [(q, e)])"
proof -
  note ok = lru_okD [OF assms]
  obtain l h1 l2 h2 where l: "dlinkDelete q (lru_list d) h = Some (l, h1)" "dlinkAddTail e q l h1 = Some (l2, h2)"
      "dl_rep h2 l2 (us @ vs @ [(q, e)])" "dl_frame h h2 (fst ` set (us @ (q, e) # vs))"
    using dl.move_tail [OF ok(1), of e] by blast
  have "dom h2 = fst ` set (us @ vs @ [(q, e)])"
    using l(4) ok(2) by (auto simp: dl_frame_def)
  then have "lru_ok t (d\<lparr>lru_list := l2\<rparr>) h2 es (us @ vs @ [(q, e)])"
    using assms l(3) by (auto simp: lru_ok_def)
  with l show ?thesis
    by blast
qed

lemma lru_referenced_ok:
  assumes "lru_inv t s xs A" "node_get (pnode t e) (entries s) = Some v"
  shows "\<exists>s'. lru_referenced e (pnode t e) s = Some s' \<and>
    lru_inv t s' (case v of None \<Rightarrow> xs | Some q \<Rightarrow> filter (\<lambda>x. snd x \<noteq> e) xs @ [(q, e)]) A \<and> same_walkers s s'"
proof -
  obtain d where d: "policy_data s = Some d" and ok: "lru_ok t d (lru_nodes s) (entries s) xs"
      and w: "walkers_ok s (lru_nwalkers d) A"
    using assms(1) by (auto simp: lru_inv_def)
  show ?thesis
  proof (cases v)
    case None
    then show ?thesis
      using assms d by (simp add: lru_referenced_def)
  next
    case (Some q)
    obtain us vs where xs: "xs = us @ (q, e) # vs" "filter (\<lambda>x. snd x \<noteq> e) xs = us @ vs"
      using lru_member [OF ok] assms(2) Some by blast
    show ?thesis
      using lru_ok_rotate [OF ok [unfolded xs(1)]] d assms Some xs(2) w
      by (auto simp: lru_referenced_def lru_inv_def)
  qed
qed

section \<open>Walkers\<close>

lemma cb_inv_lru [simp]:
  fixes s :: lru_state
  shows "cb_inv (s\<lparr>CBDATA_RemovalPolicy := ty\<rparr>) A L \<longleftrightarrow> cb_inv s A L"
    "cb_inv (s\<lparr>CBDATA_RemovalPolicyWalker := ty\<rparr>) A L \<longleftrightarrow> cb_inv s A L"
    "cb_inv (s\<lparr>CBDATA_RemovalPurgeWalker := ty\<rparr>) A L \<longleftrightarrow> cb_inv s A L"
    "cb_inv (s\<lparr>policy_data := d\<rparr>) A L \<longleftrightarrow> cb_inv s A L"
  by (simp_all add: cb_inv_def cbdata_type_entry_def)

lemma type_entry_lru [simp]:
  fixes s :: lru_state
  shows "cbdata_type_entry x (s\<lparr>CBDATA_RemovalPolicy := ty\<rparr>) = cbdata_type_entry x s"
    "cbdata_type_entry x (s\<lparr>CBDATA_RemovalPolicyWalker := ty\<rparr>) = cbdata_type_entry x s"
    "cbdata_type_entry x (s\<lparr>CBDATA_RemovalPurgeWalker := ty\<rparr>) = cbdata_type_entry x s"
  by (simp_all add: cbdata_type_entry_def)

text \<open>The policy and the two kinds of walkers are allocated in the same way; \<open>set_type\<close> stores the number of the type.\<close>

lemma lru_reg_count: "lru_reg s A \<Longrightarrow> cbdataCount s = int (card A)"
  by (simp add: lru_reg_def cb_inv_def cb_alive_def)

lemma lru_new_object:
  assumes "lru_reg s A" "p \<notin> A"
    "(ty, set_type) \<in> {(CBDATA_RemovalPolicy s, \<lambda>t s. s\<lparr>CBDATA_RemovalPolicy := t\<rparr>),
                        (CBDATA_RemovalPolicyWalker s, \<lambda>t s. s\<lparr>CBDATA_RemovalPolicyWalker := t\<rparr>),
                        (CBDATA_RemovalPurgeWalker s, \<lambda>t s. s\<lparr>CBDATA_RemovalPurgeWalker := t\<rparr>)}"
    "int_range (cbdataCount s + 1)"
  shows "\<exists>ty' i n h c. CBDATA_INIT_TYPE ty s = Some (ty', s\<lparr>cbdata_index := i, cbdata_types := n\<rparr>) \<and>
    cbdataInternalAlloc ty' p (set_type ty' (s\<lparr>cbdata_index := i, cbdata_types := n\<rparr>)) =
      Some ((set_type ty' (s\<lparr>cbdata_index := i, cbdata_types := n\<rparr>))\<lparr>cb_heap := h, cbdataCount := c\<rparr>) \<and>
    lru_reg ((set_type ty' (s\<lparr>cbdata_index := i, cbdata_types := n\<rparr>))\<lparr>cb_heap := h, cbdataCount := c\<rparr>) (insert p A)"
proof -
  have cb: "cb_inv s A {#}" "cb_types_ok s" "ty \<noteq> 0 \<longrightarrow> ty < cbdata_types s \<and> cbdata_type_entry ty s \<noteq> None"
    using assms(1,3) by (auto simp: lru_reg_def)
  obtain ty' s1 where 1: "CBDATA_INIT_TYPE ty s = Some (ty', s1)" "cb_inv s1 A {#}" "cb_types_ok s1" "0 < ty'"
      "ty' < cbdata_types s1" "cbdata_type_entry ty' s1 \<noteq> None" "cbdata_types s \<le> cbdata_types s1"
      "\<forall>ty. cbdata_type_entry ty s \<noteq> None \<longrightarrow> cbdata_type_entry ty s1 \<noteq> None"
      and ex: "\<exists>i n. s1 = s\<lparr>cbdata_index := i, cbdata_types := n\<rparr>"
    using CBDATA_INIT_TYPE_ok [OF cb] by blast
  obtain i n where s1: "s1 = s\<lparr>cbdata_index := i, cbdata_types := n\<rparr>"
    using ex by blast
  define s2 where "s2 = set_type ty' s1"
  have 2: "cb_inv s2 A {#}" "cb_types_ok s2" "ty' < cbdata_types s2" "cbdata_types s2 = cbdata_types s1"
      "\<And>x. cbdata_type_entry x s2 = cbdata_type_entry x s1"
      "{CBDATA_RemovalPolicy s2, CBDATA_RemovalPolicyWalker s2, CBDATA_RemovalPurgeWalker s2} \<subseteq>
        {ty', CBDATA_RemovalPolicy s, CBDATA_RemovalPolicyWalker s, CBDATA_RemovalPurgeWalker s}"
      "int_range (cbdataCount s2 + 1)"
    using assms(3,4) 1(2,3,5) by (auto simp: s2_def s1 cb_types_ok_def)
  obtain s3 where s3: "cbdataInternalAlloc ty' p s2 = Some s3" "cb_inv s3 (insert p A) {#}"
    using cbdataInternalAlloc_ok [OF 2(1), of p ty'] assms(2) 1(4,6) 2(3,5,7) by (auto simp: cb_alive_def)
  obtain h c where s3': "s3 = s2\<lparr>cb_heap := h, cbdataCount := c\<rparr>"
    using cbdataInternalAlloc_frame [OF s3(1)] by blast
  have "lru_reg s3 (insert p A)"
    unfolding lru_reg_def
  proof (intro conjI ballI impI)
    fix x
    assume x: "x \<in> {CBDATA_RemovalPolicy s3, CBDATA_RemovalPolicyWalker s3, CBDATA_RemovalPurgeWalker s3}" "x \<noteq> 0"
    then have "x = ty' \<or> x \<in> {CBDATA_RemovalPolicy s, CBDATA_RemovalPolicyWalker s, CBDATA_RemovalPurgeWalker s}"
      using 2(6) by (auto simp: s3')
    then have "x < cbdata_types s1 \<and> cbdata_type_entry x s1 \<noteq> None"
      using assms(1) 1(5-8) x(2) by (fastforce simp: lru_reg_def)
    then show "x < cbdata_types s3" "cbdata_type_entry x s3 \<noteq> None"
      using 2(4,5) by (auto simp: s3')
  qed (use s3(2) 2 in \<open>auto simp: s3' cb_types_ok_def\<close>)
  then show ?thesis
    using 1(1) s3(1) unfolding s3' s2_def s1 by blast
qed

text \<open>Releasing an object changes no type.\<close>

lemma lru_cb_free:
  assumes "lru_cb s A" "p \<in> A"
  shows "\<exists>h n c. cbdataInternalFree p s = Some (s\<lparr>cb_heap := h, cbdataCount := n, cb_calls := c\<rparr>) \<and>
    lru_cb (s\<lparr>cb_heap := h, cbdataCount := n, cb_calls := c\<rparr>) (A - {p})"
proof -
  obtain s2 where s2: "cbdataInternalFree p s = Some s2" "cb_inv s2 (A - {p}) {#}"
    using cbdataInternalFree_ok [of s A "{#}" p] assms by (auto simp: lru_cb_def lru_reg_def)
  obtain h n c where s2': "s2 = s\<lparr>cb_heap := h, cbdataCount := n, cb_calls := c\<rparr>"
    using cbdataInternalFree_frame [OF s2(1)] by blast
  have "lru_cb s2 (A - {p})"
    using assms(1) s2(2) by (auto simp: lru_cb_def lru_reg_def s2' cb_types_ok_def)
  then show ?thesis
    using s2(1) unfolding s2' by blast
qed

text \<open>The pointer to the first node of a sequence.\<close>

definition first_node :: "(addr \<times> addr) list \<Rightarrow> addr option" where
  "first_node xs = (case xs of [] \<Rightarrow> None | x # _ \<Rightarrow> Some (fst x))"

lemma first_node_simps [simp]: "first_node [] = None" "first_node (x # xs) = Some (fst x)"
  by (simp_all add: first_node_def)

lemma lru_ok_head:
  assumes "lru_ok t d h es xs"
  shows "dl_head (lru_list d) = first_node xs"
proof -
  have "dl_links h (lru_list d) (map fst xs)"
    using lru_okD(1) [OF assms] by (simp add: dl_rep_def)
  then show ?thesis
    by (cases xs) (simp_all add: dl_links_ends)
qed

lemma lru_ok_nwalkers [simp]: "lru_ok t (d\<lparr>lru_nwalkers := n\<rparr>) h es xs \<longleftrightarrow> lru_ok t d h es xs"
  by (simp add: lru_ok_def)

lemma lru_ok_node:
  assumes "lru_ok t d h es (us @ (q, e) # vs)"
  obtains n where "h q = Some n" "dl_data n = Some e" "dl_next n = first_node vs"
proof -
  have rep: "dl_links h (lru_list d) (map fst us @ q # map fst vs)" "dl_dat h q = Some e"
    using lru_okD(1) [OF assms] by (auto simp: dl_rep_def)
  obtain n where "h q = Some n" "dl_next n = (if map fst vs = [] then None else Some (hd (map fst vs)))"
      "dl_prev n = (if map fst us = [] then None else Some (last (map fst us)))"
    using dl_links_node [OF rep(1)] .
  then show ?thesis
    using that rep(2) by (cases vs) (auto simp: dl_dat_def)
qed

text \<open>The counters of walkers and of objects have room for one more.\<close>

definition walkers_fit :: "lru_state \<Rightarrow> bool" where
  "walkers_fit s \<longleftrightarrow> int_range (int (card (dom (walkers s)) + card (dom (purge_walkers s))) + 1) \<and> int_range (cbdataCount s + 1)"

lemma lru_walkInit_ok:
  assumes "lru_inv t s xs A" "w \<notin> A" "walkers_fit s"
  shows "\<exists>s'. lru_walkInit w s = Some s' \<and> lru_inv t s' xs (insert w A) \<and> walkers s' w = Some \<lparr>lw_current = first_node xs\<rparr>"
proof -
  obtain d where d: "policy_data s = Some d" "lru_ok t d (lru_nodes s) (entries s) xs" "walkers_ok s (lru_nwalkers d) A"
    using assms(1) by (auto simp: lru_inv_def)
  define s0 where "s0 = s\<lparr>policy_data := Some (d\<lparr>lru_nwalkers := lru_nwalkers d + 1\<rparr>)\<rparr>"
  have "lru_cb s0 A"
    using assms(1) by (simp add: s0_def lru_inv_def)
  then have reg: "lru_reg s0 A" and ty0: "policy_type s0 = Some ''lru''"
    by (simp_all add: lru_cb_def)
  have fit: "int_range (cbdataCount s0 + 1)"
    using assms(3) by (simp add: walkers_fit_def s0_def)
  obtain ty i n h c where new: "CBDATA_INIT_TYPE (CBDATA_RemovalPolicyWalker s0) s0 = Some (ty, s0\<lparr>cbdata_index := i, cbdata_types := n\<rparr>)"
      "cbdataInternalAlloc ty w (s0\<lparr>cbdata_index := i, cbdata_types := n, CBDATA_RemovalPolicyWalker := ty\<rparr>) =
        Some (s0\<lparr>cbdata_index := i, cbdata_types := n, CBDATA_RemovalPolicyWalker := ty, cb_heap := h, cbdataCount := c\<rparr>)"
      "lru_reg (s0\<lparr>cbdata_index := i, cbdata_types := n, CBDATA_RemovalPolicyWalker := ty, cb_heap := h, cbdataCount := c\<rparr>) (insert w A)"
    using lru_new_object [OF reg assms(2), of "CBDATA_RemovalPolicyWalker s0" "\<lambda>t s. s\<lparr>CBDATA_RemovalPolicyWalker := t\<rparr>"] fit by blast
  define s1 where "s1 = s0\<lparr>cbdata_index := i, cbdata_types := n, CBDATA_RemovalPolicyWalker := ty, cb_heap := h, cbdataCount := c\<rparr>"
  have "int_range (lru_nwalkers d + 1)"
    using d(3) assms(3) by (simp add: walkers_ok_def walkers_fit_def)
  then have "lru_walkInit w s = Some (s1\<lparr>walkers := (walkers s)(w \<mapsto> \<lparr>lw_current = first_node xs\<rparr>)\<rparr>)"
    using d(1) new lru_ok_head [OF d(2)] by (simp add: lru_walkInit_def s0_def [symmetric] s1_def) (simp add: s0_def)
  moreover have "w \<notin> dom (walkers s) \<union> dom (purge_walkers s)"
    using d(3) assms(2) by (auto simp: walkers_ok_def)
  then have "walkers_ok (s1\<lparr>walkers := (walkers s)(w \<mapsto> v)\<rparr>) (lru_nwalkers d + 1) (insert w A)" for v
    using d(3) by (auto simp: walkers_ok_def s1_def s0_def)
  moreover have "lru_cb s1 (insert w A)"
    using new(3) ty0 by (simp add: lru_cb_def s1_def)
  ultimately show ?thesis
    using d by (auto simp: lru_inv_def) (auto simp: s1_def s0_def)
qed

lemma lru_purgeInit_ok:
  assumes "lru_inv t s xs A" "w \<notin> A" "walkers_fit s"
  shows "\<exists>s'. lru_purgeInit w m s = Some s' \<and> lru_inv t s' xs (insert w A) \<and> entries s' = entries s \<and>
    purge_walkers s' w = Some \<lparr>pw_current = first_node xs, pw_start = first_node xs, pw_scanned = 0, pw_max_scan = m, pw_locked = 0\<rparr>"
proof -
  obtain d where d: "policy_data s = Some d" "lru_ok t d (lru_nodes s) (entries s) xs" "walkers_ok s (lru_nwalkers d) A"
    using assms(1) by (auto simp: lru_inv_def)
  define s0 where "s0 = s\<lparr>policy_data := Some (d\<lparr>lru_nwalkers := lru_nwalkers d + 1\<rparr>)\<rparr>"
  have "lru_cb s0 A"
    using assms(1) by (simp add: s0_def lru_inv_def)
  then have reg: "lru_reg s0 A" and ty0: "policy_type s0 = Some ''lru''"
    by (simp_all add: lru_cb_def)
  have fit: "int_range (cbdataCount s0 + 1)"
    using assms(3) by (simp add: walkers_fit_def s0_def)
  obtain ty i n h c where new: "CBDATA_INIT_TYPE (CBDATA_RemovalPurgeWalker s0) s0 = Some (ty, s0\<lparr>cbdata_index := i, cbdata_types := n\<rparr>)"
      "cbdataInternalAlloc ty w (s0\<lparr>cbdata_index := i, cbdata_types := n, CBDATA_RemovalPurgeWalker := ty\<rparr>) =
        Some (s0\<lparr>cbdata_index := i, cbdata_types := n, CBDATA_RemovalPurgeWalker := ty, cb_heap := h, cbdataCount := c\<rparr>)"
      "lru_reg (s0\<lparr>cbdata_index := i, cbdata_types := n, CBDATA_RemovalPurgeWalker := ty, cb_heap := h, cbdataCount := c\<rparr>) (insert w A)"
    using lru_new_object [OF reg assms(2), of "CBDATA_RemovalPurgeWalker s0" "\<lambda>t s. s\<lparr>CBDATA_RemovalPurgeWalker := t\<rparr>"] fit by blast
  define s1 where "s1 = s0\<lparr>cbdata_index := i, cbdata_types := n, CBDATA_RemovalPurgeWalker := ty, cb_heap := h, cbdataCount := c\<rparr>"
  define pw where "pw = \<lparr>pw_current = first_node xs, pw_start = first_node xs, pw_scanned = 0, pw_max_scan = m, pw_locked = 0\<rparr>"
  have "int_range (lru_nwalkers d + 1)"
    using d(3) assms(3) by (simp add: walkers_ok_def walkers_fit_def)
  then have "lru_purgeInit w m s = Some (s1\<lparr>purge_walkers := (purge_walkers s)(w \<mapsto> pw)\<rparr>)"
    using d(1) new lru_ok_head [OF d(2)] by (simp add: lru_purgeInit_def s0_def [symmetric] s1_def pw_def) (simp add: s0_def Let_def)
  moreover have "w \<notin> dom (walkers s) \<union> dom (purge_walkers s)"
    using d(3) assms(2) by (auto simp: walkers_ok_def)
  then have "walkers_ok (s1\<lparr>purge_walkers := (purge_walkers s)(w \<mapsto> v)\<rparr>) (lru_nwalkers d + 1) (insert w A)" for v
    using d(3) by (auto simp: walkers_ok_def s1_def s0_def)
  moreover have "lru_cb s1 (insert w A)"
    using new(3) ty0 by (simp add: lru_cb_def s1_def)
  ultimately show ?thesis
    using d by (auto simp: lru_inv_def pw_def [symmetric]) (auto simp: s1_def s0_def)
qed

text \<open>A walk visits the entries in order. \<open>lru_walk_all\<close> is the loop of a client.\<close>

partial_function (option) lru_walk_all :: "addr \<Rightarrow> lru_state \<Rightarrow> (addr list \<times> lru_state) option" where
  "lru_walk_all w s = do {
     (r, s) \<leftarrow> lru_walkNext w s;
     (case r of
        None \<Rightarrow> Some ([], s)
      | Some e \<Rightarrow> do { (es, s) \<leftarrow> lru_walk_all w s; Some (e # es, s) })
   }"

lemma lru_inv_walker:
  assumes "lru_inv t s xs A" "w \<in> dom (walkers s)"
  shows "lru_inv t (s\<lparr>walkers := (walkers s)(w \<mapsto> v)\<rparr>) xs A"
proof -
  have "insert w (dom (walkers s)) = dom (walkers s)"
    using assms(2) by auto
  then show ?thesis
    using assms(1) by (auto simp: lru_inv_def walkers_ok_def)
qed

lemma lru_walk_all_ok:
  assumes "lru_inv t s xs A" "walkers s w = Some \<lparr>lw_current = first_node ys\<rparr>" "xs = us @ ys"
  shows "\<exists>s'. lru_walk_all w s = Some (map snd ys, s') \<and> lru_inv t s' xs A \<and> w \<in> dom (walkers s')"
  using assms
proof (induction ys arbitrary: us s)
  case Nil
  then show ?case
    by (subst lru_walk_all.simps) (auto simp: lru_walkNext_def)
next
  case (Cons y ys)
  obtain q e where y: "y = (q, e)"
    by (cases y)
  obtain d where "lru_ok t d (lru_nodes s) (entries s) (us @ (q, e) # ys)"
    using Cons.prems y by (auto simp: lru_inv_def)
  then obtain n where n: "lru_nodes s q = Some n" "dl_data n = Some e" "dl_next n = first_node ys"
    by (rule lru_ok_node)
  define s1 where "s1 = s\<lparr>walkers := (walkers s)(w \<mapsto> \<lparr>lw_current = first_node ys\<rparr>)\<rparr>"
  have "lru_walkNext w s = Some (Some e, s1)"
    using n Cons.prems(2) y by (simp add: lru_walkNext_def s1_def)
  moreover have "lru_inv t s1 xs A"
    unfolding s1_def using Cons.prems(1,2) by (intro lru_inv_walker) auto
  ultimately show ?case
    using Cons.IH [of s1 "us @ [y]"] Cons.prems(3) y by (subst lru_walk_all.simps) (auto simp: s1_def)
qed

lemma lru_walkDone_ok:
  assumes "lru_inv t s xs A" "w \<in> dom (walkers s)"
  shows "\<exists>s'. lru_walkDone w s = Some s' \<and> lru_inv t s' xs (A - {w})"
proof -
  obtain d where d: "policy_data s = Some d" "lru_ok t d (lru_nodes s) (entries s) xs" "walkers_ok s (lru_nwalkers d) A"
    using assms(1) by (auto simp: lru_inv_def)
  have cb: "lru_cb s A"
    using assms(1) by (simp add: lru_inv_def)
  have wA: "w \<in> A" "w \<notin> dom (purge_walkers s)" "card (dom (walkers s)) > 0"
    using d(3) assms(2) by (auto simp: walkers_ok_def card_gt_0_iff)
  define s1 where "s1 = s\<lparr>policy_data := Some (d\<lparr>lru_nwalkers := lru_nwalkers d - 1\<rparr>), walkers := (walkers s)(w := None)\<rparr>"
  have "lru_cb s1 A"
    using cb by (simp add: s1_def)
  then obtain h n c where free: "cbdataInternalFree w s1 = Some (s1\<lparr>cb_heap := h, cbdataCount := n, cb_calls := c\<rparr>)"
      "lru_cb (s1\<lparr>cb_heap := h, cbdataCount := n, cb_calls := c\<rparr>) (A - {w})"
    using lru_cb_free wA(1) by blast
  define s2 where "s2 = s1\<lparr>cb_heap := h, cbdataCount := n, cb_calls := c\<rparr>"
  obtain v where "walkers s w = Some v"
    using assms(2) by auto
  moreover have "0 < lru_nwalkers d" "policy_type s = Some ''lru''"
    using d(3) wA(3) cb by (simp_all add: walkers_ok_def lru_cb_def)
  ultimately have "lru_walkDone w s = Some s2"
    using d(1) free(1) by (simp add: lru_walkDone_def s1_def [symmetric] s2_def)
  moreover have "lru_cb s2 (A - {w})"
    using free(2) by (simp add: s2_def)
  moreover have "walkers_ok s2 (lru_nwalkers d - 1) (A - {w})"
    using d(3) wA assms(2) by (auto simp: walkers_ok_def s2_def s1_def of_nat_diff)
  ultimately show ?thesis
    using d(2) by (auto simp: lru_inv_def) (auto simp: s2_def s1_def)
qed

section \<open>Histories\<close>

text \<open>
  The calls that change the policy, on entries whose policy nodes are of the kind \<open>t\<close>. The protocol:
  an entry is added when its node is empty, with memory that is not in use; entries that are removed
  or referenced exist.
\<close>

datatype lru_op = Add addr addr | Remove addr | Reference addr

fun lru_do :: "heap_entry_type \<Rightarrow> lru_op \<Rightarrow> lru_state \<Rightarrow> lru_state option" where
  "lru_do t (Add e q) s = lru_add e (pnode t e) q s"
| "lru_do t (Remove e) s = lru_remove e (pnode t e) s"
| "lru_do t (Reference e) s = lru_referenced e (pnode t e) s"

fun lru_pre :: "heap_entry_type \<Rightarrow> lru_op \<Rightarrow> lru_state \<Rightarrow> bool" where
  "lru_pre t (Add e q) s \<longleftrightarrow> node_get (pnode t e) (entries s) = Some None \<and> lru_nodes s q = None"
| "lru_pre t (Remove e) s \<longleftrightarrow> node_get (pnode t e) (entries s) \<noteq> None"
| "lru_pre t (Reference e) s \<longleftrightarrow> node_get (pnode t e) (entries s) \<noteq> None"

fun lru_exec :: "heap_entry_type \<Rightarrow> lru_op list \<Rightarrow> lru_state \<Rightarrow> lru_state option" where
  "lru_exec t [] s = Some s"
| "lru_exec t (x # ops) s = do { s \<leftarrow> lru_do t x s; lru_exec t ops s }"

fun lru_legal :: "heap_entry_type \<Rightarrow> lru_op list \<Rightarrow> lru_state \<Rightarrow> bool" where
  "lru_legal t [] s \<longleftrightarrow> True"
| "lru_legal t (x # ops) s \<longleftrightarrow> lru_pre t x s \<and> (case lru_do t x s of Some s' \<Rightarrow> lru_legal t ops s' | None \<Rightarrow> True)"

text \<open>
  The uses of a history, oldest first: an entry that is removed is forgotten, and referencing an
  entry that is not in the policy is no use of it.
\<close>

fun lru_use :: "lru_op \<Rightarrow> addr list \<Rightarrow> addr list" where
  "lru_use (Add e q) us = us @ [e]"
| "lru_use (Remove e) us = filter (\<lambda>x. x \<noteq> e) us"
| "lru_use (Reference e) us = (if e \<in> set us then us @ [e] else us)"

lemma remdups_snoc: "remdups (xs @ [x]) = filter (\<lambda>y. y \<noteq> x) (remdups xs) @ [x]"
  by (induction xs) auto

lemma map_snd_filter: "map snd (filter (\<lambda>x. snd x \<noteq> e) xs) = filter (\<lambda>y. y \<noteq> e) (map snd xs)"
  by (induction xs) auto

lemma lru_do_ok:
  assumes "lru_inv t s xs A" "lru_pre t x s" "int_range (int (length xs) + 1)" "map snd xs = remdups us"
  shows "\<exists>s' ys. lru_do t x s = Some s' \<and> lru_inv t s' ys A \<and> map snd ys = remdups (lru_use x us) \<and> length ys \<le> length xs + 1 \<and>
    same_walkers s s'"
proof -
  obtain d where ok: "lru_ok t d (lru_nodes s) (entries s) xs"
    using assms(1) by (auto simp: lru_inv_def)
  have set: "set us = snd ` set xs"
    using arg_cong [OF assms(4), of set] by simp
  show ?thesis
  proof (cases x)
    case (Add e q)
    then have pre: "node_get (pnode t e) (entries s) = Some None" "q \<notin> dom (lru_nodes s)"
      using assms(2) by auto
    have "filter (\<lambda>y. y \<noteq> e) (remdups us) = remdups us"
      using lru_absent(2) [OF ok pre(1)] set by (auto simp: filter_id_conv)
    then have "map snd (xs @ [(q, e)]) = remdups (us @ [e])"
      using assms(4) by (simp add: remdups_snoc)
    moreover obtain s' where "lru_add e (pnode t e) q s = Some s'" "lru_inv t s' (xs @ [(q, e)]) A" "same_walkers s s'"
      using lru_add_ok [OF assms(1) pre assms(3)] by blast
    ultimately show ?thesis
      using Add by (intro exI [of _ s'] exI [of _ "xs @ [(q, e)]"]) simp
  next
    case (Remove e)
    have "int_range (int (length xs))"
      using assms(3) by (simp add: int_range_def)
    then obtain s' where "lru_remove e (pnode t e) s = Some s'" "lru_inv t s' (filter (\<lambda>x. snd x \<noteq> e) xs) A" "same_walkers s s'"
      using lru_remove_ok [OF assms(1), of e] assms(2) Remove by auto
    moreover have "map snd (filter (\<lambda>x. snd x \<noteq> e) xs) = remdups (filter (\<lambda>x. x \<noteq> e) us)"
      by (simp add: map_snd_filter assms(4) remdups_filter)
    ultimately show ?thesis
      using Remove by (intro exI [of _ s'] exI [of _ "filter (\<lambda>x. snd x \<noteq> e) xs"]) (simp add: le_SucI)
  next
    case (Reference e)
    then obtain v where v: "node_get (pnode t e) (entries s) = Some v"
      using assms(2) by auto
    note r = lru_referenced_ok [OF assms(1) v]
    show ?thesis
    proof (cases v)
      case None
      then have "e \<notin> set us"
        using lru_absent(2) [OF ok] v set by simp
      then show ?thesis
        using r None Reference assms(4) by (fastforce intro: exI [of _ xs])
    next
      case (Some q)
      then have "(q, e) \<in> set xs"
        using v lru_okD(6) [OF ok] by simp
      then have e: "e \<in> set us"
        using set by force
      have "map snd (filter (\<lambda>x. snd x \<noteq> e) xs @ [(q, e)]) = remdups (us @ [e])"
        by (simp add: map_snd_filter assms(4) remdups_snoc)
      moreover obtain s' where "lru_referenced e (pnode t e) s = Some s'" "same_walkers s s'"
          "lru_inv t s' (filter (\<lambda>x. snd x \<noteq> e) xs @ [(q, e)]) A"
        using r Some by auto
      ultimately show ?thesis
        using Reference e by (intro exI [of _ s'] exI [of _ "filter (\<lambda>x. snd x \<noteq> e) xs @ [(q, e)]"]) simp
    qed
  qed
qed

lemma lru_exec_ok:
  assumes "lru_inv t s xs A" "lru_legal t ops s" "int_range (int (length xs) + int (length ops))" "map snd xs = remdups us"
  shows "\<exists>s' ys. lru_exec t ops s = Some s' \<and> lru_inv t s' ys A \<and> map snd ys = remdups (fold lru_use ops us) \<and>
    same_walkers s s'"
  using assms
proof (induction ops arbitrary: s xs us)
  case (Cons x ops)
  have "int_range (int (length xs) + 1)"
    using Cons.prems(3) by (simp add: int_range_def)
  then obtain s1 ys where s1: "lru_do t x s = Some s1" "lru_inv t s1 ys A" "map snd ys = remdups (lru_use x us)" "length ys \<le> length xs + 1" "same_walkers s s1"
    using lru_do_ok [OF Cons.prems(1) _ _ Cons.prems(4), of x] Cons.prems(2) by auto
  have "lru_legal t ops s1" "int_range (int (length ys) + int (length ops))"
    using Cons.prems(2,3) s1(1,4) by (simp_all add: int_range_def)
  then show ?case
    using Cons.IH [OF s1(2) _ _ s1(3)] s1(1,5) by (auto simp: same_walkers_def)
qed auto

section \<open>Purging\<close>

definition is_locked :: "entry_heap \<Rightarrow> addr \<Rightarrow> bool" where
  "is_locked es e \<longleftrightarrow> entry_locked es e = Some True"

lemma lru_ok_entry:
  assumes "lru_ok t d h es xs" "(q, e) \<in> set xs"
  obtains x where "es e = Some x" "storeEntryLocked x \<longleftrightarrow> is_locked es e"
proof -
  have "node_get (pnode t e) es \<noteq> None"
    using assms(2) lru_okD(6) [OF assms(1), of e q] by simp
  then obtain x where "es e = Some x"
    using node_get_locked [of e es] by (auto simp: pnode_def split: if_splits)
  then show ?thesis
    using that by (auto simp: is_locked_def entry_locked_def)
qed

text \<open>
  The state of a new walker after the locked entries \<open>us\<close> were put behind the others, \<open>ys\<close>: it stands
  at the first of those, and the walk ends when it is back at the node it started with.
\<close>

definition purge_at :: "RemovalPurgeWalker \<Rightarrow> (addr \<times> addr) list \<Rightarrow> (addr \<times> addr) list \<Rightarrow> int \<Rightarrow> bool" where
  "purge_at w us ys m \<longleftrightarrow> pw_current w = first_node ys \<and> pw_start w = first_node (us @ ys) \<and>
     pw_scanned w = int (length us) \<and> pw_locked w = int (length us) \<and> pw_max_scan w = m"

lemma purge_at_step:
  assumes "purge_at w us ((q, e) # ys) m" "distinct (map fst (us @ (q, e) # ys))"
    "w1 = w\<lparr>pw_scanned := pw_scanned w + 1, pw_current := first_node (ys @ us)\<rparr>"
  shows "pw_current (if pw_current w1 = pw_start w1 then w1\<lparr>pw_current := None\<rparr> else w1) = first_node ys"
  using assms by (cases us; cases ys) (auto simp: purge_at_def)

text \<open>What is left when the entry \<open>e\<close> was taken out of the policy: every heap of entries in which its node is empty.\<close>

definition lru_without :: "heap_entry_type \<Rightarrow> LruPolicyData \<Rightarrow> dl_heap \<Rightarrow> entry_heap \<Rightarrow> addr \<Rightarrow> (addr \<times> addr) list \<Rightarrow> bool" where
  "lru_without t d h es e xs \<longleftrightarrow> (\<forall>es'. node_get (pnode t e) es' = Some None \<longrightarrow>
     (\<forall>n. n \<noteq> pnode t e \<longrightarrow> node_get n es' = node_get n es) \<longrightarrow> lru_ok t d h es' xs)"

lemma lru_purge_loop_ok:
  assumes "lru_ok t d h es (ys @ us)" "purge_at w us ys m" "int (length us) \<le> m" "int_range m" "int_range (int (length (ys @ us)))"
  shows "\<exists>r w' d' h' y1 y2. lru_purge_loop es w d h = Some (r, w', d', h') \<and> ys = y1 @ y2 \<and> int (length (us @ y1)) \<le> m \<and> (\<forall>x\<in>set y1. is_locked es (snd x)) \<and>
    lru_nwalkers d' = lru_nwalkers d \<and> lru_type d' = lru_type d \<and>
    (if y2 = [] \<or> int (length (us @ y1)) = m then r = None \<and> lru_ok t d' h' es (y2 @ us @ y1)
     else r = Some (snd (hd y2)) \<and> \<not> is_locked es (snd (hd y2)) \<and> lru_without t d' h' es (snd (hd y2)) (tl y2 @ us @ y1))"
  using assms
proof (induction ys arbitrary: us w d h)
  case Nil
  then show ?case
    by (subst lru_purge_loop.simps) (auto simp: purge_at_def)
next
  case (Cons y ys)
  obtain q e where y: "y = (q, e)"
    by (cases y)
  show ?case
  proof (cases "int (length us) = m")
    case True
    then have "lru_purge_loop es w d h = Some (None, w, d, h)"
      using Cons.prems(2) y by (subst lru_purge_loop.simps) (simp add: purge_at_def)
    then show ?thesis
      using True Cons.prems(1,3) by (intro exI [of _ None] exI [of _ w] exI [of _ d] exI [of _ h] exI [of _ "[]"] exI [of _ "y # ys"]) simp
  next
    case False
    have ok: "lru_ok t d h es ([] @ (q, e) # (ys @ us))"
      using Cons.prems(1) y by simp
    obtain n where n: "h q = Some n" "dl_data n = Some e" "dl_next n = first_node (ys @ us)"
      using lru_ok_node [OF ok] .
    obtain x where x: "es e = Some x" "storeEntryLocked x \<longleftrightarrow> is_locked es e"
      using lru_ok_entry [OF ok, of q e] by auto
    define w1 where "w1 = w\<lparr>pw_scanned := pw_scanned w + 1, pw_current := first_node (ys @ us)\<rparr>"
    define w2 where "w2 = (if pw_current w1 = pw_start w1 then w1\<lparr>pw_current := None\<rparr> else w1)"
    have "distinct (map fst (us @ (q, e) # ys))"
      using lru_okD(4) [OF ok] by auto
    then have w2: "pw_current w2 = first_node ys" "pw_start w2 = pw_start w" "pw_scanned w2 = pw_scanned w + 1"
        "pw_locked w2 = pw_locked w" "pw_max_scan w2 = pw_max_scan w"
      using purge_at_step [OF Cons.prems(2) [unfolded y] _ w1_def] by (simp_all add: w2_def) (simp_all add: w1_def)
    have go: "int_range (pw_locked w + 1)" "int_range (lru_count d - 1)" "pw_scanned w < pw_max_scan w" "pw_current w = Some q"
      using Cons.prems(2-5) False lru_okD(3) [OF ok] y by (auto simp: purge_at_def int_range_def)
    show ?thesis
    proof (cases "is_locked es e")
      case True
      obtain l h1 l2 h2 where rot: "dlinkDelete q (lru_list d) h = Some (l, h1)" "dlinkAddTail e q l h1 = Some (l2, h2)"
          "lru_ok t (d\<lparr>lru_list := l2\<rparr>) h2 es (ys @ us @ [(q, e)])"
        using lru_ok_rotate [OF ok] by auto
      define w3 where "w3 = w2\<lparr>pw_locked := pw_locked w + 1\<rparr>"
      have eq: "lru_purge_loop es w d h = lru_purge_loop es w3 (d\<lparr>lru_list := l2\<rparr>) h2"
        using go n x rot(1,2) True unfolding w3_def w2_def w1_def
        by (subst lru_purge_loop.simps, cases "first_node (ys @ us) = pw_start w") (simp_all add: Let_def)
      have "purge_at w3 (us @ [(q, e)]) ys m"
        using Cons.prems(2) w2 y by (simp add: purge_at_def w3_def)
      then obtain r w' d' h' y1 y2 where "lru_purge_loop es w3 (d\<lparr>lru_list := l2\<rparr>) h2 = Some (r, w', d', h')" "ys = y1 @ y2"
          "int (length ((us @ [(q, e)]) @ y1)) \<le> m"
          "\<forall>x\<in>set y1. is_locked es (snd x)" "lru_nwalkers d' = lru_nwalkers d" "lru_type d' = lru_type d"
          "if y2 = [] \<or> int (length ((us @ [(q, e)]) @ y1)) = m then r = None \<and> lru_ok t d' h' es (y2 @ (us @ [(q, e)]) @ y1)
           else r = Some (snd (hd y2)) \<and> \<not> is_locked es (snd (hd y2)) \<and>
             lru_without t d' h' es (snd (hd y2)) (tl y2 @ (us @ [(q, e)]) @ y1)"
        using Cons.IH [OF rot(3), of w3] Cons.prems(3-5) False by auto
      then show ?thesis
        using eq y True by (intro exI [of _ r] exI [of _ w'] exI [of _ d'] exI [of _ h'] exI [of _ "y # y1"] exI [of _ y2]) auto
    next
      case not_locked: False
      obtain l h1 where del: "dlinkDelete q (lru_list d) h = Some (l, h1)"
          "lru_without t (d\<lparr>lru_list := l, lru_count := lru_count d - 1\<rparr>) (h1(q := None)) es e (ys @ us)"
        using lru_ok_drop [OF ok] by (auto simp: lru_without_def)
      define d' where "d' = d\<lparr>lru_list := l, lru_count := lru_count d - 1\<rparr>"
      define h' where "h' = h1(q := None)"
      have "lru_purge_loop es w d h = Some (Some e, w2, d', h')"
        using go n x del(1) not_locked unfolding w2_def w1_def d'_def h'_def
        by (subst lru_purge_loop.simps, cases "first_node (ys @ us) = pw_start w") (simp_all add: Let_def)
      moreover have "lru_nwalkers d' = lru_nwalkers d" "lru_type d' = lru_type d" "lru_without t d' h' es e (ys @ us)"
        using del(2) by (simp_all add: d'_def h'_def)
      ultimately show ?thesis
        using not_locked False y Cons.prems(3)
        by - (intro exI [of _ "Some e"] exI [of _ w2] exI [of _ d'] exI [of _ h'], rule exI [of _ "[]"], rule exI [of _ "y # ys"], simp)
    qed
  qed
qed

lemma lru_inv_purge_walker:
  assumes "lru_cb s A" "walkers_ok s n A" "w \<in> dom (purge_walkers s)"
  shows "walkers_ok (s\<lparr>purge_walkers := (purge_walkers s)(w \<mapsto> v)\<rparr>) n A"
proof -
  have "insert w (dom (purge_walkers s)) = dom (purge_walkers s)"
    using assms(3) by auto
  then show ?thesis
    using assms(2) by (auto simp: walkers_ok_def)
qed

lemma lru_purgeNext_ok:
  assumes "lru_inv t s xs A" "int_range (int (length xs))" "0 \<le> m" "int_range m"
    "purge_walkers s w = Some \<lparr>pw_current = first_node xs, pw_start = first_node xs, pw_scanned = 0, pw_max_scan = m, pw_locked = 0\<rparr>"
  shows "\<exists>r s' us ys. lru_purgeNext w s = Some (r, s') \<and> xs = us @ ys \<and> int (length us) \<le> m \<and> (\<forall>x\<in>set us. is_locked (entries s) (snd x)) \<and>
    w \<in> dom (purge_walkers s') \<and>
    (if ys = [] \<or> int (length us) = m then r = None \<and> lru_inv t s' (ys @ us) A
     else r = Some (snd (hd ys)) \<and> \<not> is_locked (entries s) (snd (hd ys)) \<and> lru_inv t s' (tl ys @ us) A)"
proof -
  obtain d where d: "policy_data s = Some d" and ok: "lru_ok t d (lru_nodes s) (entries s) xs"
      and wk: "walkers_ok s (lru_nwalkers d) A" and cb: "lru_cb s A"
    using assms(1) by (auto simp: lru_inv_def)
  define pw where "pw = \<lparr>pw_current = first_node xs, pw_start = first_node xs, pw_scanned = 0, pw_max_scan = m, pw_locked = 0\<rparr>"
  have pre: "lru_ok t d (lru_nodes s) (entries s) (xs @ [])" "purge_at pw [] xs m" "int (length []) \<le> m" "int_range (int (length (xs @ [])))"
    using ok assms(2,3) by (simp_all add: purge_at_def pw_def)
  obtain r w' d' h' us ys where loop: "lru_purge_loop (entries s) pw d (lru_nodes s) = Some (r, w', d', h')" "xs = us @ ys"
      "\<forall>x\<in>set us. is_locked (entries s) (snd x)" "lru_nwalkers d' = lru_nwalkers d" "lru_type d' = lru_type d" "int (length us) \<le> m"
      and res: "if ys = [] \<or> int (length us) = m then r = None \<and> lru_ok t d' h' (entries s) (ys @ us)
       else r = Some (snd (hd ys)) \<and> \<not> is_locked (entries s) (snd (hd ys)) \<and>
         lru_without t d' h' (entries s) (snd (hd ys)) (tl ys @ us)"
    using lru_purge_loop_ok [OF pre(1-3) assms(4) pre(4), unfolded append_Nil] by blast
  define s1 where "s1 = s\<lparr>purge_walkers := (purge_walkers s)(w \<mapsto> w'), policy_data := Some d', lru_nodes := h'\<rparr>"
  have s1: "lru_cb (s1\<lparr>entries := es\<rparr>) A" "walkers_ok (s1\<lparr>entries := es\<rparr>) (lru_nwalkers d') A" for es
    using cb wk assms(5) loop(4) lru_inv_purge_walker [OF cb wk, of w] by (auto simp: s1_def)
  show ?thesis
  proof (cases "ys = [] \<or> int (length us) = m")
    case True
    then have "lru_purgeNext w s = Some (None, s1\<lparr>entries := entries s\<rparr>)"
      using d assms(5) loop(1) res by (simp add: lru_purgeNext_def pw_def s1_def)
    moreover have "lru_inv t (s1\<lparr>entries := entries s\<rparr>) (ys @ us) A"
      using s1 [of "entries s"] True res by (simp add: lru_inv_def) (simp add: s1_def)
    moreover have "w \<in> dom (purge_walkers (s1\<lparr>entries := entries s\<rparr>))"
      by (simp add: s1_def)
    ultimately show ?thesis
      using True loop(2,3,6) by - (rule exI [of _ None], rule exI [of _ "s1\<lparr>entries := entries s\<rparr>"], rule exI [of _ us], rule exI [of _ ys], simp)
  next
    case False
    define e where "e = snd (hd ys)"
    have "hd ys \<in> set xs"
      using False loop(2) by simp
    then have "(fst (hd ys), e) \<in> set xs"
      by (simp add: e_def)
    then have "node_get (pnode t e) (entries s) \<noteq> None"
      using lru_okD(6) [OF ok, of e "fst (hd ys)"] by simp
    then obtain es where es: "node_put (pnode t e) None (entries s) = Some es" "node_get (pnode t e) es = Some None"
        "\<forall>n. n \<noteq> pnode t e \<longrightarrow> node_get n es = node_get n (entries s)"
      using node_put_ok [of "pnode t e" "entries s" None] by auto
    have ty: "lru_type d' = t" "t \<noteq> TYPE_UNKNOWN"
      using ok False loop(2,5) by (auto simp: lru_ok_def)
    have "lru_purgeNext w s = Some (Some e, s1\<lparr>entries := es\<rparr>)"
      using d assms(5) loop(1) res False es(1) ty by (simp add: lru_purgeNext_def pw_def s1_def SET_POLICY_NODE_pnode e_def)
    moreover have "lru_ok t d' h' es (tl ys @ us)"
      using res False es(2,3) unfolding lru_without_def e_def by simp
    then have "lru_inv t (s1\<lparr>entries := es\<rparr>) (tl ys @ us) A"
      using s1 [of es] by (simp add: lru_inv_def) (simp add: s1_def)
    moreover have "w \<in> dom (purge_walkers (s1\<lparr>entries := es\<rparr>))"
      by (simp add: s1_def)
    ultimately show ?thesis
      using False loop(2,3,6) res unfolding e_def
      by - (rule exI [of _ "Some (snd (hd ys))"], rule exI [of _ "s1\<lparr>entries := es\<rparr>"], rule exI [of _ us], rule exI [of _ ys], simp)
  qed
qed

lemma lru_purgeDone_ok:
  assumes "lru_inv t s xs A" "w \<in> dom (purge_walkers s)"
  shows "\<exists>s'. lru_purgeDone w s = Some s' \<and> lru_inv t s' xs (A - {w})"
proof -
  obtain d where d: "policy_data s = Some d" "lru_ok t d (lru_nodes s) (entries s) xs" "walkers_ok s (lru_nwalkers d) A"
    using assms(1) by (auto simp: lru_inv_def)
  have cb: "lru_cb s A"
    using assms(1) by (simp add: lru_inv_def)
  have wA: "w \<in> A" "w \<notin> dom (walkers s)" "card (dom (purge_walkers s)) > 0"
    using d(3) assms(2) by (auto simp: walkers_ok_def card_gt_0_iff)
  define s1 where "s1 = s\<lparr>policy_data := Some (d\<lparr>lru_nwalkers := lru_nwalkers d - 1\<rparr>), purge_walkers := (purge_walkers s)(w := None)\<rparr>"
  have "lru_cb s1 A"
    using cb by (simp add: s1_def)
  then obtain h n c where free: "cbdataInternalFree w s1 = Some (s1\<lparr>cb_heap := h, cbdataCount := n, cb_calls := c\<rparr>)"
      "lru_cb (s1\<lparr>cb_heap := h, cbdataCount := n, cb_calls := c\<rparr>) (A - {w})"
    using lru_cb_free wA(1) by blast
  define s2 where "s2 = s1\<lparr>cb_heap := h, cbdataCount := n, cb_calls := c\<rparr>"
  obtain v where "purge_walkers s w = Some v"
    using assms(2) by auto
  moreover have "0 < lru_nwalkers d" "policy_type s = Some ''lru''"
    using d(3) wA(3) cb by (simp_all add: walkers_ok_def lru_cb_def)
  ultimately have "lru_purgeDone w s = Some s2"
    using d(1) free(1) by (simp add: lru_purgeDone_def s1_def [symmetric] s2_def)
  moreover have "lru_cb s2 (A - {w})"
    using free(2) by (simp add: s2_def)
  moreover have "walkers_ok s2 (lru_nwalkers d - 1) (A - {w})"
    using d(3) wA assms(2) by (auto simp: walkers_ok_def s2_def s1_def of_nat_diff)
  ultimately show ?thesis
    using d(2) by (auto simp: lru_inv_def) (auto simp: s2_def s1_def)
qed

section \<open>Creation\<close>

text \<open>
  A state without a policy of the kind \<open>t\<close>: no list nodes, no walkers, and every policy node is
  empty. There is room in the counter of objects for the policy and a walker.
\<close>

definition lru_start :: "heap_entry_type \<Rightarrow> lru_state \<Rightarrow> addr set \<Rightarrow> bool" where
  "lru_start t s A \<longleftrightarrow> t \<noteq> TYPE_UNKNOWN \<and> lru_reg s A \<and> lru_nodes s = Map.empty \<and> walkers s = Map.empty \<and>
     purge_walkers s = Map.empty \<and> int_range (cbdataCount s + 2) \<and> (\<forall>e q. node_get (pnode t e) (entries s) \<noteq> Some (Some q))"

lemma createRemovalPolicy_lru_ok:
  assumes "lru_start t s A" "p \<notin> A"
  shows "\<exists>s'. createRemovalPolicy_lru p [] s = Some s' \<and> lru_inv t s' [] (insert p A) \<and> same_walkers s s'"
proof -
  have reg: "lru_reg s A"
    using assms(1) by (simp add: lru_start_def)
  have fit: "int_range (cbdataCount s + 1)"
    using assms(1) lru_reg_count [OF reg] by (simp add: lru_start_def int_range_def)
  obtain ty i n h c where new: "CBDATA_INIT_TYPE (CBDATA_RemovalPolicy s) s = Some (ty, s\<lparr>cbdata_index := i, cbdata_types := n\<rparr>)"
      "cbdataInternalAlloc ty p (s\<lparr>cbdata_index := i, cbdata_types := n, CBDATA_RemovalPolicy := ty\<rparr>) =
        Some (s\<lparr>cbdata_index := i, cbdata_types := n, CBDATA_RemovalPolicy := ty, cb_heap := h, cbdataCount := c\<rparr>)"
      "lru_reg (s\<lparr>cbdata_index := i, cbdata_types := n, CBDATA_RemovalPolicy := ty, cb_heap := h, cbdataCount := c\<rparr>) (insert p A)"
    using lru_new_object [OF reg assms(2), of "CBDATA_RemovalPolicy s" "\<lambda>t s. s\<lparr>CBDATA_RemovalPolicy := t\<rparr>"] fit by blast
  define s1 where "s1 = s\<lparr>cbdata_index := i, cbdata_types := n, CBDATA_RemovalPolicy := ty, cb_heap := h, cbdataCount := c\<rparr>"
  define d where "d = \<lparr>lru_list = \<lparr>dl_head = None, dl_tail = None\<rparr>, lru_count = 0, lru_nwalkers = 0, lru_type = TYPE_UNKNOWN\<rparr>"
  define s2 where "s2 = s1\<lparr>policy := p, policy_type := Some ''lru'', policy_data := Some d\<rparr>"
  have "createRemovalPolicy_lru p [] s = Some s2"
    using new by (simp add: createRemovalPolicy_lru_def s2_def s1_def d_def)
  moreover have "lru_reg s1 (insert p A)"
    using new(3) by (simp add: s1_def)
  then have "lru_cb s2 (insert p A)"
    by (simp add: lru_cb_def s2_def lru_reg_def cb_inv_def cb_types_ok_def cbdata_type_entry_def)
  moreover have "lru_ok t d (lru_nodes s2) (entries s2) []"
    using assms(1) by (simp add: lru_ok_def d_def s2_def s1_def lru_start_def dl_rep_def)
  moreover have "walkers_ok s2 (lru_nwalkers d) (insert p A)"
    using assms(1) by (simp add: walkers_ok_def d_def s2_def s1_def lru_start_def)
  moreover have "same_walkers s s2" "policy_data s2 = Some d"
    by (simp_all add: same_walkers_def s2_def s1_def)
  ultimately show ?thesis
    by (auto simp: lru_inv_def)
qed

section \<open>Statistics and release\<close>

text \<open>The statistics report the entry that would be purged first, and nothing when all are locked.\<close>

lemma lru_stats_loop_ok:
  assumes "lru_ok t d h es (us @ ys)"
  shows "\<exists>r. lru_stats_loop (first_node ys) es h now = Some r \<and> (r = None \<longleftrightarrow> (\<forall>x\<in>set ys. is_locked es (snd x)))"
  using assms
proof (induction ys arbitrary: us)
  case Nil
  then show ?case
    by (subst lru_stats_loop.simps) simp
next
  case (Cons y ys)
  obtain q e where y: "y = (q, e)"
    by (cases y)
  have ok: "lru_ok t d h es (us @ (q, e) # ys)"
    using Cons.prems y by simp
  obtain n where n: "h q = Some n" "dl_data n = Some e" "dl_next n = first_node ys"
    using lru_ok_node [OF ok] .
  obtain x where x: "es e = Some x" "storeEntryLocked x \<longleftrightarrow> is_locked es e"
    using lru_ok_entry [OF ok, of q e] by auto
  show ?case
    using n x y Cons.IH [of "us @ [y]"] Cons.prems by (subst lru_stats_loop.simps) auto
qed

lemma lru_stats_ok:
  assumes "lru_inv t s xs A"
  shows "\<exists>r. lru_stats now s = Some r \<and> (r = None \<longleftrightarrow> (\<forall>x\<in>set xs. is_locked (entries s) (snd x)))"
proof -
  obtain d where "policy_data s = Some d" "lru_ok t d (lru_nodes s) (entries s) ([] @ xs)"
    using assms by (auto simp: lru_inv_def)
  then show ?thesis
    using lru_stats_loop_ok [of t d "lru_nodes s" "entries s" "[]" xs now] lru_ok_head [of t d "lru_nodes s" "entries s" xs]
    by (simp add: lru_stats_def)
qed

text \<open>The two assertions of \<open>lru_free\<close> are the wrong way round: a policy that nobody uses is not released.\<close>

lemma lru_free_idle:
  assumes "lru_inv t s xs A" "walkers s = Map.empty" "purge_walkers s = Map.empty"
  shows "lru_free s = None"
  using assms by (auto simp: lru_inv_def walkers_ok_def lru_free_def bind_eq_None_conv)

section \<open>Properties\<close>

text \<open>C4.
  From the creation of a policy on, no call of its interface fails, whatever legal history of
  adding, removing and referencing entries there is. A walk then ends and visits exactly the
  entries that were added and not removed, each once, in the order of their last use.
\<close>

theorem lru_order:
  assumes "lru_start t s A" "p \<notin> A" "w \<notin> insert p A" "int_range (int (length ops))"
  shows "\<exists>s0. createRemovalPolicy_lru p [] s = Some s0 \<and>
    (lru_legal t ops s0 \<longrightarrow> (\<exists>s1 s2 s3 s4. lru_exec t ops s0 = Some s1 \<and> lru_walkInit w s1 = Some s2 \<and>
      lru_walk_all w s2 = Some (remdups (fold lru_use ops []), s3) \<and> lru_walkDone w s3 = Some s4 \<and>
      (\<exists>xs. lru_inv t s4 xs (insert p A) \<and> map snd xs = remdups (fold lru_use ops []))))"
proof -
  obtain s0 where s0: "createRemovalPolicy_lru p [] s = Some s0" "lru_inv t s0 [] (insert p A)" "same_walkers s s0"
    using createRemovalPolicy_lru_ok [OF assms(1,2)] by blast
  have "\<exists>s1 s2 s3 s4. lru_exec t ops s0 = Some s1 \<and> lru_walkInit w s1 = Some s2 \<and>
      lru_walk_all w s2 = Some (remdups (fold lru_use ops []), s3) \<and> lru_walkDone w s3 = Some s4 \<and>
      (\<exists>xs. lru_inv t s4 xs (insert p A) \<and> map snd xs = remdups (fold lru_use ops []))" if legal: "lru_legal t ops s0"
  proof -
    obtain s1 xs where s1: "lru_exec t ops s0 = Some s1" "lru_inv t s1 xs (insert p A)" "map snd xs = remdups (fold lru_use ops [])"
        "same_walkers s0 s1"
      using lru_exec_ok [OF s0(2) legal, of "[]"] assms(4) by auto
    have "cbdataCount s1 = int (card (insert p A))" "cbdataCount s = int (card A)" "finite A"
      using s1(2) assms(1) lru_reg_count by (auto simp: lru_inv_def lru_cb_def lru_start_def lru_reg_def cb_inv_finite)
    then have "cbdataCount s1 = cbdataCount s + 1"
      using assms(2) by simp
    then have "walkers_fit s1"
      using assms(1) s0(3) s1(4) by (simp add: walkers_fit_def same_walkers_def lru_start_def int_range_def add.assoc)
    then obtain s2 where s2: "lru_walkInit w s1 = Some s2" "lru_inv t s2 xs (insert w (insert p A))"
        "walkers s2 w = Some \<lparr>lw_current = first_node xs\<rparr>"
      using lru_walkInit_ok [OF s1(2) assms(3)] by blast
    obtain s3 where s3: "lru_walk_all w s2 = Some (map snd xs, s3)" "lru_inv t s3 xs (insert w (insert p A))" "w \<in> dom (walkers s3)"
      using lru_walk_all_ok [OF s2(2,3), of "[]"] by auto
    obtain s4 where s4: "lru_walkDone w s3 = Some s4" "lru_inv t s4 xs (insert w (insert p A) - {w})"
      using lru_walkDone_ok [OF s3(2,3)] by blast
    have "insert w (insert p A) - {w} = insert p A"
      using assms(3) by auto
    then show ?thesis
      using s1(1,3) s2(1) s3(1) s4 by auto
  qed
  with s0(1) show ?thesis
    by blast
qed

text \<open>The locked entries that a purge walk with the limit \<open>m\<close> passes before it stops.\<close>

definition purge_passed :: "entry_heap \<Rightarrow> int \<Rightarrow> (addr \<times> addr) list \<Rightarrow> (addr \<times> addr) list" where
  "purge_passed es m xs = takeWhile (\<lambda>x. is_locked es (snd x)) (take (nat m) xs)"

lemma purge_passed_eq:
  assumes "xs = us @ ys" "\<forall>x\<in>set us. is_locked es (snd x)" "int (length us) \<le> m"
    "ys = [] \<or> int (length us) = m \<or> \<not> is_locked es (snd (hd ys))"
  shows "purge_passed es m xs = us"
proof -
  consider "take (nat m) xs = us" | y zs where "take (nat m) xs = us @ y # zs" "\<not> is_locked es (snd y)"
    using assms(1,3,4) by (cases ys; cases "nat m - length us") auto
  then show ?thesis
    using assms(2) by cases (simp_all add: purge_passed_def takeWhile_append2)
qed

text \<open>C5.
  The first call of a purge walk scans the entries in the order of their last use, at most as many as
  it is allowed to. It passes the locked entries at the front, which count as used then. If those are
  all the entries or as many as it may scan, it returns none; otherwise it returns the entry behind
  them, which is not locked, taken out of the policy. Nothing else is lost, and the walker can be
  released afterwards.
\<close>

theorem lru_purge_first:
  assumes "lru_inv t s xs A" "w \<notin> A" "walkers_fit s" "int_range (int (length xs))" "0 \<le> m" "int_range m"
    and "us = purge_passed (entries s) m xs" "ys = drop (length us) xs"
  shows "\<exists>s1 r s2 s3. lru_purgeInit w m s = Some s1 \<and> lru_purgeNext w s1 = Some (r, s2) \<and> lru_purgeDone w s2 = Some s3 \<and>
    (if ys = [] \<or> int (length us) = m then r = None \<and> lru_inv t s3 (ys @ us) A
     else r = Some (snd (hd ys)) \<and> \<not> is_locked (entries s) (snd (hd ys)) \<and> lru_inv t s3 (tl ys @ us) A)"
proof -
  obtain s1 where s1: "lru_purgeInit w m s = Some s1" "lru_inv t s1 xs (insert w A)" "entries s1 = entries s"
      "purge_walkers s1 w = Some \<lparr>pw_current = first_node xs, pw_start = first_node xs, pw_scanned = 0, pw_max_scan = m, pw_locked = 0\<rparr>"
    using lru_purgeInit_ok [OF assms(1-3)] by blast
  obtain r s2 us' ys' where s2: "lru_purgeNext w s1 = Some (r, s2)" "xs = us' @ ys'" "\<forall>x\<in>set us'. is_locked (entries s) (snd x)"
      "w \<in> dom (purge_walkers s2)" "int (length us') \<le> m"
      and res': "if ys' = [] \<or> int (length us') = m then r = None \<and> lru_inv t s2 (ys' @ us') (insert w A)
       else r = Some (snd (hd ys')) \<and> \<not> is_locked (entries s) (snd (hd ys')) \<and> lru_inv t s2 (tl ys' @ us') (insert w A)"
    using lru_purgeNext_ok [OF s1(2) assms(4-6) s1(4), unfolded s1(3)] by blast
  have "us' = us" "ys' = ys"
    using purge_passed_eq [OF s2(2,3,5)] res' s2(2) assms(7,8) by (auto split: if_splits)
  note res = res' [unfolded this]
  have "insert w A - {w} = A"
    using assms(2) by auto
  then obtain s3 where s3: "lru_purgeDone w s2 = Some s3"
      "lru_inv t s3 (if ys = [] \<or> int (length us) = m then ys @ us else tl ys @ us) A"
    using lru_purgeDone_ok [OF _ s2(4), of t _ "insert w A"] res by (cases "ys = [] \<or> int (length us) = m") fastforce+
  show ?thesis
    using s1(1) s2(1) s3 res
    by - (rule exI [of _ s1], rule exI [of _ r], rule exI [of _ s2], rule exI [of _ s3], auto split: if_splits)
qed

text \<open>Two entries, the first of which is used again.\<close>

definition ex_entry :: StoreEntry where
  "ex_entry = \<lparr>se_mem_obj = None, se_repl = None, se_lastref = 0, se_flags = 0, se_lock_count = 0,
     se_store_status = STORE_OK, se_swap_status = SWAPOUT_DONE\<rparr>"

definition ex_lru :: lru_state where
  "ex_lru = \<lparr>cb_heap = (\<lambda>_. None), cbdataCount = 0, cbdata_types = 1, cbdata_index = [], cb_calls = [],
     lru_nodes = (\<lambda>_. None), entries = [100 \<mapsto> ex_entry, 101 \<mapsto> ex_entry], policy = 0, policy_type = None, policy_data = None,
     walkers = (\<lambda>_. None), purge_walkers = (\<lambda>_. None), CBDATA_RemovalPolicy = 0, CBDATA_RemovalPolicyWalker = 0,
     CBDATA_RemovalPurgeWalker = 0\<rparr>"

definition ex_ops :: "lru_op list" where
  "ex_ops = [Add 100 1, Add 101 2, Reference 100]"

lemma ex_lru_start: "lru_start TYPE_STORE_ENTRY ex_lru {}"
  by (auto simp: lru_start_def lru_reg_def cb_inv_def cb_alive_def cb_types_ok_def ex_lru_def ex_entry_def pnode_def node_get_def int_range_def
      bind_eq_Some_conv split: if_splits)

lemma ex_lru_legal:
  "case createRemovalPolicy_lru 64 [] ex_lru of Some s0 \<Rightarrow> lru_legal TYPE_STORE_ENTRY ex_ops s0 | None \<Rightarrow> False"
  by code_simp

theorem lru_order_witness:
  "\<exists>s0 s1 s2 s3. createRemovalPolicy_lru 64 [] ex_lru = Some s0 \<and> lru_exec TYPE_STORE_ENTRY ex_ops s0 = Some s1 \<and>
     lru_walkInit 65 s1 = Some s2 \<and> lru_walk_all 65 s2 = Some ([101, 100], s3)"
proof -
  have "remdups (fold lru_use ex_ops []) = [101, 100]" "int_range (int (length ex_ops))"
    by (simp_all add: ex_ops_def int_range_def)
  then show ?thesis
    using lru_order [OF ex_lru_start, of 64 65 ex_ops] ex_lru_legal by (auto split: option.splits)
qed

lemma ex_lru_unlocked:
  "case createRemovalPolicy_lru 64 [] ex_lru of Some s0 \<Rightarrow>
     (case lru_exec TYPE_STORE_ENTRY ex_ops s0 of Some s1 \<Rightarrow> \<not> is_locked (entries s1) 101 | None \<Rightarrow> False) | None \<Rightarrow> False"
  by code_simp

theorem lru_purge_first_witness:
  "\<exists>s0 s1 s2 s3. createRemovalPolicy_lru 64 [] ex_lru = Some s0 \<and> lru_exec TYPE_STORE_ENTRY ex_ops s0 = Some s1 \<and>
     lru_purgeInit 65 10 s1 = Some s2 \<and> lru_purgeNext 65 s2 = Some (Some 101, s3)"
proof -
  obtain s0 where s0: "createRemovalPolicy_lru 64 [] ex_lru = Some s0" "lru_inv TYPE_STORE_ENTRY s0 [] {64}" "same_walkers ex_lru s0"
    using createRemovalPolicy_lru_ok [OF ex_lru_start, of 64] by auto
  have "lru_legal TYPE_STORE_ENTRY ex_ops s0" "int_range (int (length []) + int (length ex_ops))"
    using ex_lru_legal s0(1) by (simp_all add: ex_ops_def int_range_def)
  then obtain s1 xs where s1: "lru_exec TYPE_STORE_ENTRY ex_ops s0 = Some s1" "lru_inv TYPE_STORE_ENTRY s1 xs {64}" "same_walkers s0 s1"
      "map snd xs = remdups (fold lru_use ex_ops [])"
    using lru_exec_ok [OF s0(2), of ex_ops "[]"] by auto
  have xs: "map snd xs = [101, 100]"
    using s1(4) by (simp add: ex_ops_def)
  have "cbdataCount s1 = int (card {64 :: addr})"
    using s1(2) lru_reg_count by (auto simp: lru_inv_def lru_cb_def)
  then have fit: "walkers_fit s1" "int_range (int (length xs))"
    using s0(3) s1(3) arg_cong [OF xs, of length] by (simp_all add: walkers_fit_def same_walkers_def ex_lru_def int_range_def)
  have "\<not> is_locked (entries s1) 101"
    using ex_lru_unlocked s0(1) s1(1) by simp
  then have us: "[] = purge_passed (entries s1) 10 xs"
    using xs by (cases xs) (auto simp: purge_passed_def)
  obtain s2 r s3 s4 where s2: "lru_purgeInit 65 10 s1 = Some s2" "lru_purgeNext 65 s2 = Some (r, s3)"
      "if xs = [] \<or> int (length ([] :: (addr \<times> addr) list)) = 10 then r = None \<and> lru_inv TYPE_STORE_ENTRY s4 (xs @ []) {64}
       else r = Some (snd (hd xs)) \<and> \<not> is_locked (entries s1) (snd (hd xs)) \<and> lru_inv TYPE_STORE_ENTRY s4 (tl xs @ []) {64}"
    using lru_purge_first [OF s1(2) _ fit _ _ us, of 65 xs] by (fastforce simp: int_range_def)
  then have "r = Some 101"
    using xs by (cases xs) auto
  then show ?thesis
    using s0(1) s1(1) s2(1,2) by blast
qed

end
