(* ===== verification/Spec2Isabelle.thy ===== *)
theory Spec2Isabelle
  imports Binary_Heap File_Map Cache_Digest Swap_Meta Store_Mem Base64 Text_Escape Http_Range Event_Queue Lru_Policy
begin

text \<open>
  \<^bold>\<open>Lusca, a caching web proxy: verification of its data structures and codecs.\<close>

  \<^bold>\<open>The program.\<close> Lusca is a C program of libraries (\<^verbatim>\<open>lib\<close>, \<^verbatim>\<open>libcore\<close>, \<^verbatim>\<open>libmem\<close>, \<^verbatim>\<open>libcb\<close>,
  \<^verbatim>\<open>libiapp\<close>, \<^verbatim>\<open>libhttp\<close>, \<^verbatim>\<open>libstmem\<close>, \<^verbatim>\<open>libsqtlv\<close>, \<^verbatim>\<open>libsqstore\<close> and others) below a server
  (\<^verbatim>\<open>src/src\<close>). A request's header is parsed with counted strings and string lists, among it the
  range fields. An object is a store entry with pages in memory and a file on disk: the file number
  comes from the file map, the file begins with packed metadata, a removal policy decides which
  entry goes when space is needed, and a digest tells the peers which objects there are. Timed work
  is on the event queue. Everything that waits for a callback is reference counted by the callback
  data registry. The development models these parts, from the lists and bit operations up.

  \<^bold>\<open>Conventions\<close> (\<open>Lusca_Prelude\<close>). A stateful operation takes the state it changes and returns the
  new one. A call that stops the process (a failed \<open>assert\<close>, \<open>fatal\<close>) or whose behaviour C leaves
  undefined is \<open>None\<close>: reading or writing outside an object, following a freed pointer, exceeding a
  signed type. So every theorem that gives \<open>Some\<close> is also a proof of memory safety and of the absence
  of overflow on that path. Signed C integers are of type \<open>int\<close> with \<open>int_range\<close> (32 bits) or
  \<open>off_range\<close> (64 bits) checked where the source computes; conversions to \<open>int\<close> and \<open>size_t\<close> reduce
  modulo the width (\<open>c_int\<close>, \<open>size_t\<close>); unsigned values that wrap are words. The host is 64-bit,
  little endian, with signed \<open>char\<close>. Memory is a partial map from addresses to records, one per
  structure type; a fresh address is one outside its domain. Allocation itself never runs out.

  \<^bold>\<open>Theories and sources.\<close>

  \<^item> \<open>Heap_Order\<close>, \<open>Binary_Heap\<close>: \<^verbatim>\<open>lib/heap.c\<close>. The first has the order of a heap laid out in a list;
    the second is the code, an array of node pointers with back indices, which is refined to it
    by \<open>heap_view\<close>. The locale \<open>keyed_queue\<close> is the contract with its clients: a multiset of
    entries with keys.
  \<^item> \<open>Bit_Array\<close>: the macros \<open>CBIT_SET\<close>, \<open>CBIT_CLR\<close>, \<open>CBIT_TEST\<close> of \<^verbatim>\<open>libcore/tools.h\<close>; the locale
    \<open>bit_array\<close> says that an array of words is a finite set of numbers.
  \<^item> \<open>File_Map\<close>: \<^verbatim>\<open>libsqstore/filemap.c\<close>, over \<open>bit_array\<close>.
  \<^item> \<open>Byte_Codec\<close>: integers in memory in either byte order (locale \<open>fixed_codec\<close>).
  \<^item> \<open>Cache_Digest\<close>: \<^verbatim>\<open>src/CacheDigest.c\<close>, over \<open>bit_array\<close> and \<open>fixed_codec\<close>.
  \<^item> \<open>Swap_Meta\<close>: \<^verbatim>\<open>libsqtlv/tlv.c\<close>, \<^verbatim>\<open>libsqstore/store_meta.c\<close>, \<^verbatim>\<open>src/store_swapmeta.c\<close> and the
    header parser of \<^verbatim>\<open>libsqstore/rebuild_entry.c\<close>.
  \<^item> \<open>Linked_List\<close>, \<open>Store_Mem\<close>: list segments on a heap, and the page lists and page references of
    \<^verbatim>\<open>libstmem/stmem.c\<close>.
  \<^item> \<open>Base64\<close>: \<^verbatim>\<open>lib/base64.c\<close>, \<^verbatim>\<open>lib/uudecode.c\<close>. \<open>Text_Escape\<close>: \<^verbatim>\<open>lib/rfc1738.c\<close>,
    \<^verbatim>\<open>lib/html_quote.c\<close>.
  \<^item> \<open>C_String\<close>: the functions of the C library that the sources use on strings. \<open>Lusca_String\<close>:
    \<^verbatim>\<open>libmem/MemStr.c\<close>, \<^verbatim>\<open>libmem/String.c\<close> (locale \<open>counted_string\<close>). \<open>Str_List\<close>: \<^verbatim>\<open>libmem/StrList.c\<close>.
  \<^item> \<open>Http_Range\<close>: \<^verbatim>\<open>HttpHdrRange.c\<close> and \<^verbatim>\<open>HttpHdrContRange.c\<close> of \<^verbatim>\<open>libhttp\<close> and of \<^verbatim>\<open>src\<close>.
  \<^item> \<open>Callback_Data\<close>: \<^verbatim>\<open>libcb/cbdata.c\<close> (locale \<open>callback_registry\<close>). \<open>Event_Queue\<close>:
    \<^verbatim>\<open>libiapp/event.c\<close>, its client.
  \<^item> \<open>Dlink\<close>: \<^verbatim>\<open>libcore/dlink.c\<close> (locale \<open>double_list\<close>). \<open>Store_Entry\<close>: the part of a store entry that
    the policies see. \<open>Lru_Policy\<close>: \<^verbatim>\<open>src/repl/lru/store_repl_lru.c\<close>, a client of both and of the
    registry.

  \<^bold>\<open>What is shown.\<close> For the heap: insertion, deletion, update and extraction act on the multiset of
  entries, extraction is in ascending order, and the checker of the heap order is exact. For the
  file map: the allocator ends and finds a free number unless the map is full at its largest size;
  the bit operations are those of a finite set with an exact counter. For digests: no added key is
  ever denied, and the test is exact on the bits. For swap metadata: packing and unpacking are
  inverse, unpacking is safe on any bytes, and what the rebuild helpers recover of the cache's own
  headers. For object memory: appending, copying, freeing and references refine operations on a byte
  string, with exact reference counts and no use after free. For the text codecs: equality with
  reference functions, round trips and safety of the static buffers. For strings and lists:
  refinement of byte strings, exact iteration and where it does not end. For ranges: canonization
  asks for the same bytes inside the body, round trips of printing and parsing, exactness of the
  queries. For the registry: an object is released exactly when it is freed and unreferenced. For
  the event queue: any history of calls keeps it sorted with exact locks, and a run ends with the
  due events gone, whatever well-behaved handlers do. For the policy: a walk visits the entries in
  the order of their last use after any history, and a purge takes the first that is not locked.
  Some theorems state where the code does not do what it means to: they are the theorems about
  \<open>tlv_unpack\<close> on exact buffers, \<open>storeSwapMetaAssemble\<close>, \<open>strListGetItem\<close> with another
  delimiter, and the range \<open>bytes=--1\<close>.

  \<^bold>\<open>Bounds and termination.\<close> No definition uses fuel. Loops over arrays and lists are structural or
  have a measure (the number of cells left to search, the bytes left to unpack, the scans left to a
  purge walk). Loops that may not end for some state are partial functions with the value \<open>None\<close>
  then: the sifting of the heap, the growing of the file map, the walks along linked pages and
  nodes, the run of the event queue and the iteration over list items; the theorems that give \<open>Some\<close> prove that they end.
  The numeric bounds in hypotheses are the ranges of the C types: a heap with room can be grown up to
  1431655765 cells by half, a digest counts to \<open>2 ^ 31\<close>, a string has 16-bit sizes, a packed header
  is an \<open>int\<close> long.

  \<^bold>\<open>Parameters.\<close> Event handlers are a parameter of \<open>eventRun\<close>, constrained by \<open>handler_ok\<close> (they only
  use the queue and the registry through their operations); the contents of fresh string memory and
  the key function of a heap are parameters without constraint; keys of a heap are of any linear
  order.

  \<^bold>\<open>Not modelled.\<close> Debug output, statistics counters, memory pools and everything under \<open>#if\<close>
  conditions that the default build leaves out; the parts of the server that drive sockets, disks,
  helper processes and the system clock (\<^verbatim>\<open>client_side.c\<close>, \<^verbatim>\<open>http.c\<close>, \<^verbatim>\<open>ftp.c\<close>, \<^verbatim>\<open>comm.c\<close>, the store file
  systems, DNS, authentication, SNMP and WCCP); configuration parsing and access control; the
  bundled regular expression matcher and allocator; the remaining header fields of \<^verbatim>\<open>libhttp\<close>.
\<close>

end
